(* ===== verification/Prelude.thy ===== *)
theory Prelude
  imports Main "HOL-Library.Word" "HOL-Library.AList" "HOL-Library.Signed_Division"
    "HOL-Library.Sublist" "HOL-Library.Char_ord" "HOL-Library.List_Lexorder"
begin

section \<open>Prelude: Go's values, strings and maps\<close>

text \<open>
  What the components share.
  \<^item> Go strings are byte strings: \<^typ>\<open>string\<close> is a list of 8-bit characters, so
    \<^const>\<open>length\<close> counts what \<^verbatim>\<open>len\<close> counts.
  \<^item> A Go map is an association list with distinct keys. Its order stands for the unspecified
    order in which \<^verbatim>\<open>range\<close> visits the map, so a statement about every such list is a
    statement about every iteration order. The interface \<open>go_map\<close> below is what the
    components use of it.
  \<^item> An \<^verbatim>\<open>int64\<close> that is only added, subtracted and compared is a 64-bit word compared by
    its signed value; a duration or a time is an unbounded integer wherever the source checks
    for overflow itself.
  \<^item> A pair \<^verbatim>\<open>(value, error)\<close> is a sum with the error on the left.
\<close>

named_theorems tc_simps \<open>unfolding rules of the traffic-control operations\<close>
named_theorems aster_simps \<open>unfolding rules of the Aster operations\<close>

subsection \<open>Integers\<close>

type_synonym int64 = "64 word"

abbreviation max_int64 :: int where
  "max_int64 \<equiv> 9223372036854775807"

text \<open>Integer division in Go truncates towards zero; on non-negative numbers it is \<^const>\<open>divide\<close>.\<close>

lemma sdiv_nonneg [simp]: "0 \<le> a \<Longrightarrow> 0 \<le> b \<Longrightarrow> a sdiv b = a div (b::int)"
  by (cases "a = 0"; cases "b = 0") (auto simp: signed_divide_int_def sgn_if)

lemma smod_nonneg [simp]: "0 \<le> a \<Longrightarrow> 0 \<le> b \<Longrightarrow> a smod b = a mod (b::int)"
  by (cases "a = 0") (simp_all add: signed_modulo_int_def)

lemma div_mult_le_self: "0 < b \<Longrightarrow> a div b * b \<le> (a::int)"
  by (metis mult.commute pos_mod_sign mod_mult_div_eq add_le_same_cancel2 le_add_same_cancel2
      add.commute)

lemma less_div_mult_add: "0 < b \<Longrightarrow> (a::int) < a div b * b + b"
  by (metis add.commute add_less_cancel_left div_mult_mod_eq pos_mod_bound)

subsection \<open>Maps\<close>

type_synonym ('k, 'v) gomap = "('k \<times> 'v) list"

text \<open>
  The operations of a Go map: \<^verbatim>\<open>m[k]\<close> with its presence flag, \<^verbatim>\<open>m[k] = v\<close>,
  \<^verbatim>\<open>delete(m, k)\<close> and \<^verbatim>\<open>range\<close>. The clients' lemmas are proved once from these laws.
\<close>

locale go_map =
  fixes empty :: "'m"
    and lookup :: "'m \<Rightarrow> 'k \<Rightarrow> 'v option"
    and update :: "'k \<Rightarrow> 'v \<Rightarrow> 'm \<Rightarrow> 'm"
    and delete :: "'k \<Rightarrow> 'm \<Rightarrow> 'm"
    and range :: "'m \<Rightarrow> ('k \<times> 'v) list"
    and invar :: "'m \<Rightarrow> bool"
  assumes lookup_empty: "lookup empty = (\<lambda>_. None)"
    and lookup_update: "lookup (update k v m) = (lookup m)(k \<mapsto> v)"
    and lookup_delete: "lookup (delete k m) = (lookup m)(k := None)"
    and range_lookup: "invar m \<Longrightarrow> (k, v) \<in> set (range m) \<longleftrightarrow> lookup m k = Some v"
    and range_distinct: "invar m \<Longrightarrow> distinct (map fst (range m))"
    and invar_empty: "invar empty"
    and invar_update: "invar m \<Longrightarrow> invar (update k v m)"
    and invar_delete: "invar m \<Longrightarrow> invar (delete k m)"
begin

lemma range_keys: "invar m \<Longrightarrow> fst ` set (range m) = dom (lookup m)"
proof -
  assume ok: "invar m"
  have "k \<in> fst ` set (range m) \<longleftrightarrow> k \<in> dom (lookup m)" for k
    using range_lookup [OF ok, of k] by (force simp: image_iff)
  then show ?thesis by blast
qed

lemma delete_update_other: "k \<noteq> l \<Longrightarrow> lookup (delete k (update l v m)) l = Some v"
  by (simp add: lookup_update lookup_delete)

lemma lookup_fold_delete: "lookup (fold delete ks m) k = (if k \<in> set ks then None else lookup m k)"
  by (induction ks arbitrary: m) (auto simp: lookup_delete)

lemma invar_fold_delete: "invar m \<Longrightarrow> invar (fold delete ks m)"
  by (induction ks arbitrary: m) (auto simp: invar_delete)

end

abbreviation mget :: "('k, 'v) gomap \<Rightarrow> 'k \<Rightarrow> 'v option" where
  "mget \<equiv> map_of"

abbreviation mset' :: "'k \<Rightarrow> 'v \<Rightarrow> ('k, 'v) gomap \<Rightarrow> ('k, 'v) gomap" where
  "mset' \<equiv> AList.update"

abbreviation mdel :: "'k \<Rightarrow> ('k, 'v) gomap \<Rightarrow> ('k, 'v) gomap" where
  "mdel \<equiv> AList.delete"

abbreviation mkeys_ok :: "('k, 'v) gomap \<Rightarrow> bool" where
  "mkeys_ok m \<equiv> distinct (map fst m)"

interpretation gm: go_map "[]" mget mset' mdel "\<lambda>m. m" mkeys_ok
  by unfold_locales (auto simp: update_conv' delete_conv' distinct_update distinct_delete)


subsection \<open>Results with errors\<close>

fun bindR :: "'e + 'a \<Rightarrow> ('a \<Rightarrow> 'e + 'b) \<Rightarrow> 'e + 'b" where
  "bindR (Inl e) f = Inl e"
| "bindR (Inr x) f = f x"

lemma bindR_eq_Inr: "bindR m f = Inr y \<longleftrightarrow> (\<exists>x. m = Inr x \<and> f x = Inr y)"
  by (cases m) auto

lemma bindR_eq_Inl: "bindR m f = Inl e \<longleftrightarrow> m = Inl e \<or> (\<exists>x. m = Inr x \<and> f x = Inl e)"
  by (cases m) auto

lemma bindR_cong [fundef_cong]:
  "m = m' \<Longrightarrow> (\<And>x. m' = Inr x \<Longrightarrow> f x = f' x) \<Longrightarrow> bindR m f = bindR m' f'"
  by (cases m') auto

text \<open>A loop over a slice whose body may return early with an error.\<close>

fun foldR :: "('s \<Rightarrow> 'a \<Rightarrow> 'e + 's) \<Rightarrow> 's \<Rightarrow> 'a list \<Rightarrow> 'e + 's" where
  "foldR f s [] = Inr s"
| "foldR f s (x # xs) = bindR (f s x) (\<lambda>s'. foldR f s' xs)"

lemma foldR_append: "foldR f s (xs @ ys) = bindR (foldR f s xs) (\<lambda>s'. foldR f s' ys)"
proof (induction xs arbitrary: s)
  case (Cons x xs)
  then show ?case by (cases "f s x") auto
qed simp

lemma foldR_invariant:
  assumes "foldR f s xs = Inr t" "P s"
    and "\<And>s x t. x \<in> set xs \<Longrightarrow> P s \<Longrightarrow> f s x = Inr t \<Longrightarrow> P t"
  shows "P t"
  using assms
proof (induction xs arbitrary: s)
  case (Cons x xs)
  from Cons.prems(1) obtain u where u: "f s x = Inr u" "foldR f u xs = Inr t"
    by (auto simp: bindR_eq_Inr)
  have "P u" by (rule Cons.prems(3) [OF _ Cons.prems(2) u(1)]) simp
  then show ?case
    by (rule Cons.IH [OF u(2)]) (rule Cons.prems(3), simp_all)
qed simp

lemma foldl_invariant: "P a \<Longrightarrow> (\<And>a x. x \<in> set xs \<Longrightarrow> P a \<Longrightarrow> P (f a x)) \<Longrightarrow> P (foldl f a xs)"
  by (induction xs arbitrary: a) auto

fun mapR :: "('a \<Rightarrow> 'e + 'b) \<Rightarrow> 'a list \<Rightarrow> 'e + 'b list" where
  "mapR f [] = Inr []"
| "mapR f (x # xs) = bindR (f x) (\<lambda>y. bindR (mapR f xs) (\<lambda>ys. Inr (y # ys)))"

lemma mapR_Inr_set: "mapR f xs = Inr ys \<Longrightarrow> y \<in> set ys \<Longrightarrow> \<exists>x \<in> set xs. f x = Inr y"
  by (induction xs arbitrary: ys) (auto simp: bindR_eq_Inr)

lemma mapR_length: "mapR f xs = Inr ys \<Longrightarrow> length ys = length xs"
  by (induction xs arbitrary: ys) (auto simp: bindR_eq_Inr)

lemma mapR_map: "(\<And>y. y \<in> set ys \<Longrightarrow> f (g y) = Inr y) \<Longrightarrow> mapR f (map g ys) = Inr ys"
  by (induction ys) auto

end
