(* ===== verification/Go_Strings.thy ===== *)
theory Go_Strings
  imports Prelude
begin

section \<open>The string functions of the Go library that the components use\<close>

text \<open>
  Models of \<^verbatim>\<open>strings.TrimSpace\<close>, \<^verbatim>\<open>strings.Fields\<close>, \<^verbatim>\<open>strings.Join\<close>, \<^verbatim>\<open>strings.Split\<close>
  on one byte, and of \<^verbatim>\<open>strconv.FormatInt\<close>/\<^verbatim>\<open>ParseInt\<close> in base ten. White space is Unicode
  white space: a rune is recognised by its UTF-8 bytes, which never start inside the encoding of
  another rune. Case conversion is modelled on ASCII letters; a component whose behaviour depends
  on the case of other letters takes the conversion as a parameter.
\<close>

subsection \<open>White space\<close>

definition space_runes :: "string list" where
  "space_runes =
     [[CHR 0x09], [CHR 0x0A], [CHR 0x0B], [CHR 0x0C], [CHR 0x0D], [CHR 0x20],
      [CHR 0xC2, CHR 0x85], [CHR 0xC2, CHR 0xA0], [CHR 0xE1, CHR 0x9A, CHR 0x80],
      [CHR 0xE2, CHR 0x80, CHR 0x80], [CHR 0xE2, CHR 0x80, CHR 0x81], [CHR 0xE2, CHR 0x80, CHR 0x82],
      [CHR 0xE2, CHR 0x80, CHR 0x83], [CHR 0xE2, CHR 0x80, CHR 0x84], [CHR 0xE2, CHR 0x80, CHR 0x85],
      [CHR 0xE2, CHR 0x80, CHR 0x86], [CHR 0xE2, CHR 0x80, CHR 0x87], [CHR 0xE2, CHR 0x80, CHR 0x88],
      [CHR 0xE2, CHR 0x80, CHR 0x89], [CHR 0xE2, CHR 0x80, CHR 0x8A], [CHR 0xE2, CHR 0x80, CHR 0xA8],
      [CHR 0xE2, CHR 0x80, CHR 0xA9], [CHR 0xE2, CHR 0x80, CHR 0xAF], [CHR 0xE2, CHR 0x81, CHR 0x9F],
      [CHR 0xE3, CHR 0x80, CHR 0x80]]"

fun strip_rune :: "string list \<Rightarrow> string \<Rightarrow> string option" where
  "strip_rune [] s = None"
| "strip_rune (p # ps) s =
     (if p \<noteq> [] \<and> prefix p s then Some (drop (length p) s) else strip_rune ps s)"

lemma strip_rune_shorter: "strip_rune ps s = Some t \<Longrightarrow> length t < length s"
  by (induction ps) (auto split: if_splits simp: prefix_def)

function trim_with :: "string list \<Rightarrow> string \<Rightarrow> string" where
  "trim_with ps s = (case strip_rune ps s of None \<Rightarrow> s | Some t \<Rightarrow> trim_with ps t)"
  by pat_completeness auto
termination
  by (relation "measure (\<lambda>(ps, s). length s)") (auto dest: strip_rune_shorter)

declare trim_with.simps [simp del]

definition TrimLeftSpace :: "string \<Rightarrow> string" where
  "TrimLeftSpace = trim_with space_runes"

definition TrimSpace :: "string \<Rightarrow> string" where
  "TrimSpace s = rev (trim_with (map rev space_runes) (rev (TrimLeftSpace s)))"

function take_word :: "string \<Rightarrow> string \<times> string" where
  "take_word [] = ([], [])"
| "take_word (c # s) =
     (if strip_rune space_runes (c # s) \<noteq> None then ([], c # s)
      else (let (w, r) = take_word s in (c # w, r)))"
  by pat_completeness auto
termination by lexicographic_order

lemma take_word_append: "take_word s = (w, r) \<Longrightarrow> s = w @ r"
  by (induction s arbitrary: w r rule: take_word.induct) (auto split: if_splits prod.splits)

lemma trim_with_length: "length (trim_with ps s) \<le> length s"
proof (induction ps s rule: trim_with.induct)
  case (1 ps s)
  then show ?case
    by (subst trim_with.simps) (fastforce split: option.splits dest: strip_rune_shorter)
qed

lemma take_word_shrinks:
  assumes "take_word (TrimLeftSpace s) = (c # w, r)"
  shows "length r < length s"
proof -
  from assms have "TrimLeftSpace s = (c # w) @ r"
    by (rule take_word_append)
  then have "length r < length (TrimLeftSpace s)"
    by simp
  then show ?thesis
    using trim_with_length [of space_runes s] by (simp add: TrimLeftSpace_def)
qed

function Fields :: "string \<Rightarrow> string list" where
  "Fields s =
     (case take_word (TrimLeftSpace s) of
        ([], _) \<Rightarrow> []
      | (c # w, r) \<Rightarrow> (c # w) # Fields r)"
  by pat_completeness auto
termination
  by (relation "measure length") (auto dest: sym intro: take_word_shrinks)

declare Fields.simps [simp del]

fun Join :: "string list \<Rightarrow> string \<Rightarrow> string" where
  "Join [] sep = []"
| "Join [s] sep = s"
| "Join (s # t # ss) sep = s @ sep @ Join (t # ss) sep"

fun Split1 :: "char \<Rightarrow> string \<Rightarrow> string list" where
  "Split1 d [] = [[]]"
| "Split1 d (c # s) =
     (if c = d then [] # Split1 d s
      else (case Split1 d s of [] \<Rightarrow> [[c]] | w # ws \<Rightarrow> (c # w) # ws))"

subsection \<open>Trimming\<close>

definition starts_with_space :: "string list \<Rightarrow> string \<Rightarrow> bool" where
  "starts_with_space ps s \<longleftrightarrow> (\<exists>p \<in> set ps. p \<noteq> [] \<and> prefix p s)"

lemma strip_rune_None: "strip_rune ps s = None \<longleftrightarrow> \<not> starts_with_space ps s"
  by (induction ps) (auto simp: starts_with_space_def)

lemma trim_with_no_space: "\<not> starts_with_space ps s \<Longrightarrow> trim_with ps s = s"
  by (subst trim_with.simps) (simp add: strip_rune_None [symmetric])

lemma trim_with_result: "\<not> starts_with_space ps (trim_with ps s)"
proof (induction ps s rule: trim_with.induct)
  case (1 ps s)
  show ?case
  proof (cases "strip_rune ps s")
    case None
    then show ?thesis
      by (simp add: trim_with.simps [of ps s] strip_rune_None [symmetric])
  next
    case (Some t)
    with 1 show ?thesis
      by (simp add: trim_with.simps [of ps s])
  qed
qed

lemma strip_rune_suffix: "strip_rune ps s = Some t \<Longrightarrow> suffix t s"
  by (induction ps) (auto split: if_splits simp: suffix_drop)

lemma trim_with_suffix: "suffix (trim_with ps s) s"
proof (induction ps s rule: trim_with.induct)
  case (1 ps s)
  then show ?case
    by (subst trim_with.simps)
      (auto split: option.splits dest: strip_rune_suffix intro: suffix_order.trans)
qed

lemma starts_with_space_prefix:
  "prefix s t \<Longrightarrow> starts_with_space ps s \<Longrightarrow> starts_with_space ps t"
  by (auto simp: starts_with_space_def intro: prefix_order.trans)

definition trimmed :: "string \<Rightarrow> bool" where
  "trimmed s \<longleftrightarrow> \<not> starts_with_space space_runes s \<and> \<not> starts_with_space (map rev space_runes) (rev s)"

lemma trimmed_TrimSpace [simp]: "trimmed (TrimSpace s)"
proof -
  let ?l = "TrimLeftSpace s"
  have "suffix (rev (TrimSpace s)) (rev ?l)"
    by (simp add: TrimSpace_def trim_with_suffix)
  then have "prefix (TrimSpace s) ?l"
    by (simp add: suffix_to_prefix)
  moreover have "\<not> starts_with_space space_runes ?l"
    by (simp add: TrimLeftSpace_def trim_with_result)
  ultimately have "\<not> starts_with_space space_runes (TrimSpace s)"
    using starts_with_space_prefix by blast
  moreover have "\<not> starts_with_space (map rev space_runes) (rev (TrimSpace s))"
    by (simp add: TrimSpace_def trim_with_result)
  ultimately show ?thesis by (simp add: trimmed_def)
qed

lemma TrimSpace_trimmed: "trimmed s \<Longrightarrow> TrimSpace s = s"
  by (simp add: trimmed_def TrimSpace_def TrimLeftSpace_def trim_with_no_space)

lemma TrimSpace_idem [simp]: "TrimSpace (TrimSpace s) = TrimSpace s"
  by (simp add: TrimSpace_trimmed)

lemma TrimSpace_Nil [simp]: "TrimSpace [] = []"
  by (simp add: TrimSpace_trimmed trimmed_def starts_with_space_def)

lemma trimmed_Nil [simp]: "trimmed []"
  by (metis TrimSpace_Nil trimmed_TrimSpace)


subsection \<open>Fields\<close>

definition spacefree :: "string \<Rightarrow> bool" where
  "spacefree w \<longleftrightarrow> (\<forall>v. suffix v w \<longrightarrow> \<not> starts_with_space space_runes v)"

lemma spacefree_Nil [simp]: "spacefree []"
  by (simp add: spacefree_def starts_with_space_def)

lemma spacefree_Cons: "spacefree (c # w) \<longleftrightarrow> \<not> starts_with_space space_runes (c # w) \<and> spacefree w"
  by (auto simp: spacefree_def suffix_Cons)

lemma starts_with_space_append:
  "starts_with_space ps v \<Longrightarrow> starts_with_space ps (v @ r)"
  by (auto intro: starts_with_space_prefix [of v])

lemma take_word_spacefree: "take_word s = (w, r) \<Longrightarrow> spacefree w"
proof (induction s arbitrary: w r rule: take_word.induct)
  case (2 c s)
  show ?case
  proof (cases "strip_rune space_runes (c # s)")
    case None
    with 2(2) obtain w' where w: "w = c # w'" "take_word s = (w', r)"
      by (auto split: prod.splits)
    then have "s = w' @ r" by (simp add: take_word_append)
    with None have "\<not> starts_with_space space_runes (c # w')"
      using starts_with_space_append [of space_runes "c # w'" r] by (auto simp: strip_rune_None)
    with 2(1) None w show ?thesis by (simp add: spacefree_Cons)
  next
    case Some
    with 2(2) show ?thesis by simp
  qed
qed simp

lemma Fields_words: "w \<in> set (Fields s) \<Longrightarrow> w \<noteq> [] \<and> spacefree w"
proof (induction s rule: Fields.induct)
  case (1 s)
  obtain v r where vr: "take_word (TrimLeftSpace s) = (v, r)" by fastforce
  show ?case
  proof (cases v)
    case Nil
    with 1(2) vr show ?thesis by (simp add: Fields.simps [of s])
  next
    case (Cons c u)
    with 1(2) vr have "w = c # u \<or> w \<in> set (Fields r)"
      by (auto simp: Fields.simps [of s])
    with 1(1) vr Cons show ?thesis
      by (metis list.discI take_word_spacefree)
  qed
qed

lemma space_runes_blank: "p \<in> set space_runes \<Longrightarrow> CHR 0x20 \<in> set p \<Longrightarrow> p = [CHR 0x20]"
  by (auto simp: space_runes_def)

lemma blank_starts: "starts_with_space space_runes (CHR 0x20 # r)"
  by (auto simp: starts_with_space_def space_runes_def)

lemma spacefree_before_blank:
  assumes "\<not> starts_with_space space_runes v" and "v \<noteq> []"
  shows "\<not> starts_with_space space_runes (v @ CHR 0x20 # r)"
proof
  assume "starts_with_space space_runes (v @ CHR 0x20 # r)"
  then obtain p where p: "p \<in> set space_runes" "p \<noteq> []" "prefix p (v @ CHR 0x20 # r)"
    by (auto simp: starts_with_space_def)
  from p(3) have "prefix p v \<or> (\<exists>q. p = v @ CHR 0x20 # q)"
    by (auto simp: prefix_append prefix_Cons)
  with assms(1) p(1,2) obtain q where q: "p = v @ CHR 0x20 # q"
    by (auto simp: starts_with_space_def)
  with p(1) have "p = [CHR 0x20]"
    by (auto intro: space_runes_blank)
  with q assms(2) show False by (cases v) auto
qed

lemma take_word_word:
  "spacefree w \<Longrightarrow> take_word (w @ CHR 0x20 # r) = (w, CHR 0x20 # r)"
proof (induction w)
  case Nil
  then show ?case using blank_starts [of r] by (auto simp: strip_rune_None)
next
  case (Cons c w)
  then have "\<not> starts_with_space space_runes ((c # w) @ CHR 0x20 # r)"
    by (intro spacefree_before_blank) (simp_all add: spacefree_Cons)
  with Cons show ?case by (auto simp: strip_rune_None spacefree_Cons)
qed

lemma take_word_last: "spacefree w \<Longrightarrow> take_word w = (w, [])"
  by (induction w) (auto simp: strip_rune_None spacefree_Cons)

lemma TrimLeftSpace_blank: "TrimLeftSpace (CHR 0x20 # r) = TrimLeftSpace r"
proof -
  have "strip_rune space_runes (CHR 0x20 # r) = Some r"
    by (simp add: space_runes_def)
  then show ?thesis
    by (simp add: TrimLeftSpace_def trim_with.simps [of space_runes "CHR 0x20 # r"])
qed

lemma Fields_cong: "TrimLeftSpace s = TrimLeftSpace t \<Longrightarrow> Fields s = Fields t"
  by (simp add: Fields.simps [of s] Fields.simps [of t])

lemma Fields_Nil [simp]: "Fields [] = []"
  by (simp add: Fields.simps TrimLeftSpace_def trim_with_no_space starts_with_space_def)

lemma Fields_Join:
  "(\<And>w. w \<in> set ws \<Longrightarrow> w \<noteq> [] \<and> spacefree w) \<Longrightarrow> Fields (Join ws [CHR 0x20]) = ws"
proof (induction ws "[CHR 0x20]" rule: Join.induct)
  case 1
  then show ?case by simp
next
  case (2 w)
  then have "w \<noteq> []" "spacefree w" by auto
  then have "TrimLeftSpace w = w" "take_word w = (w, [])"
    by (auto simp: TrimLeftSpace_def spacefree_def trim_with_no_space take_word_last)
  with \<open>w \<noteq> []\<close> show ?case
    by (auto simp: Fields.simps [of w] split: list.splits)
next
  case (3 w u ws)
  let ?r = "Join (u # ws) [CHR 0x20]"
  from 3(2) have w: "w \<noteq> []" "spacefree w" by auto
  then have "\<not> starts_with_space space_runes (w @ CHR 0x20 # ?r)"
    by (intro spacefree_before_blank) (auto simp: spacefree_def)
  then have "TrimLeftSpace (w @ CHR 0x20 # ?r) = w @ CHR 0x20 # ?r"
    by (simp add: TrimLeftSpace_def trim_with_no_space)
  then have "Fields (w @ CHR 0x20 # ?r) = w # Fields (CHR 0x20 # ?r)"
    using w by (auto simp: Fields.simps [of "w @ CHR 0x20 # ?r"] take_word_word split: list.splits)
  also have "Fields (CHR 0x20 # ?r) = Fields ?r"
    by (rule Fields_cong) (rule TrimLeftSpace_blank)
  also have "\<dots> = u # ws"
    using 3 by auto
  finally show ?case by simp
qed

lemma Join_Fields_idem [simp]:
  "Join (Fields (Join (Fields s) [CHR 0x20])) [CHR 0x20] = Join (Fields s) [CHR 0x20]"
  by (simp add: Fields_Join Fields_words)

subsection \<open>Decimal numbers\<close>

definition is_digit :: "char \<Rightarrow> bool" where
  "is_digit c \<longleftrightarrow> 48 \<le> (of_char c :: nat) \<and> (of_char c :: nat) \<le> 57"

fun FormatNat :: "nat \<Rightarrow> string" where
  "FormatNat n =
     (if n < 10 then [char_of (48 + n)] else FormatNat (n div 10) @ [char_of (48 + n mod 10)])"

declare FormatNat.simps [simp del]

definition parse_digits :: "string \<Rightarrow> nat" where
  "parse_digits s = foldl (\<lambda>a c. a * 10 + (of_char c - 48)) 0 s"

definition ParseInt64 :: "string \<Rightarrow> int option" where
  "ParseInt64 s =
     (if s = [] \<or> \<not> list_all is_digit s then None
      else let n = int (parse_digits s) in if n \<le> max_int64 then Some n else None)"

definition ParseUint16 :: "string \<Rightarrow> nat option" where
  "ParseUint16 s =
     (if s = [] \<or> \<not> list_all is_digit s then None
      else let n = parse_digits s in if n \<le> 65535 then Some n else None)"

lemma is_digit_char_of [simp]: "n < 10 \<Longrightarrow> is_digit (char_of (48 + n :: nat))"
  by (simp add: is_digit_def)

lemma FormatNat_nonempty [simp]: "FormatNat n \<noteq> []"
  by (subst FormatNat.simps) simp

lemma FormatNat_digits: "list_all is_digit (FormatNat n)"
proof (induction n rule: FormatNat.induct)
  case (1 n)
  then show ?case by (subst FormatNat.simps) auto
qed

lemma parse_digits_FormatNat [simp]: "parse_digits (FormatNat n) = n"
proof (induction n rule: FormatNat.induct)
  case (1 n)
  then show ?case
    by (subst FormatNat.simps) (auto simp: parse_digits_def)
qed

lemma ParseInt64_FormatNat: "int n \<le> max_int64 \<Longrightarrow> ParseInt64 (FormatNat n) = Some (int n)"
  by (simp add: ParseInt64_def FormatNat_digits)

lemma ParseUint16_FormatNat: "n \<le> 65535 \<Longrightarrow> ParseUint16 (FormatNat n) = Some n"
  by (simp add: ParseUint16_def FormatNat_digits)

lemma ParseUint16_bound: "ParseUint16 s = Some n \<Longrightarrow> n \<le> 65535"
  by (auto simp: ParseUint16_def Let_def split: if_splits)

subsection \<open>ASCII case\<close>

definition lower_char :: "char \<Rightarrow> char" where
  "lower_char c = (let n = of_char c :: nat in if 65 \<le> n \<and> n \<le> 90 then char_of (n + 32) else c)"

definition upper_char :: "char \<Rightarrow> char" where
  "upper_char c = (let n = of_char c :: nat in if 97 \<le> n \<and> n \<le> 122 then char_of (n - 32) else c)"

definition ToLower :: "string \<Rightarrow> string" where
  "ToLower = map lower_char"

definition ToUpper :: "string \<Rightarrow> string" where
  "ToUpper = map upper_char"

lemma lower_char_idem [simp]: "lower_char (lower_char c) = lower_char c"
  by (auto simp: lower_char_def Let_def)

lemma ToLower_idem [simp]: "ToLower (ToLower s) = ToLower s"
  by (simp add: ToLower_def comp_def)

lemma ToLower_append [simp]: "ToLower (s @ t) = ToLower s @ ToLower t"
  by (simp add: ToLower_def)

lemma length_ToLower [simp]: "length (ToLower s) = length s"
  by (simp add: ToLower_def)


subsection \<open>Printable strings\<close>

text \<open>A printable ASCII byte neither starts nor ends the encoding of a white-space rune.\<close>

definition printable :: "char \<Rightarrow> bool" where
  "printable c \<longleftrightarrow> 33 \<le> (of_char c :: nat) \<and> (of_char c :: nat) \<le> 126"

lemma printable_not_space: "printable c \<Longrightarrow> \<not> starts_with_space space_runes (c # s)"
  by (auto simp: printable_def starts_with_space_def space_runes_def)

lemma printable_not_space_end: "printable c \<Longrightarrow> \<not> starts_with_space (map rev space_runes) (c # s)"
  by (auto simp: printable_def starts_with_space_def space_runes_def)

lemma trimmed_printable:
  assumes "s \<noteq> []" "printable (hd s)" "printable (last s)"
  shows "trimmed s"
proof -
  from assms have "\<not> starts_with_space space_runes s"
    by (cases s) (auto simp: printable_not_space)
  moreover from assms have "\<not> starts_with_space (map rev space_runes) (rev s)"
    by (cases s rule: rev_cases) (auto simp: printable_not_space_end)
  ultimately show ?thesis by (simp add: trimmed_def)
qed

lemma digit_printable: "is_digit c \<Longrightarrow> printable c"
  by (simp add: is_digit_def printable_def)

lemma lower_digit [simp]: "is_digit c \<Longrightarrow> lower_char c = c"
  by (auto simp: is_digit_def lower_char_def)

lemma ToLower_digits: "list_all is_digit s \<Longrightarrow> ToLower s = s"
  by (induction s) (auto simp: ToLower_def)

lemma takeWhile_digits: "list_all is_digit s \<Longrightarrow> \<not> is_digit c \<Longrightarrow> takeWhile is_digit (s @ c # r) = s"
  by (induction s) auto

lemma dropWhile_digits: "list_all is_digit s \<Longrightarrow> \<not> is_digit c \<Longrightarrow> dropWhile is_digit (s @ c # r) = c # r"
  by (induction s) auto


subsection \<open>Words joined by blanks\<close>

lemma Fields_TrimLeftSpace: "Fields (TrimLeftSpace s) = Fields s"
  by (rule Fields_cong) (simp add: TrimLeftSpace_def trim_with_no_space trim_with_result)


lemma trim_with_Nil_suffix:
  "trim_with ps r = [] \<Longrightarrow> r \<noteq> [] \<Longrightarrow> \<exists>p \<in> set ps. p \<noteq> [] \<and> suffix p r"
proof (induction ps r rule: trim_with.induct)
  case (1 ps r)
  from "1.prems" obtain t where t: "strip_rune ps r = Some t" "trim_with ps t = []"
    by (auto simp: trim_with.simps [of ps r] split: option.splits)
  show ?case
  proof (cases "t = []")
    case True
    have "strip_rune qs r = Some [] \<Longrightarrow> \<exists>p \<in> set qs. p \<noteq> [] \<and> p = r" for qs
      by (induction qs) (auto split: if_splits simp: prefix_def)
    with t(1) True show ?thesis by blast
  next
    case False
    with "1.IH" [OF t] obtain p where "p \<in> set ps" "p \<noteq> []" "suffix p t" by blast
    with strip_rune_suffix [OF t(1)] show ?thesis
      by (meson suffix_order.trans)
  qed
qed

lemma trimmed_no_suffix: "trimmed s \<Longrightarrow> p \<in> set space_runes \<Longrightarrow> p \<noteq> [] \<Longrightarrow> \<not> suffix p s"
  by (auto simp: trimmed_def starts_with_space_def suffix_to_prefix)

lemma take_word_empty: "\<not> starts_with_space space_runes v \<Longrightarrow> take_word v = ([], q) \<Longrightarrow> v = []"
  by (cases v) (auto simp: strip_rune_None split: if_splits prod.splits)

lemma Fields_singleton:
  assumes "trimmed s" "Fields s = [w]"
  shows "s = w"
proof -
  from assms(1) have left: "TrimLeftSpace s = s"
    by (simp add: TrimLeftSpace_def trimmed_def trim_with_no_space)
  with assms(2) obtain c u r where t: "take_word s = (c # u, r)" "w = c # u" "Fields r = []"
    by (auto simp: Fields.simps [of s] split: prod.splits list.splits)
  then have s: "s = w @ r" by (auto dest: take_word_append)
  from t(3) obtain q where "take_word (TrimLeftSpace r) = ([], q)"
    by (auto simp: Fields.simps [of r] split: prod.splits list.splits)
  then have "TrimLeftSpace r = []"
    by (rule take_word_empty [rotated]) (simp add: TrimLeftSpace_def trim_with_result)
  then have "r = []"
    using trim_with_Nil_suffix [of space_runes r] trimmed_no_suffix [OF assms(1)] s
    by (auto simp: TrimLeftSpace_def suffix_append)
  with s show ?thesis by simp
qed

lemma Fields_empty:
  assumes "trimmed s" "Fields s = []"
  shows "s = []"
proof -
  from assms(1) have left: "TrimLeftSpace s = s" "\<not> starts_with_space space_runes s"
    by (simp_all add: TrimLeftSpace_def trimmed_def trim_with_no_space)
  with assms(2) obtain q where "take_word s = ([], q)"
    by (auto simp: Fields.simps [of s] split: prod.splits list.splits)
  with left(2) show ?thesis by (rule take_word_empty)
qed

lemma Join_blankfree:
  "CHR '' '' \<notin> set (Join ws '' '') \<Longrightarrow> ws = [] \<or> (\<exists>w. ws = [w])"
  by (induction ws "'' ''" rule: Join.induct) auto

lemma joined_blankfree:
  assumes "trimmed s" "CHR '' '' \<notin> set (Join (Fields s) '' '')"
  shows "Join (Fields s) '' '' = s"
  using Join_blankfree [OF assms(2)] Fields_empty [OF assms(1)] Fields_singleton [OF assms(1)] by auto

lemma spacefree_trimmed: "spacefree w \<Longrightarrow> trimmed w"
proof -
  assume sf: "spacefree w"
  then have "\<not> starts_with_space space_runes w" by (simp add: spacefree_def)
  moreover have "\<not> starts_with_space (map rev space_runes) (rev w)"
  proof
    assume "starts_with_space (map rev space_runes) (rev w)"
    then obtain p where p: "p \<in> set space_runes" "p \<noteq> []" "suffix p w"
      by (auto simp: starts_with_space_def suffix_to_prefix)
    then have "starts_with_space space_runes p" by (auto simp: starts_with_space_def)
    with p sf show False by (simp add: spacefree_def)
  qed
  ultimately show ?thesis by (simp add: trimmed_def)
qed

lemma trimmed_blank_join:
  assumes "spacefree w" "w \<noteq> []" "trimmed j" "j \<noteq> []"
  shows "trimmed (w @ CHR '' '' # j)"
proof -
  have "\<not> starts_with_space space_runes (w @ CHR '' '' # j)"
    using assms by (intro spacefree_before_blank) (auto simp: spacefree_def)
  moreover have "\<not> starts_with_space (map rev space_runes) (rev (w @ CHR '' '' # j))"
  proof
    assume "starts_with_space (map rev space_runes) (rev (w @ CHR '' '' # j))"
    then obtain p where p: "p \<in> set space_runes" "p \<noteq> []" "suffix p (w @ CHR '' '' # j)"
      by (auto simp: starts_with_space_def suffix_to_prefix)
    from p(3) have "suffix p j \<or> (\<exists>q. p = q @ CHR '' '' # j)"
      by (auto simp: suffix_append suffix_Cons)
    with trimmed_no_suffix [OF assms(3) p(1,2)] obtain q where "p = q @ CHR '' '' # j" by blast
    with space_runes_blank [OF p(1)] assms(4) show False by (cases q) auto
  qed
  ultimately show ?thesis by (simp add: trimmed_def)
qed

lemma Join_words_trimmed:
  "(\<And>w. w \<in> set ws \<Longrightarrow> w \<noteq> [] \<and> spacefree w) \<Longrightarrow> trimmed (Join ws '' '') \<and> (ws \<noteq> [] \<longrightarrow> Join ws '' '' \<noteq> [])"
proof (induction ws "'' ''" rule: Join.induct)
  case (3 w u ws)
  then have "trimmed (Join (u # ws) '' '')" "Join (u # ws) '' '' \<noteq> []" by auto
  with 3(2) [of w] show ?case by (simp add: trimmed_blank_join)
qed (auto simp: spacefree_trimmed)

lemma trimmed_joined [simp]: "trimmed (Join (Fields s) '' '')"
  using Join_words_trimmed [of "Fields s"] Fields_words by blast

lemma FormatNat_trimmed: "trimmed (FormatNat n)"
proof (rule trimmed_printable)
  have "hd (FormatNat n) \<in> set (FormatNat n)" "last (FormatNat n) \<in> set (FormatNat n)" by simp_all
  then show "printable (hd (FormatNat n))" "printable (last (FormatNat n))"
    using FormatNat_digits [of n] by (auto simp: list_all_iff digit_printable)
qed simp

lemma digits_blankfree: "list_all is_digit s \<Longrightarrow> CHR '' '' \<notin> set s"
  by (auto simp: list_all_iff is_digit_def)

lemma ParseUint16_blankfree: "ParseUint16 s = Some n \<Longrightarrow> CHR '' '' \<notin> set s"
  by (auto simp: ParseUint16_def digits_blankfree split: if_splits)

lemma lower_char_eq:
  "\<not> (97 \<le> (of_char c :: nat) \<and> (of_char c :: nat) \<le> 122) \<Longrightarrow> \<not> (65 \<le> (of_char c :: nat) \<and> (of_char c :: nat) \<le> 90)
   \<Longrightarrow> lower_char d = c \<longleftrightarrow> d = c"
  by (auto simp: lower_char_def Let_def)

lemma space_runes_lower: "p \<in> set space_runes \<Longrightarrow> c \<in> set p \<Longrightarrow> lower_char d = c \<longleftrightarrow> d = c"
  by (rule lower_char_eq) (auto simp: space_runes_def)

lemma prefix_lower:
  assumes "\<And>c d. c \<in> set p \<Longrightarrow> lower_char d = c \<longleftrightarrow> d = c"
  shows "prefix p (map lower_char s) \<longleftrightarrow> prefix p s"
  using assms
proof (induction p arbitrary: s)
  case (Cons c p)
  then show ?case by (cases s) (auto simp: eq_commute [of c])
qed simp

lemma trimmed_ToLower: "trimmed (ToLower s) \<longleftrightarrow> trimmed s"
proof -
  have "prefix p (map lower_char t) = prefix p t" "prefix (rev p) (map lower_char t) = prefix (rev p) t"
    if "p \<in> set space_runes" for p t
    using prefix_lower [of p t] prefix_lower [of "rev p" t] space_runes_lower [OF that] by simp_all
  then show ?thesis by (auto simp: trimmed_def starts_with_space_def ToLower_def rev_map)
qed

end
