(* ===== verification/TC_Duration.thy ===== *)
theory TC_Duration
  imports Go_Strings
begin

section \<open>Traffic control: durations of the configuration\<close>

text \<open>
  The duration syntax of \<^verbatim>\<open>component/trafficcontrol/model.go\<close>: a sequence of terms such as
  \<^verbatim>\<open>1d12h\<close>, with the units minute, hour, day and week. A \<^verbatim>\<open>time.Duration\<close> is an
  \<^verbatim>\<open>int64\<close> number of nanoseconds. The parser checks for overflow before it multiplies and adds,
  so the sums below are computed on integers; \<open>parse_duration_bounds\<close> shows that they stay
  in the range of the machine type.
\<close>

subsection \<open>Errors\<close>

datatype tc_err =
    DurationEmpty
  | InvalidDuration
  | InvalidDurationUnit
  | DurationOverflows
  | ResolverRequired
  | StorePathError
  | CheckpointRange
  | MaxStoreSizeRange
  | ReportRetentionInvalid string
  | PolicyCountExceeded
  | RatesNegative
  | QuotaNegative
  | QuotaWindowRange
  | QuotaWindowWithoutLimit
  | PolicyIDInvalid string
  | PolicyIDDuplicated string
  | InvalidMAC
  | SourceCIDRInvalid string
  | MACMatchingUnavailable string
  | SourceCIDRsRequired string
  | RuleRequiresTypeAndTarget
  | TargetKindInvalid
  | TargetRequired

subsection \<open>Units\<close>

definition Minute :: int where "Minute = 60000000000"
definition Hour :: int where "Hour = 3600000000000"
definition Second :: int where "Second = 1000000000"

lemmas time_units = Minute_def Hour_def Second_def

definition duration_unit :: "string \<Rightarrow> int option" where
  "duration_unit unit =
     (if unit = ''m'' then Some Minute
      else if unit = ''h'' then Some Hour
      else if unit = ''d'' then Some (24 * Hour)
      else if unit = ''w'' then Some (7 * 24 * Hour)
      else None)"

subsection \<open>Parsing\<close>

lemma dropWhile_shrinks: "takeWhile P xs \<noteq> [] \<Longrightarrow> length (dropWhile Q (dropWhile P xs)) < length xs"
proof -
  assume ne: "takeWhile P xs \<noteq> []"
  have "length xs = length (takeWhile P xs) + length (dropWhile P xs)"
    by (metis length_append takeWhile_dropWhile_id)
  with ne have "length (dropWhile P xs) < length xs" by simp
  with length_dropWhile_le [of Q "dropWhile P xs"] show ?thesis by simp
qed

function parse_terms :: "int \<Rightarrow> string \<Rightarrow> tc_err + int" where
  "parse_terms acc value =
     (if value = [] then Inr acc
      else
        let digits = takeWhile is_digit value; rest = dropWhile is_digit value in
        if digits = [] \<or> rest = [] then Inl InvalidDuration
        else (case ParseInt64 digits of
            None \<Rightarrow> Inl InvalidDuration
          | Some n \<Rightarrow>
              if n \<le> 0 then Inl InvalidDuration
              else (case duration_unit (takeWhile (\<lambda>c. \<not> is_digit c) rest) of
                  None \<Rightarrow> Inl InvalidDurationUnit
                | Some multiplier \<Rightarrow>
                    if n > max_int64 sdiv multiplier then Inl DurationOverflows
                    else if acc > max_int64 - n * multiplier then Inl DurationOverflows
                    else parse_terms (acc + n * multiplier)
                           (dropWhile (\<lambda>c. \<not> is_digit c) rest))))"
  by pat_completeness auto
termination
  by (relation "measure (\<lambda>(t, v). length v)") (auto intro: dropWhile_shrinks)

declare parse_terms.simps [simp del]

lemma parse_terms_Nil [simp]: "parse_terms acc [] = Inr acc"
  by (simp add: parse_terms.simps)

definition parseFlexibleDuration :: "string \<Rightarrow> tc_err + int" where
  "parseFlexibleDuration value =
     (let v = TrimSpace (ToLower value) in
      if v = [] then Inl DurationEmpty else parse_terms 0 v)"

definition parseOptionalDuration :: "string \<Rightarrow> int \<Rightarrow> tc_err + int" where
  "parseOptionalDuration value fallback =
     (if TrimSpace value = [] then Inr fallback else parseFlexibleDuration value)"

definition formatFlexibleDuration :: "int \<Rightarrow> string" where
  "formatFlexibleDuration d =
     (if d \<le> 0 then []
      else if d smod (24 * Hour) = 0 then FormatNat (nat (d sdiv (24 * Hour))) @ ''d''
      else if d smod Hour = 0 then FormatNat (nat (d sdiv Hour)) @ ''h''
      else if d smod Minute = 0 then FormatNat (nat (d sdiv Minute)) @ ''m''
      else
        let minutes = d sdiv Minute;
            minutes = (if d smod Minute \<noteq> 0 then minutes + 1 else minutes);
            minutes = (if minutes < 1 then 1 else minutes)
        in FormatNat (nat minutes) @ ''m'')"


subsection \<open>The parser stays in range and its output is positive\<close>

lemma duration_unit_pos: "duration_unit u = Some m \<Longrightarrow> 0 < m"
  by (auto simp: duration_unit_def time_units split: if_splits)

lemma parse_terms_step:
  assumes "parse_terms acc v = Inr d" "v \<noteq> []"
  obtains n m where "takeWhile is_digit v \<noteq> []"
    "duration_unit (takeWhile (\<lambda>c. \<not> is_digit c) (dropWhile is_digit v)) = Some m"
    "0 < n" "0 < m" "acc + n * m \<le> max_int64"
    "parse_terms (acc + n * m) (dropWhile (\<lambda>c. \<not> is_digit c) (dropWhile is_digit v)) = Inr d"
proof -
  let ?rest = "dropWhile is_digit v"
  from assms obtain n m where digits: "takeWhile is_digit v \<noteq> []" and n: "\<not> n \<le> 0"
    and m: "duration_unit (takeWhile (\<lambda>c. \<not> is_digit c) ?rest) = Some m"
    and ov: "\<not> acc > max_int64 - n * m"
    and p: "parse_terms (acc + n * m) (dropWhile (\<lambda>c. \<not> is_digit c) ?rest) = Inr d"
    by (simp add: parse_terms.simps [of acc v] Let_def split: if_splits option.splits)
  from ov have "acc + n * m \<le> max_int64" by linarith
  with that [OF digits m _ duration_unit_pos [OF m] _ p] n show thesis by simp
qed

lemma parse_terms_bounds:
  "parse_terms acc v = Inr d \<Longrightarrow> 0 \<le> acc \<Longrightarrow> acc \<le> max_int64 \<Longrightarrow> acc \<le> d \<and> d \<le> max_int64"
proof (induction "length v" arbitrary: acc v rule: less_induct)
  case less
  show ?case
  proof (cases "v = []")
    case True
    with less.prems show ?thesis by simp
  next
    case False
    from parse_terms_step [OF less.prems(1) False] obtain n m where
      nm: "takeWhile is_digit v \<noteq> []" "0 < n" "0 < m" "acc + n * m \<le> max_int64" and
      p: "parse_terms (acc + n * m) (dropWhile (\<lambda>c. \<not> is_digit c) (dropWhile is_digit v)) = Inr d"
      by metis
    from nm have "0 < n * m" by simp
    with nm(1,4) less.prems less.hyps [OF dropWhile_shrinks p] show ?thesis by linarith
  qed
qed

lemma parse_terms_grows:
  assumes "parse_terms acc v = Inr d" "v \<noteq> []" "0 \<le> acc"
  shows "acc < d"
proof -
  from parse_terms_step [OF assms(1,2)] obtain n m where
    nm: "0 < n" "0 < m" "acc + n * m \<le> max_int64" and
    p: "parse_terms (acc + n * m) (dropWhile (\<lambda>c. \<not> is_digit c) (dropWhile is_digit v)) = Inr d"
    by metis
  from nm have "0 < n * m" by simp
  with parse_terms_bounds [OF p] nm(3) assms(3) show ?thesis by linarith
qed

lemma duration_unit_minutes: "duration_unit u = Some m \<Longrightarrow> m mod Minute = 0"
  by (auto simp: duration_unit_def time_units split: if_splits)

lemma parse_terms_minutes: "parse_terms acc v = Inr d \<Longrightarrow> acc mod Minute = 0 \<Longrightarrow> d mod Minute = 0"
proof (induction "length v" arbitrary: acc v rule: less_induct)
  case less
  show ?case
  proof (cases "v = []")
    case True
    with less.prems show ?thesis by simp
  next
    case False
    from parse_terms_step [OF less.prems(1) False] obtain n m where
      nm: "takeWhile is_digit v \<noteq> []"
        "duration_unit (takeWhile (\<lambda>c. \<not> is_digit c) (dropWhile is_digit v)) = Some m" and
      p: "parse_terms (acc + n * m) (dropWhile (\<lambda>c. \<not> is_digit c) (dropWhile is_digit v)) = Inr d"
      by metis
    from nm(2) have "(acc + n * m) mod Minute = 0"
      using less.prems(2) by (auto simp: mod_eq_0_iff_dvd dest!: duration_unit_minutes)
    with less.hyps [OF dropWhile_shrinks p] nm(1) show ?thesis by simp
  qed
qed

lemma parse_duration_bounds:
  assumes "parseFlexibleDuration s = Inr d"
  shows "0 < d \<and> d \<le> max_int64 \<and> d mod Minute = 0"
proof -
  let ?v = "TrimSpace (ToLower s)"
  from assms have p: "?v \<noteq> []" "parse_terms 0 ?v = Inr d"
    by (auto simp: parseFlexibleDuration_def Let_def split: if_splits)
  show ?thesis
    using parse_terms_grows [OF p(2,1)] parse_terms_bounds [OF p(2)] parse_terms_minutes [OF p(2)]
    by simp
qed

subsection \<open>Printing and parsing back\<close>

lemma parse_terms_single:
  assumes "duration_unit [u] = Some m" "\<not> is_digit u" "0 < n" "n * m \<le> max_int64"
  shows "parse_terms 0 (FormatNat (nat n) @ [u]) = Inr (n * m)"
proof -
  have m: "0 < m" using assms(1) by (rule duration_unit_pos)
  then have "n * 1 \<le> n * m"
    using assms(3) by (intro mult_left_mono) auto
  with assms(4) have n: "n \<le> max_int64" by linarith
  from m assms(4) have "n * m div m \<le> max_int64 div m"
    by (intro zdiv_mono1)
  with m have d: "n \<le> max_int64 div m" by simp
  show ?thesis
    using assms m n d
    by (subst parse_terms.simps)
      (simp add: takeWhile_digits dropWhile_digits FormatNat_digits ParseInt64_FormatNat)
qed


lemma trimmed_number_unit:
  assumes "printable u"
  shows "trimmed (FormatNat n @ [u])"
proof (rule trimmed_printable)
  have "is_digit (hd (FormatNat n))"
    using FormatNat_digits [of n] by (cases "FormatNat n") auto
  then show "printable (hd (FormatNat n @ [u]))"
    by (simp add: digit_printable)
qed (use assms in auto)

lemma parse_number_unit:
  assumes "duration_unit [u] = Some m" "printable u" "\<not> is_digit u" "lower_char u = u"
    and "0 < n" "n * m \<le> max_int64"
  shows "parseFlexibleDuration (FormatNat (nat n) @ [u]) = Inr (n * m)"
proof -
  have low: "ToLower (FormatNat (nat n) @ [u]) = FormatNat (nat n) @ [u]"
    using assms(4) by (simp add: ToLower_digits FormatNat_digits) (simp add: ToLower_def)
  show ?thesis
    unfolding parseFlexibleDuration_def Let_def low
    using assms by (simp add: TrimSpace_trimmed trimmed_number_unit parse_terms_single)
qed

lemma unit_chars [simp]:
  "duration_unit ''d'' = Some (24 * Hour)" "duration_unit ''h'' = Some Hour"
  "duration_unit ''m'' = Some Minute"
  "printable CHR ''d''" "printable CHR ''h''" "printable CHR ''m''"
  "\<not> is_digit CHR ''d''" "\<not> is_digit CHR ''h''" "\<not> is_digit CHR ''m''"
  "lower_char CHR ''d'' = CHR ''d''" "lower_char CHR ''h'' = CHR ''h''" "lower_char CHR ''m'' = CHR ''m''"
  by (simp_all add: duration_unit_def printable_def is_digit_def lower_char_def)

text \<open>The value a duration is rounded up to by printing it in whole minutes.\<close>

definition ceil_minute :: "int \<Rightarrow> int" where
  "ceil_minute d = (d + Minute - 1) div Minute * Minute"

lemma Minute_pos [simp]: "0 < Minute"
  by (simp add: time_units)

lemma ceil_minute_exact: "d mod Minute = 0 \<Longrightarrow> ceil_minute d = d"
proof -
  assume "d mod Minute = 0"
  then have d: "d = d div Minute * Minute"
    by (simp add: mod_eq_0_iff_dvd)
  have "(d + Minute - 1) div Minute = d div Minute"
    by (rule int_div_pos_eq [of _ _ _ "Minute - 1"]) (use d in \<open>simp_all add: time_units\<close>)
  with d show ?thesis by (simp add: ceil_minute_def)
qed

lemma ceil_minute_bounds: "d \<le> ceil_minute d \<and> ceil_minute d < d + Minute"
  using less_div_mult_add [of Minute "d + Minute - 1"] div_mult_le_self [of Minute "d + Minute - 1"]
  by (simp add: ceil_minute_def)

lemma ceil_minute_inexact: "d mod Minute \<noteq> 0 \<Longrightarrow> ceil_minute d = (d div Minute + 1) * Minute"
proof -
  assume ne: "d mod Minute \<noteq> 0"
  have r: "0 \<le> d mod Minute" "d mod Minute < Minute" by simp_all
  have d: "d = Minute * (d div Minute) + d mod Minute" by simp
  have "(d + Minute - 1) div Minute = d div Minute + 1"
  proof (rule int_div_pos_eq)
    show "d + Minute - 1 = Minute * (d div Minute + 1) + (d mod Minute - 1)"
      using d by (simp add: algebra_simps)
  qed (use r ne in linarith)+
  then show ?thesis by (simp add: ceil_minute_def)
qed

lemma mod_Minute: "d mod Hour = 0 \<Longrightarrow> d mod Minute = 0" "d mod (24 * Hour) = 0 \<Longrightarrow> d mod Minute = 0"
proof -
  have "Minute dvd Hour" "Minute dvd 24 * Hour" by (simp_all add: time_units)
  then show "d mod Hour = 0 \<Longrightarrow> d mod Minute = 0" "d mod (24 * Hour) = 0 \<Longrightarrow> d mod Minute = 0"
    by (auto simp only: mod_eq_0_iff_dvd dest: dvd_trans)
qed

lemma parse_format_duration:
  assumes "0 < d" "ceil_minute d \<le> max_int64"
  shows "parseFlexibleDuration (formatFlexibleDuration d) = Inr (ceil_minute d)"
proof -
  have d: "d \<le> max_int64" using assms ceil_minute_bounds [of d] by linarith
  have div_pos: "d mod m = 0 \<Longrightarrow> 0 < m \<Longrightarrow> 0 < d div m" for m
    using assms(1) by (simp add: mod_eq_0_iff_dvd zdvd_imp_le pos_imp_zdiv_pos_iff)
  have undiv: "d mod m = 0 \<Longrightarrow> d div m * m = d" for m
    by (simp add: mod_eq_0_iff_dvd)
  consider (day) "d mod (24 * Hour) = 0" | (hour) "d mod (24 * Hour) \<noteq> 0" "d mod Hour = 0"
    | (minute) "d mod (24 * Hour) \<noteq> 0" "d mod Hour \<noteq> 0" "d mod Minute = 0"
    | (other) "d mod (24 * Hour) \<noteq> 0" "d mod Hour \<noteq> 0" "d mod Minute \<noteq> 0"
    by blast
  then show ?thesis
  proof cases
    case day
    then have "d mod Minute = 0" by (rule mod_Minute)
    then show ?thesis
      using day assms d parse_number_unit [of "CHR ''d''" "24 * Hour" "d div (24 * Hour)"]
      by (simp add: formatFlexibleDuration_def undiv div_pos ceil_minute_exact time_units)
  next
    case hour
    then have "d mod Minute = 0" by (auto intro: mod_Minute)
    then show ?thesis
      using hour assms d parse_number_unit [of "CHR ''h''" Hour "d div Hour"]
      by (simp add: formatFlexibleDuration_def undiv div_pos ceil_minute_exact time_units)
  next
    case minute
    then show ?thesis
      using assms d parse_number_unit [of "CHR ''m''" Minute "d div Minute"]
      by (simp add: formatFlexibleDuration_def undiv div_pos ceil_minute_exact time_units)
  next
    case other
    have "0 \<le> d div Minute" using assms(1) by (simp add: time_units)
    with other assms show ?thesis
      using parse_number_unit [of "CHR ''m''" Minute "d div Minute + 1"]
      by (simp add: formatFlexibleDuration_def ceil_minute_inexact time_units)
  qed
qed

subsection \<open>Properties\<close>

text \<open>
  A duration that is printed by the GET side of the policy API is read back by the PUT side as
  the same duration rounded up to a whole minute, and exactly as itself when it is a whole number of
  minutes: the printer never emits a term the parser refuses, and rounding never shortens it.
\<close>

theorem duration_roundtrip:
  assumes "0 < d" "ceil_minute d \<le> max_int64"
  shows "parseFlexibleDuration (formatFlexibleDuration d) = Inr (ceil_minute d)
    \<and> d \<le> ceil_minute d \<and> ceil_minute d < d + Minute
    \<and> (d mod Minute = 0 \<longrightarrow> parseFlexibleDuration (formatFlexibleDuration d) = Inr d)"
  using parse_format_duration [OF assms] ceil_minute_bounds [of d] ceil_minute_exact [of d] by auto

theorem duration_roundtrip_witness:
  "0 < (90061000000000 :: int) \<and> ceil_minute 90061000000000 \<le> max_int64
   \<and> parseFlexibleDuration (formatFlexibleDuration 90061000000000) = Inr 90120000000000"
proof -
  have h: "0 < (90061000000000 :: int)" "ceil_minute 90061000000000 \<le> max_int64"
    by (simp_all add: ceil_minute_def time_units)
  from duration_roundtrip [OF h] h show ?thesis
    by (simp add: ceil_minute_def time_units)
qed

end
