(* ===== verification/TC_Model.thy ===== *)
theory TC_Model
  imports TC_Duration
begin

section \<open>Traffic control: the configuration and its document form\<close>

text \<open>
  The data of \<^verbatim>\<open>component/trafficcontrol/model.go\<close>: the raw document that YAML and the policy API
  carry, the parsed configuration, \<^verbatim>\<open>ParseConfig\<close> between them with every check it makes, and
  \<^verbatim>\<open>Config.Raw\<close>, which prints a configuration back. The digest, the case conversion of arbitrary
  Unicode text, the prefix syntax of \<^verbatim>\<open>net/netip\<close> and path cleaning are fields of the record
  \<open>tc_lib\<close>; \<open>tc_lib_ok\<close> collects what the code relies on.
\<close>

subsection \<open>Addresses and prefixes\<close>

datatype addr = InvalidAddr | V4 "32 word" | V6 "128 word" string

record nprefix =
  pf_Addr :: addr
  pf_Bits :: nat

definition mask_word :: "nat \<Rightarrow> nat \<Rightarrow> 'a::len word \<Rightarrow> 'a word" where
  "mask_word width bits w = push_bit (width - bits) (drop_bit (width - bits) w)"

fun mask_addr :: "nat \<Rightarrow> addr \<Rightarrow> addr" where
  "mask_addr bits InvalidAddr = InvalidAddr"
| "mask_addr bits (V4 w) = V4 (mask_word 32 bits w)"
| "mask_addr bits (V6 w zone) = V6 (mask_word 128 bits w) []"

definition Masked :: "nprefix \<Rightarrow> nprefix" where
  "Masked p = p\<lparr>pf_Addr := mask_addr (pf_Bits p) (pf_Addr p)\<rparr>"

fun prefix_contains :: "nprefix \<Rightarrow> addr \<Rightarrow> bool" where
  "prefix_contains p a =
     (case (pf_Addr p, a) of
        (V4 w, V4 v) \<Rightarrow> mask_word 32 (pf_Bits p) w = mask_word 32 (pf_Bits p) v
      | (V6 w _, V6 v zone) \<Rightarrow>
          zone = [] \<and> mask_word 128 (pf_Bits p) w = mask_word 128 (pf_Bits p) v
      | _ \<Rightarrow> False)"

text \<open>\<^verbatim>\<open>Unmap\<close> turns an IPv4-mapped IPv6 address into the IPv4 address it carries.\<close>

fun Unmap :: "addr \<Rightarrow> addr" where
  "Unmap (V6 w zone) = (if drop_bit 32 w = 65535 then V4 (ucast w) else V6 w zone)"
| "Unmap a = a"

subsection \<open>The raw document\<close>

record RawQuotaConfig =
  rq_TotalBytes :: int
  rq_UploadBytes :: int
  rq_DownloadBytes :: int
  rq_Window :: string
  rq_OverageUploadBPS :: int
  rq_OverageDownloadBPS :: int
  rq_Portal :: "bool option"

record RawPolicy =
  rp_ID :: string
  rp_Name :: string
  rp_Enabled :: "bool option"
  rp_UploadBPS :: int
  rp_DownloadBPS :: int
  rp_Quota :: RawQuotaConfig

record RawDevicePolicy =
  rd_Policy :: RawPolicy
  rd_MAC :: string
  rd_SourceCIDRs :: "string list"

record RawRulePolicy =
  rr_Policy :: RawPolicy
  rr_Type :: string
  rr_Payload :: string
  rr_Target :: string

record RawTargetPolicy =
  rt_Policy :: RawPolicy
  rt_Kind :: string
  rt_Target :: string

record RawReportsConfig =
  rs_Enabled :: "bool option"
  rs_HourlyRetention :: string
  rs_DailyRetention :: string
  rs_MonthlyRetention :: string
  rs_OrphanRetention :: string

record PortalConfig =
  pc_Listen :: string
  pc_URL :: string

record RawConfig =
  rc_Enabled :: bool
  rc_Store :: string
  rc_CheckpointInterval :: string
  rc_MaxStoreSize :: int
  rc_Portal :: PortalConfig
  rc_Reports :: RawReportsConfig
  rc_Global :: "RawPolicy option"
  rc_Devices :: "RawDevicePolicy list"
  rc_Rules :: "RawRulePolicy list"
  rc_Targets :: "RawTargetPolicy list"

subsection \<open>The parsed configuration\<close>

datatype PolicyKind = PolicyGlobal | PolicyDevice | PolicyRule | PolicyTarget

record QuotaConfig =
  q_TotalBytes :: int
  q_UploadBytes :: int
  q_DownloadBytes :: int
  q_Window :: int
  q_OverageUploadBPS :: int
  q_OverageDownloadBPS :: int
  q_Portal :: bool

record RuleSelector =
  rl_Type :: string
  rl_Payload :: string
  rl_Target :: string
  rl_Fingerprint :: string

record TargetSelector =
  ts_Kind :: string
  ts_Name :: string

record Policy =
  p_ID :: string
  p_Name :: string
  p_Kind :: PolicyKind
  p_Enabled :: bool
  p_UploadBPS :: int
  p_DownloadBPS :: int
  p_Quota :: QuotaConfig
  p_MAC :: string
  p_SourceCIDRs :: "nprefix list"
  p_Rule :: RuleSelector
  p_Target :: TargetSelector

record ReportsConfig =
  r_Enabled :: bool
  r_HourlyRetention :: int
  r_DailyRetention :: int
  r_MonthlyRetention :: int
  r_OrphanRetention :: int

record Config =
  c_Enabled :: bool
  c_StorePath :: string
  c_requestedStore :: string
  c_CheckpointInterval :: int
  c_MaxStoreSize :: int
  c_Portal :: PortalConfig
  c_Reports :: ReportsConfig
  c_Policies :: "Policy list"

definition zero_quota :: QuotaConfig where
  "zero_quota = \<lparr>q_TotalBytes = 0, q_UploadBytes = 0, q_DownloadBytes = 0, q_Window = 0,
     q_OverageUploadBPS = 0, q_OverageDownloadBPS = 0, q_Portal = False\<rparr>"

definition zero_rule :: RuleSelector where
  "zero_rule = \<lparr>rl_Type = [], rl_Payload = [], rl_Target = [], rl_Fingerprint = []\<rparr>"

definition zero_target :: TargetSelector where
  "zero_target = \<lparr>ts_Kind = [], ts_Name = []\<rparr>"

subsection \<open>Constants\<close>

definition DefaultCheckpointInterval :: int where "DefaultCheckpointInterval = 5 * Minute"
definition DefaultStoreLimit :: int where "DefaultStoreLimit = 67108864"
definition DefaultOrphanRetention :: int where "DefaultOrphanRetention = 90 * (24 * Hour)"
definition DefaultHourlyRetention :: int where "DefaultHourlyRetention = 31 * (24 * Hour)"
definition DefaultDailyRetention :: int where "DefaultDailyRetention = 397 * (24 * Hour)"
definition DefaultMonthlyRetention :: int where "DefaultMonthlyRetention = 397 * (24 * Hour)"
definition DefaultOverageUploadBPS :: int where "DefaultOverageUploadBPS = 64000"
definition DefaultOverageDownloadBPS :: int where "DefaultOverageDownloadBPS = 256000"
definition minQuotaWindow :: int where "minQuotaWindow = Hour"
definition maxQuotaWindow :: int where "maxQuotaWindow = 365 * (24 * Hour)"
definition maxTrafficControlPolicies :: nat where "maxTrafficControlPolicies = 256"

lemmas tc_defaults = DefaultCheckpointInterval_def DefaultStoreLimit_def DefaultOrphanRetention_def
  DefaultHourlyRetention_def DefaultDailyRetention_def DefaultMonthlyRetention_def
  DefaultOverageUploadBPS_def DefaultOverageDownloadBPS_def minQuotaWindow_def maxQuotaWindow_def

subsection \<open>Library functions\<close>

record tc_lib =
  lib_lower :: "string \<Rightarrow> string"
  lib_upper :: "string \<Rightarrow> string"
  lib_sha256_hex :: "string \<Rightarrow> string"
  lib_ParsePrefix :: "string \<Rightarrow> nprefix option"
  lib_PrefixString :: "nprefix \<Rightarrow> string"
  lib_Clean :: "string \<Rightarrow> string"

definition NUL :: string where "NUL = [CHR 0x00]"

definition stableID :: "tc_lib \<Rightarrow> string list \<Rightarrow> string" where
  "stableID lib parts = hd parts @ ''-'' @ take 16 (lib_sha256_hex lib (Join parts NUL))"

subsection \<open>Canonical rules\<close>

definition canonicalRuleType :: "tc_lib \<Rightarrow> string \<Rightarrow> string" where
  "canonicalRuleType lib value =
     filter (\<lambda>c. c \<noteq> CHR ''-'' \<and> c \<noteq> CHR ''_'' \<and> c \<noteq> CHR '' '') (lib_upper lib (TrimSpace value))"

definition canonicalPayload :: "tc_lib \<Rightarrow> string \<Rightarrow> string \<Rightarrow> string" where
  "canonicalPayload lib ruleType pl =
     (let payload = TrimSpace pl; joined = Join (Fields payload) '' '' in
      if ruleType \<in> set [''DOMAIN'', ''DOMAINSUFFIX'', ''DOMAINWILDCARD'', ''GEOSITE'', ''GEOIP'', ''SRCGEOIP'']
      then lib_lower lib payload
      else if ruleType \<in> set [''IPCIDR'', ''IPCIDR6'', ''SRCIPCIDR'', ''SRCIPCIDR6'']
      then (case lib_ParsePrefix lib payload of
              Some p \<Rightarrow> lib_PrefixString lib (Masked p)
            | None \<Rightarrow> joined)
      else if ruleType \<in> set [''DSTPORT'', ''SRCPORT'', ''INPORT'']
      then (case ParseUint16 payload of Some n \<Rightarrow> FormatNat n | None \<Rightarrow> joined)
      else joined)"

definition CanonicalRule :: "tc_lib \<Rightarrow> string \<Rightarrow> string \<Rightarrow> string \<Rightarrow> RuleSelector" where
  "CanonicalRule lib type pl tgt =
     (let ruleType = canonicalRuleType lib type;
          target = TrimSpace tgt;
          payload = canonicalPayload lib ruleType pl
      in \<lparr>rl_Type = ruleType, rl_Payload = payload, rl_Target = target,
          rl_Fingerprint = lib_sha256_hex lib (ruleType @ NUL @ payload @ NUL @ target)\<rparr>)"

subsection \<open>Parsing\<close>

definition hasQuota :: "QuotaConfig \<Rightarrow> bool" where
  "hasQuota q \<longleftrightarrow> q_TotalBytes q > 0 \<or> q_UploadBytes q > 0 \<or> q_DownloadBytes q > 0"

definition parseQuota :: "RawQuotaConfig \<Rightarrow> tc_err + QuotaConfig" where
  "parseQuota raw =
     (let quota = \<lparr>q_TotalBytes = rq_TotalBytes raw, q_UploadBytes = rq_UploadBytes raw,
            q_DownloadBytes = rq_DownloadBytes raw, q_Window = 0,
            q_OverageUploadBPS = rq_OverageUploadBPS raw,
            q_OverageDownloadBPS = rq_OverageDownloadBPS raw,
            q_Portal = (case rq_Portal raw of None \<Rightarrow> True | Some b \<Rightarrow> b)\<rparr> in
      if q_TotalBytes quota < 0 \<or> q_UploadBytes quota < 0 \<or> q_DownloadBytes quota < 0
         \<or> q_OverageUploadBPS quota < 0 \<or> q_OverageDownloadBPS quota < 0
      then Inl QuotaNegative
      else if hasQuota quota
      then (case parseFlexibleDuration (rq_Window raw) of
              Inl e \<Rightarrow> Inl QuotaWindowRange
            | Inr window \<Rightarrow>
                if window < minQuotaWindow \<or> window > maxQuotaWindow then Inl QuotaWindowRange
                else Inr (quota\<lparr>q_Window := window,
                       q_OverageUploadBPS := (if q_OverageUploadBPS quota = 0
                         then DefaultOverageUploadBPS else q_OverageUploadBPS quota),
                       q_OverageDownloadBPS := (if q_OverageDownloadBPS quota = 0
                         then DefaultOverageDownloadBPS else q_OverageDownloadBPS quota)\<rparr>))
      else if rq_Window raw \<noteq> [] then Inl QuotaWindowWithoutLimit
      else Inr quota)"

definition parsePolicy :: "PolicyKind \<Rightarrow> RawPolicy \<Rightarrow> tc_err + Policy" where
  "parsePolicy kind raw =
     (if rp_UploadBPS raw < 0 \<or> rp_DownloadBPS raw < 0 then Inl RatesNegative
      else bindR (parseQuota (rp_Quota raw)) (\<lambda>quota.
        Inr \<lparr>p_ID = TrimSpace (rp_ID raw), p_Name = TrimSpace (rp_Name raw), p_Kind = kind,
             p_Enabled = (case rp_Enabled raw of None \<Rightarrow> True | Some b \<Rightarrow> b),
             p_UploadBPS = rp_UploadBPS raw, p_DownloadBPS = rp_DownloadBPS raw,
             p_Quota = quota, p_MAC = [], p_SourceCIDRs = [],
             p_Rule = zero_rule, p_Target = zero_target\<rparr>))"

definition parseRetention :: "string \<Rightarrow> string \<Rightarrow> int \<Rightarrow> tc_err + int" where
  "parseRetention name raw current =
     (if raw = [] then Inr current
      else case parseFlexibleDuration raw of
          Inl e \<Rightarrow> Inl (ReportRetentionInvalid name)
        | Inr d \<Rightarrow> if d < 24 * Hour \<or> d > 10 * 365 * (24 * Hour)
                    then Inl (ReportRetentionInvalid name) else Inr d)"

definition parseReports :: "RawReportsConfig \<Rightarrow> tc_err + ReportsConfig" where
  "parseReports raw =
     bindR (parseRetention ''hourly-retention'' (rs_HourlyRetention raw) DefaultHourlyRetention) (\<lambda>h.
     bindR (parseRetention ''daily-retention'' (rs_DailyRetention raw) DefaultDailyRetention) (\<lambda>d.
     bindR (parseRetention ''monthly-retention'' (rs_MonthlyRetention raw) DefaultMonthlyRetention) (\<lambda>m.
     bindR (parseRetention ''orphan-retention'' (rs_OrphanRetention raw) DefaultOrphanRetention) (\<lambda>or.
     Inr \<lparr>r_Enabled = (case rs_Enabled raw of None \<Rightarrow> True | Some b \<Rightarrow> b),
          r_HourlyRetention = h, r_DailyRetention = d, r_MonthlyRetention = m, r_OrphanRetention = or\<rparr>))))"

definition is_alnum :: "char \<Rightarrow> bool" where
  "is_alnum c \<longleftrightarrow> (let n = of_char c :: nat in
     (48 \<le> n \<and> n \<le> 57) \<or> (65 \<le> n \<and> n \<le> 90) \<or> (97 \<le> n \<and> n \<le> 122))"

text \<open>\<^verbatim>\<open>idPattern\<close>: a letter or digit and then up to 127 letters, digits, dots, underscores and dashes.\<close>

fun idPattern :: "string \<Rightarrow> bool" where
  "idPattern [] = False"
| "idPattern (c # s) =
     (is_alnum c \<and> length s \<le> 127
      \<and> list_all (\<lambda>d. is_alnum d \<or> d = CHR ''.'' \<or> d = CHR ''_'' \<or> d = CHR ''-'') s)"

definition is_hex :: "char \<Rightarrow> bool" where
  "is_hex c \<longleftrightarrow> (let n = of_char c :: nat in
     (48 \<le> n \<and> n \<le> 57) \<or> (65 \<le> n \<and> n \<le> 70) \<or> (97 \<le> n \<and> n \<le> 102))"

text \<open>\<^verbatim>\<open>macPattern\<close>: six pairs of hexadecimal digits separated by colons.\<close>

definition macPattern :: "string \<Rightarrow> bool" where
  "macPattern s \<longleftrightarrow> length s = 17
     \<and> list_all (\<lambda>i. if i mod 3 = 2 then s ! i = CHR '':'' else is_hex (s ! i)) [0..<17]"

type_synonym policy_acc = "Policy list \<times> string list"

definition addPolicy :: "policy_acc \<Rightarrow> Policy \<Rightarrow> tc_err + policy_acc" where
  "addPolicy acc policy =
     (let (policies, ids) = acc in
      if \<not> idPattern (p_ID policy) then Inl (PolicyIDInvalid (p_ID policy))
      else if p_ID policy \<in> set ids then Inl (PolicyIDDuplicated (p_ID policy))
      else Inr (policies @ [policy], p_ID policy # ids))"

definition default_id :: "Policy \<Rightarrow> string \<Rightarrow> Policy" where
  "default_id policy ident = (if p_ID policy = [] then policy\<lparr>p_ID := ident\<rparr> else policy)"

definition parse_global :: "policy_acc \<Rightarrow> RawPolicy \<Rightarrow> tc_err + policy_acc" where
  "parse_global acc raw =
     bindR (parsePolicy PolicyGlobal raw) (\<lambda>policy. addPolicy acc (default_id policy ''global''))"

definition parse_cidr :: "tc_lib \<Rightarrow> string \<Rightarrow> string \<Rightarrow> tc_err + nprefix" where
  "parse_cidr lib ident value =
     (case lib_ParsePrefix lib (TrimSpace value) of
        None \<Rightarrow> Inl (SourceCIDRInvalid ident)
      | Some p \<Rightarrow> Inr (Masked p))"

definition parse_device :: "tc_lib \<Rightarrow> policy_acc \<Rightarrow> RawDevicePolicy \<Rightarrow> tc_err + policy_acc" where
  "parse_device lib acc device =
     bindR (parsePolicy PolicyDevice (rd_Policy device)) (\<lambda>policy.
       let mac = (if rd_MAC device \<noteq> [] then ToLower (TrimSpace (rd_MAC device)) else []) in
       if rd_MAC device \<noteq> [] \<and> \<not> macPattern mac then Inl InvalidMAC
       else
         let policy = default_id policy (stableID lib [''device'', mac, Join (rd_SourceCIDRs device) '','']) in
         bindR (mapR (parse_cidr lib (p_ID policy)) (rd_SourceCIDRs device)) (\<lambda>cidrs.
           if cidrs = []
           then (if mac \<noteq> [] then Inl (MACMatchingUnavailable (p_ID policy))
                 else Inl (SourceCIDRsRequired (p_ID policy)))
           else addPolicy acc (policy\<lparr>p_MAC := mac, p_SourceCIDRs := cidrs\<rparr>)))"

definition parse_rule :: "tc_lib \<Rightarrow> policy_acc \<Rightarrow> RawRulePolicy \<Rightarrow> tc_err + policy_acc" where
  "parse_rule lib acc rule =
     bindR (parsePolicy PolicyRule (rr_Policy rule)) (\<lambda>policy.
       let selector = CanonicalRule lib (rr_Type rule) (rr_Payload rule) (rr_Target rule) in
       if rl_Type selector = [] \<or> rl_Target selector = [] then Inl RuleRequiresTypeAndTarget
       else addPolicy acc
              ((default_id policy (''rule-'' @ take 16 (rl_Fingerprint selector)))\<lparr>p_Rule := selector\<rparr>))"

definition parse_target :: "tc_lib \<Rightarrow> policy_acc \<Rightarrow> RawTargetPolicy \<Rightarrow> tc_err + policy_acc" where
  "parse_target lib acc target =
     bindR (parsePolicy PolicyTarget (rt_Policy target)) (\<lambda>policy.
       let kind = ToLower (TrimSpace (rt_Kind target)); name = TrimSpace (rt_Target target) in
       if kind \<noteq> ''proxy'' \<and> kind \<noteq> ''group'' then Inl TargetKindInvalid
       else if name = [] then Inl TargetRequired
       else addPolicy acc
              ((default_id policy (stableID lib [''target'', kind, name]))
                 \<lparr>p_Target := \<lparr>ts_Kind = kind, ts_Name = name\<rparr>\<rparr>))"

definition parse_policies :: "tc_lib \<Rightarrow> RawConfig \<Rightarrow> tc_err + policy_acc" where
  "parse_policies lib raw =
     bindR (case rc_Global raw of None \<Rightarrow> Inr ([], []) | Some g \<Rightarrow> parse_global ([], []) g) (\<lambda>acc.
     bindR (foldR (parse_device lib) acc (rc_Devices raw)) (\<lambda>acc.
     bindR (foldR (parse_rule lib) acc (rc_Rules raw)) (\<lambda>acc.
     foldR (parse_target lib) acc (rc_Targets raw))))"

definition requested_store :: "RawConfig \<Rightarrow> string" where
  "requested_store raw = (let t = TrimSpace (rc_Store raw) in if t = [] then ''traffic-control.db'' else t)"

definition store_limit :: "RawConfig \<Rightarrow> int" where
  "store_limit raw = (if rc_MaxStoreSize raw = 0 then DefaultStoreLimit else rc_MaxStoreSize raw)"

definition policy_count :: "RawConfig \<Rightarrow> nat" where
  "policy_count raw = length (rc_Devices raw) + length (rc_Rules raw) + length (rc_Targets raw)
     + (if rc_Global raw \<noteq> None then 1 else 0)"

definition ParseConfig ::
  "tc_lib \<Rightarrow> (string \<Rightarrow> string option) option \<Rightarrow> RawConfig option \<Rightarrow> tc_err + Config option" where
  "ParseConfig lib resolvePath rawp =
     (case rawp of
        None \<Rightarrow> Inr None
      | Some raw \<Rightarrow>
          if \<not> rc_Enabled raw then Inr None
          else (case resolvePath of
            None \<Rightarrow> Inl ResolverRequired
          | Some resolve \<Rightarrow>
              let requestedStore = requested_store raw in
              (case resolve requestedStore of
                None \<Rightarrow> Inl StorePathError
              | Some store \<Rightarrow>
                  (case parseOptionalDuration (rc_CheckpointInterval raw) DefaultCheckpointInterval of
                    Inl e \<Rightarrow> Inl CheckpointRange
                  | Inr checkpoint \<Rightarrow>
                      if checkpoint < Minute \<or> checkpoint > Hour then Inl CheckpointRange
                      else
                        let maxStoreSize = store_limit raw in
                        if maxStoreSize < 4194304 \<or> maxStoreSize > 1073741824 then Inl MaxStoreSizeRange
                        else bindR (parseReports (rc_Reports raw)) (\<lambda>reports.
                          if policy_count raw > maxTrafficControlPolicies then Inl PolicyCountExceeded
                          else bindR (parse_policies lib raw) (\<lambda>acc.
                            Inr (Some \<lparr>c_Enabled = True, c_StorePath = lib_Clean lib store,
                              c_requestedStore = requestedStore, c_CheckpointInterval = checkpoint,
                              c_MaxStoreSize = maxStoreSize, c_Portal = rc_Portal raw,
                              c_Reports = reports, c_Policies = fst acc\<rparr>)))))))"

subsection \<open>Printing\<close>

definition raw_policy :: "Policy \<Rightarrow> RawPolicy" where
  "raw_policy policy =
     \<lparr>rp_ID = p_ID policy, rp_Name = p_Name policy, rp_Enabled = Some (p_Enabled policy),
      rp_UploadBPS = p_UploadBPS policy, rp_DownloadBPS = p_DownloadBPS policy,
      rp_Quota = \<lparr>rq_TotalBytes = q_TotalBytes (p_Quota policy),
        rq_UploadBytes = q_UploadBytes (p_Quota policy),
        rq_DownloadBytes = q_DownloadBytes (p_Quota policy),
        rq_Window = formatFlexibleDuration (q_Window (p_Quota policy)),
        rq_OverageUploadBPS = q_OverageUploadBPS (p_Quota policy),
        rq_OverageDownloadBPS = q_OverageDownloadBPS (p_Quota policy),
        rq_Portal = Some (q_Portal (p_Quota policy))\<rparr>\<rparr>"

definition Raw_step :: "tc_lib \<Rightarrow> RawConfig \<Rightarrow> Policy \<Rightarrow> RawConfig" where
  "Raw_step lib raw policy =
     (case p_Kind policy of
        PolicyGlobal \<Rightarrow> raw\<lparr>rc_Global := Some (raw_policy policy)\<rparr>
      | PolicyDevice \<Rightarrow> raw\<lparr>rc_Devices := rc_Devices raw @
          [\<lparr>rd_Policy = raw_policy policy, rd_MAC = p_MAC policy,
            rd_SourceCIDRs = map (lib_PrefixString lib) (p_SourceCIDRs policy)\<rparr>]\<rparr>
      | PolicyRule \<Rightarrow> raw\<lparr>rc_Rules := rc_Rules raw @
          [\<lparr>rr_Policy = raw_policy policy, rr_Type = rl_Type (p_Rule policy),
            rr_Payload = rl_Payload (p_Rule policy), rr_Target = rl_Target (p_Rule policy)\<rparr>]\<rparr>
      | PolicyTarget \<Rightarrow> raw\<lparr>rc_Targets := rc_Targets raw @
          [\<lparr>rt_Policy = raw_policy policy, rt_Kind = ts_Kind (p_Target policy),
            rt_Target = ts_Name (p_Target policy)\<rparr>]\<rparr>)"

definition empty_reports :: RawReportsConfig where
  "empty_reports = \<lparr>rs_Enabled = None, rs_HourlyRetention = [], rs_DailyRetention = [],
     rs_MonthlyRetention = [], rs_OrphanRetention = []\<rparr>"

definition empty_raw :: RawConfig where
  "empty_raw = \<lparr>rc_Enabled = False, rc_Store = [], rc_CheckpointInterval = [], rc_MaxStoreSize = 0,
     rc_Portal = \<lparr>pc_Listen = [], pc_URL = []\<rparr>, rc_Reports = empty_reports, rc_Global = None,
     rc_Devices = [], rc_Rules = [], rc_Targets = []\<rparr>"

definition Raw :: "tc_lib \<Rightarrow> Config option \<Rightarrow> RawConfig" where
  "Raw lib cp =
     (case cp of
        None \<Rightarrow> empty_raw
      | Some c \<Rightarrow>
          if \<not> c_Enabled c then empty_raw
          else foldl (Raw_step lib)
            (empty_raw\<lparr>rc_Enabled := True,
               rc_Store := (if c_requestedStore c = [] then c_StorePath c else c_requestedStore c),
               rc_CheckpointInterval := formatFlexibleDuration (c_CheckpointInterval c),
               rc_MaxStoreSize := c_MaxStoreSize c,
               rc_Portal := c_Portal c,
               rc_Reports := \<lparr>rs_Enabled = Some (r_Enabled (c_Reports c)),
                 rs_HourlyRetention = formatFlexibleDuration (r_HourlyRetention (c_Reports c)),
                 rs_DailyRetention = formatFlexibleDuration (r_DailyRetention (c_Reports c)),
                 rs_MonthlyRetention = formatFlexibleDuration (r_MonthlyRetention (c_Reports c)),
                 rs_OrphanRetention = formatFlexibleDuration (r_OrphanRetention (c_Reports c))\<rparr>\<rparr>)
            (c_Policies c))"

definition SortedPolicyIDs :: "Config \<Rightarrow> string list" where
  "SortedPolicyIDs c = sort (map p_ID (c_Policies c))"

end
