(* ===== verification/TC_Config.thy ===== *)
theory TC_Config
  imports TC_Model
begin

section \<open>Traffic control: parsing and printing a configuration\<close>

text \<open>
  What \<open>ParseConfig\<close> of the previous theory guarantees. \<open>config_ok\<close> is the invariant of a parsed
  configuration that the manager relies on; the lemmas on \<open>raw_policy\<close> and its companions show that
  the document printed by \<open>Raw\<close> is read back as the configuration it was printed from, one lemma per
  kind of policy.
\<close>

subsection \<open>What the configuration relies on in its libraries\<close>

definition tc_lib_ok :: "tc_lib \<Rightarrow> bool" where
  "tc_lib_ok lib \<longleftrightarrow>
     (\<forall>s p. lib_ParsePrefix lib s = Some p \<longrightarrow>
        lib_ParsePrefix lib (lib_PrefixString lib (Masked p)) = Some (Masked p))
   \<and> (\<forall>p. trimmed (lib_PrefixString lib p))
   \<and> (\<forall>s p. lib_ParsePrefix lib s = Some p \<longrightarrow> CHR '' '' \<notin> set s)
   \<and> (\<forall>s. lib_lower lib (lib_lower lib s) = lib_lower lib s)
   \<and> (\<forall>s. trimmed s \<longrightarrow> trimmed (lib_lower lib s))"

lemma tc_lib_okD:
  assumes "tc_lib_ok lib"
  shows "lib_ParsePrefix lib s = Some p \<Longrightarrow>
      lib_ParsePrefix lib (lib_PrefixString lib (Masked p)) = Some (Masked p)"
    and "trimmed (lib_PrefixString lib p)"
    and "lib_ParsePrefix lib s = Some p \<Longrightarrow> CHR '' '' \<notin> set s"
    and "lib_lower lib (lib_lower lib s) = lib_lower lib s"
    and "trimmed s \<Longrightarrow> trimmed (lib_lower lib s)"
  using assms by (auto simp: tc_lib_ok_def)

lemma mask_word_idem: "mask_word width bits (mask_word width bits w) = mask_word width bits w"
  by (rule bit_word_eqI) (auto simp: mask_word_def bit_simps)

lemma mask_addr_idem: "mask_addr bits (mask_addr bits a) = mask_addr bits a"
  by (cases a) (auto simp: mask_word_idem)

lemma Masked_idem [simp]: "Masked (Masked p) = Masked p"
  by (simp add: Masked_def mask_addr_idem)

subsection \<open>Canonical rules are canonical\<close>

lemma canonicalPayload_idem:
  assumes ok: "tc_lib_ok lib"
  shows "canonicalPayload lib ty (canonicalPayload lib ty pl) = canonicalPayload lib ty pl"
proof -
  let ?t = "TrimSpace pl" and ?j = "Join (Fields (TrimSpace pl)) '' ''"
  have j: "TrimSpace ?j = ?j" "Join (Fields ?j) '' '' = ?j"
    by (simp_all add: TrimSpace_trimmed)
  have parse_j: "lib_ParsePrefix lib ?t = None \<Longrightarrow> lib_ParsePrefix lib ?j = None"
    using joined_blankfree [of ?t] tc_lib_okD(3) [OF ok, of ?j] by (cases "lib_ParsePrefix lib ?j") auto
  have uint_j: "ParseUint16 ?t = None \<Longrightarrow> ParseUint16 ?j = None"
    using joined_blankfree [of ?t] ParseUint16_blankfree [of ?j] by (cases "ParseUint16 ?j") auto
  have low: "TrimSpace (lib_lower lib ?t) = lib_lower lib ?t"
    by (simp add: TrimSpace_trimmed tc_lib_okD(5) [OF ok])
  have pre: "TrimSpace (lib_PrefixString lib p) = lib_PrefixString lib p" for p
    by (simp add: TrimSpace_trimmed tc_lib_okD(2) [OF ok])
  show ?thesis
    unfolding canonicalPayload_def Let_def
    using j parse_j uint_j low pre tc_lib_okD(1,4) [OF ok]
    by (auto simp: TrimSpace_trimmed FormatNat_trimmed ParseUint16_FormatNat ParseUint16_bound
        split: option.splits)
qed

subsection \<open>Well-formed configurations\<close>

definition quota_ok :: "QuotaConfig \<Rightarrow> bool" where
  "quota_ok q \<longleftrightarrow>
     q_TotalBytes q \<ge> 0 \<and> q_UploadBytes q \<ge> 0 \<and> q_DownloadBytes q \<ge> 0
   \<and> q_OverageUploadBPS q \<ge> 0 \<and> q_OverageDownloadBPS q \<ge> 0
   \<and> (if hasQuota q
      then minQuotaWindow \<le> q_Window q \<and> q_Window q \<le> maxQuotaWindow \<and> q_Window q mod Minute = 0
         \<and> q_OverageUploadBPS q > 0 \<and> q_OverageDownloadBPS q > 0
      else q_Window q = 0)"

definition selector_ok :: "tc_lib \<Rightarrow> Policy \<Rightarrow> bool" where
  "selector_ok lib p \<longleftrightarrow>
     (case p_Kind p of
        PolicyGlobal \<Rightarrow> p_MAC p = [] \<and> p_SourceCIDRs p = [] \<and> p_Rule p = zero_rule \<and> p_Target p = zero_target
      | PolicyDevice \<Rightarrow> (p_MAC p = [] \<or> macPattern (p_MAC p) \<and> ToLower (p_MAC p) = p_MAC p)
          \<and> p_SourceCIDRs p \<noteq> [] \<and> (\<forall>x \<in> set (p_SourceCIDRs p). \<exists>s q. lib_ParsePrefix lib s = Some q \<and> x = Masked q)
          \<and> p_Rule p = zero_rule \<and> p_Target p = zero_target
      | PolicyRule \<Rightarrow> p_MAC p = [] \<and> p_SourceCIDRs p = [] \<and> p_Target p = zero_target
          \<and> (\<exists>ty pl tg. p_Rule p = CanonicalRule lib ty pl tg) \<and> rl_Type (p_Rule p) \<noteq> [] \<and> rl_Target (p_Rule p) \<noteq> []
      | PolicyTarget \<Rightarrow> p_MAC p = [] \<and> p_SourceCIDRs p = [] \<and> p_Rule p = zero_rule
          \<and> ts_Kind (p_Target p) \<in> {''proxy'', ''group''} \<and> ts_Name (p_Target p) \<noteq> [] \<and> trimmed (ts_Name (p_Target p)))"

definition policy_ok :: "tc_lib \<Rightarrow> Policy \<Rightarrow> bool" where
  "policy_ok lib p \<longleftrightarrow>
     idPattern (p_ID p) \<and> trimmed (p_Name p) \<and> p_UploadBPS p \<ge> 0 \<and> p_DownloadBPS p \<ge> 0
   \<and> quota_ok (p_Quota p) \<and> selector_ok lib p"

definition reports_ok :: "ReportsConfig \<Rightarrow> bool" where
  "reports_ok r \<longleftrightarrow> list_all (\<lambda>d. 24 * Hour \<le> d \<and> d \<le> 10 * 365 * (24 * Hour) \<and> d mod Minute = 0)
     [r_HourlyRetention r, r_DailyRetention r, r_MonthlyRetention r, r_OrphanRetention r]"

definition config_ok :: "tc_lib \<Rightarrow> Config \<Rightarrow> bool" where
  "config_ok lib c \<longleftrightarrow>
     c_Enabled c \<and> Minute \<le> c_CheckpointInterval c \<and> c_CheckpointInterval c \<le> Hour
   \<and> 4194304 \<le> c_MaxStoreSize c \<and> c_MaxStoreSize c \<le> 1073741824
   \<and> reports_ok (c_Reports c) \<and> length (c_Policies c) \<le> maxTrafficControlPolicies
   \<and> distinct (map p_ID (c_Policies c)) \<and> list_all (policy_ok lib) (c_Policies c)"

subsection \<open>One policy\<close>

lemma parseQuota_ok: "parseQuota raw = Inr q \<Longrightarrow> quota_ok q"
  by (auto simp: parseQuota_def quota_ok_def hasQuota_def Let_def tc_defaults
      dest!: parse_duration_bounds split: if_splits sum.splits)

lemma parsePolicy_fields:
  assumes "parsePolicy kind raw = Inr p"
  shows "p_Kind p = kind" "p_ID p = TrimSpace (rp_ID raw)" "trimmed (p_Name p)" "p_UploadBPS p \<ge> 0"
    "p_DownloadBPS p \<ge> 0" "quota_ok (p_Quota p)" "p_MAC p = []" "p_SourceCIDRs p = []"
    "p_Rule p = zero_rule" "p_Target p = zero_target"
  using assms by (auto simp: parsePolicy_def bindR_eq_Inr parseQuota_ok split: if_splits)

lemma default_id_simps [simp]:
  "p_Kind (default_id p i) = p_Kind p" "p_Name (default_id p i) = p_Name p"
  "p_UploadBPS (default_id p i) = p_UploadBPS p" "p_DownloadBPS (default_id p i) = p_DownloadBPS p"
  "p_Quota (default_id p i) = p_Quota p" "p_MAC (default_id p i) = p_MAC p"
  "p_SourceCIDRs (default_id p i) = p_SourceCIDRs p" "p_Rule (default_id p i) = p_Rule p"
  "p_Target (default_id p i) = p_Target p"
  by (simp_all add: default_id_def)

lemma addPolicy_Inr:
  "addPolicy acc p = Inr acc' \<longleftrightarrow>
     idPattern (p_ID p) \<and> p_ID p \<notin> set (snd acc) \<and> acc' = (fst acc @ [p], p_ID p # snd acc)"
  by (auto simp: addPolicy_def split: prod.splits)

lemmas policy_intro = policy_ok_def selector_ok_def addPolicy_Inr parsePolicy_fields

text \<open>Each branch of the parser appends one well-formed policy of its own kind.\<close>

lemma parse_global_policy:
  assumes "parse_global acc raw = Inr acc'"
  shows "\<exists>p. addPolicy acc p = Inr acc' \<and> p_Kind p = PolicyGlobal \<and> policy_ok lib p"
  using assms
  by (auto simp: parse_global_def bindR_eq_Inr policy_intro simp del: idPattern.simps)

lemma parse_device_policy:
  assumes "parse_device lib acc raw = Inr acc'"
  shows "\<exists>p. addPolicy acc p = Inr acc' \<and> p_Kind p = PolicyDevice \<and> policy_ok lib p"
proof -
  let ?mac = "if rd_MAC raw \<noteq> [] then ToLower (TrimSpace (rd_MAC raw)) else []"
  let ?id = "stableID lib [''device'', ?mac, Join (rd_SourceCIDRs raw) '','']"
  from assms obtain q cidrs where q: "parsePolicy PolicyDevice (rd_Policy raw) = Inr q"
    and mac: "rd_MAC raw \<noteq> [] \<longrightarrow> macPattern ?mac"
    and cidrs: "mapR (parse_cidr lib (p_ID (default_id q ?id))) (rd_SourceCIDRs raw) = Inr cidrs" "cidrs \<noteq> []"
    and add: "addPolicy acc ((default_id q ?id)\<lparr>p_MAC := ?mac, p_SourceCIDRs := cidrs\<rparr>) = Inr acc'"
    by (simp add: parse_device_def bindR_eq_Inr Let_def del: idPattern.simps split: if_splits) blast+
  have "\<exists>s r. lib_ParsePrefix lib s = Some r \<and> x = Masked r" if "x \<in> set cidrs" for x
    using mapR_Inr_set [OF cidrs(1) that] by (auto simp: parse_cidr_def split: option.splits)
  with add mac cidrs(2) have "policy_ok lib ((default_id q ?id)\<lparr>p_MAC := ?mac, p_SourceCIDRs := cidrs\<rparr>)"
    by (auto simp: policy_intro parsePolicy_fields [OF q] simp del: idPattern.simps)
  with add show ?thesis by (auto simp: parsePolicy_fields [OF q])
qed

lemma parse_rule_policy:
  assumes "parse_rule lib acc raw = Inr acc'"
  shows "\<exists>p. addPolicy acc p = Inr acc' \<and> p_Kind p = PolicyRule \<and> policy_ok lib p"
  using assms
  by (auto simp: parse_rule_def bindR_eq_Inr policy_intro Let_def simp del: idPattern.simps split: if_splits) blast

lemma parse_target_policy:
  assumes "parse_target lib acc raw = Inr acc'"
  shows "\<exists>p. addPolicy acc p = Inr acc' \<and> p_Kind p = PolicyTarget \<and> policy_ok lib p"
  using assms
  by (auto simp: parse_target_def bindR_eq_Inr policy_intro Let_def simp del: idPattern.simps split: if_splits)

lemma foldR_parse_policies:
  assumes "\<And>acc raw acc'. f acc raw = Inr acc' \<Longrightarrow>
      \<exists>p. addPolicy acc p = Inr acc' \<and> p_Kind p = kind \<and> policy_ok lib p"
    and "foldR f acc raws = Inr acc'"
  shows "\<exists>ps. foldR addPolicy acc ps = Inr acc' \<and> length ps = length raws
    \<and> list_all (\<lambda>p. p_Kind p = kind \<and> policy_ok lib p) ps"
  using assms(2)
proof (induction raws arbitrary: acc)
  case Nil
  then show ?case by (intro exI [of _ "[]"]) simp
next
  case (Cons r raws)
  from Cons.prems obtain mid where mid: "f acc r = Inr mid" "foldR f mid raws = Inr acc'"
    by (auto simp: bindR_eq_Inr)
  from assms(1) [OF mid(1)] obtain p where
    p: "addPolicy acc p = Inr mid" "p_Kind p = kind" "policy_ok lib p" by blast
  from Cons.IH [OF mid(2)] obtain ps where "foldR addPolicy mid ps = Inr acc'"
    "length ps = length raws" "list_all (\<lambda>p. p_Kind p = kind \<and> policy_ok lib p) ps" by blast
  with p show ?case by (intro exI [of _ "p # ps"]) simp
qed

lemma foldR_addPolicy:
  "foldR addPolicy acc ps = Inr acc' \<longleftrightarrow>
     list_all (\<lambda>p. idPattern (p_ID p)) ps \<and> distinct (map p_ID ps) \<and> set (map p_ID ps) \<inter> set (snd acc) = {}
     \<and> acc' = (fst acc @ ps, rev (map p_ID ps) @ snd acc)"
proof (induction ps arbitrary: acc)
  case (Cons p ps)
  then show ?case
    by (cases acc) (auto simp: bindR_eq_Inr addPolicy_Inr simp del: idPattern.simps)
qed (cases acc, auto)

lemma parse_policies_structure:
  assumes "parse_policies lib raw = Inr acc"
  obtains gs ds rs ts where
    "foldR addPolicy ([], []) (gs @ ds @ rs @ ts) = Inr acc"
    "length gs = (if rc_Global raw \<noteq> None then 1 else 0)" "length ds = length (rc_Devices raw)"
    "length rs = length (rc_Rules raw)" "length ts = length (rc_Targets raw)"
    "list_all (\<lambda>p. p_Kind p = PolicyGlobal \<and> policy_ok lib p) gs"
    "list_all (\<lambda>p. p_Kind p = PolicyDevice \<and> policy_ok lib p) ds"
    "list_all (\<lambda>p. p_Kind p = PolicyRule \<and> policy_ok lib p) rs"
    "list_all (\<lambda>p. p_Kind p = PolicyTarget \<and> policy_ok lib p) ts"
proof -
  from assms obtain a b c where
    a: "(case rc_Global raw of None \<Rightarrow> Inr ([], []) | Some g \<Rightarrow> parse_global ([], []) g) = Inr a" and
    b: "foldR (parse_device lib) a (rc_Devices raw) = Inr b" and
    c: "foldR (parse_rule lib) b (rc_Rules raw) = Inr c" and
    d: "foldR (parse_target lib) c (rc_Targets raw) = Inr acc"
    by (auto simp: parse_policies_def bindR_eq_Inr)
  have "\<exists>gs. foldR addPolicy ([], []) gs = Inr a \<and> length gs = (if rc_Global raw \<noteq> None then 1 else 0)
    \<and> list_all (\<lambda>p. p_Kind p = PolicyGlobal \<and> policy_ok lib p) gs"
  proof (cases "rc_Global raw")
    case None
    with a show ?thesis by (intro exI [of _ "[]"]) simp
  next
    case (Some g)
    with a obtain p where "addPolicy ([], []) p = Inr a" "p_Kind p = PolicyGlobal" "policy_ok lib p"
      using parse_global_policy by fastforce
    with Some show ?thesis by (intro exI [of _ "[p]"]) simp
  qed
  then obtain gs where gs: "foldR addPolicy ([], []) gs = Inr a"
    "length gs = (if rc_Global raw \<noteq> None then 1 else 0)"
    "list_all (\<lambda>p. p_Kind p = PolicyGlobal \<and> policy_ok lib p) gs" by blast
  from foldR_parse_policies [of "parse_device lib" PolicyDevice lib, OF _ b] parse_device_policy
  obtain ds where ds: "foldR addPolicy a ds = Inr b" "length ds = length (rc_Devices raw)"
    "list_all (\<lambda>p. p_Kind p = PolicyDevice \<and> policy_ok lib p) ds" by blast
  from foldR_parse_policies [of "parse_rule lib" PolicyRule lib, OF _ c] parse_rule_policy
  obtain rs where rs: "foldR addPolicy b rs = Inr c" "length rs = length (rc_Rules raw)"
    "list_all (\<lambda>p. p_Kind p = PolicyRule \<and> policy_ok lib p) rs" by blast
  from foldR_parse_policies [of "parse_target lib" PolicyTarget lib, OF _ d] parse_target_policy
  obtain ts where ts: "foldR addPolicy c ts = Inr acc" "length ts = length (rc_Targets raw)"
    "list_all (\<lambda>p. p_Kind p = PolicyTarget \<and> policy_ok lib p) ts" by blast
  show thesis
    by (rule that [of gs ds rs ts]) (use gs ds rs ts in \<open>simp_all add: foldR_append\<close>)
qed

lemma parseRetention_ok:
  "parseRetention n s cur = Inr d \<Longrightarrow> 24 * Hour \<le> cur \<and> cur \<le> 10 * 365 * (24 * Hour) \<and> cur mod Minute = 0 \<Longrightarrow>
   24 * Hour \<le> d \<and> d \<le> 10 * 365 * (24 * Hour) \<and> d mod Minute = 0"
  by (auto simp: parseRetention_def split: if_splits sum.splits dest: parse_duration_bounds)

lemma parseReports_ok:
  assumes "parseReports raw = Inr r"
  shows "reports_ok r"
proof -
  let ?ok = "\<lambda>d. 24 * Hour \<le> d \<and> d \<le> 10 * 365 * (24 * Hour) \<and> d mod Minute = 0"
  have def: "?ok DefaultHourlyRetention" "?ok DefaultDailyRetention" "?ok DefaultMonthlyRetention"
    "?ok DefaultOrphanRetention"
    by (simp_all add: tc_defaults time_units)
  from assms obtain h d m ro where
    "parseRetention ''hourly-retention'' (rs_HourlyRetention raw) DefaultHourlyRetention = Inr h"
    "parseRetention ''daily-retention'' (rs_DailyRetention raw) DefaultDailyRetention = Inr d"
    "parseRetention ''monthly-retention'' (rs_MonthlyRetention raw) DefaultMonthlyRetention = Inr m"
    "parseRetention ''orphan-retention'' (rs_OrphanRetention raw) DefaultOrphanRetention = Inr ro"
    "r = \<lparr>r_Enabled = (case rs_Enabled raw of None \<Rightarrow> True | Some b \<Rightarrow> b),
          r_HourlyRetention = h, r_DailyRetention = d, r_MonthlyRetention = m, r_OrphanRetention = ro\<rparr>"
    by (simp only: parseReports_def bindR_eq_Inr) blast
  then show ?thesis
    using parseRetention_ok [OF _ def(1)] parseRetention_ok [OF _ def(2)]
      parseRetention_ok [OF _ def(3)] parseRetention_ok [OF _ def(4)]
    by (simp add: reports_ok_def)
qed

lemma ParseConfig_Inr_iff:
  "ParseConfig lib (Some resolve) (Some raw) = Inr (Some c) \<longleftrightarrow>
     rc_Enabled raw \<and>
     (\<exists>store ck reports acc. resolve (requested_store raw) = Some store
       \<and> parseOptionalDuration (rc_CheckpointInterval raw) DefaultCheckpointInterval = Inr ck
       \<and> Minute \<le> ck \<and> ck \<le> Hour \<and> 4194304 \<le> store_limit raw \<and> store_limit raw \<le> 1073741824
       \<and> parseReports (rc_Reports raw) = Inr reports
       \<and> policy_count raw \<le> maxTrafficControlPolicies \<and> parse_policies lib raw = Inr acc
       \<and> c = \<lparr>c_Enabled = True, c_StorePath = lib_Clean lib store,
              c_requestedStore = requested_store raw, c_CheckpointInterval = ck,
              c_MaxStoreSize = store_limit raw, c_Portal = rc_Portal raw,
              c_Reports = reports, c_Policies = fst acc\<rparr>)"
  unfolding ParseConfig_def requested_store_def [symmetric] store_limit_def [symmetric]
    policy_count_def [symmetric]
  by (auto simp: Let_def bindR_eq_Inr not_less split: option.splits sum.splits)

lemma parseOptional_minutes:
  "parseOptionalDuration s (5 * Minute) = Inr d \<Longrightarrow> 0 < d \<and> d mod Minute = 0"
  by (auto simp: parseOptionalDuration_def split: if_splits dest: parse_duration_bounds)

lemma idPattern_trimmed: "idPattern s \<Longrightarrow> trimmed s"
proof (rule trimmed_printable)
  assume id: "idPattern s"
  have pr: "is_alnum d \<or> d = CHR ''.'' \<or> d = CHR ''_'' \<or> d = CHR ''-'' \<Longrightarrow> printable d" for d
    by (auto simp: is_alnum_def printable_def Let_def)
  from id obtain c t where s: "s = c # t" by (cases s) auto
  with id pr show "s \<noteq> []" "printable (hd s)" "printable (last s)"
    by (auto simp: list_all_iff)
qed

lemma idPattern_nonempty: "idPattern s \<Longrightarrow> s \<noteq> []"
  by auto

lemma parse_format_exact:
  assumes "0 < d" "d \<le> max_int64" "d mod Minute = 0"
  shows "parseFlexibleDuration (formatFlexibleDuration d) = Inr d"
  using parse_format_duration [of d] ceil_minute_exact [of d] assms by simp

lemma formatFlexibleDuration_nonempty: "0 < d \<Longrightarrow> formatFlexibleDuration d \<noteq> []"
  by (simp add: formatFlexibleDuration_def Let_def)

lemma parseQuota_raw:
  assumes "quota_ok (p_Quota p)"
  shows "parseQuota (rp_Quota (raw_policy p)) = Inr (p_Quota p)"
proof -
  obtain q where q: "p_Quota p = q" by simp
  show ?thesis
  proof (cases "hasQuota q")
    case True
    with assms q have w: "0 < q_Window q" "q_Window q \<le> max_int64" "q_Window q mod Minute = 0"
      by (auto simp: quota_ok_def tc_defaults time_units)
    from parse_format_exact [OF w] True assms q show ?thesis
      by (auto simp: parseQuota_def raw_policy_def quota_ok_def hasQuota_def Let_def)
  next
    case False
    with assms q show ?thesis
      by (auto simp: parseQuota_def raw_policy_def quota_ok_def hasQuota_def Let_def formatFlexibleDuration_def)
  qed
qed

lemma parsePolicy_raw:
  assumes "policy_ok lib p"
  shows "parsePolicy k (raw_policy p) =
    Inr (p\<lparr>p_Kind := k, p_MAC := [], p_SourceCIDRs := [], p_Rule := zero_rule, p_Target := zero_target\<rparr>)"
  using assms parseQuota_raw [of p] idPattern_trimmed [of "p_ID p"]
  by (simp add: parsePolicy_def policy_ok_def TrimSpace_trimmed del: idPattern.simps)
    (simp add: raw_policy_def TrimSpace_trimmed del: idPattern.simps)

lemma default_id_named: "p_ID p \<noteq> [] \<Longrightarrow> default_id p i = p"
  by (simp add: default_id_def)

lemma parse_global_raw:
  assumes "policy_ok lib p" "p_Kind p = PolicyGlobal"
  shows "parse_global acc (raw_policy p) = addPolicy acc p"
proof -
  have "p\<lparr>p_Kind := PolicyGlobal, p_MAC := [], p_SourceCIDRs := [], p_Rule := zero_rule, p_Target := zero_target\<rparr> = p"
    using assms by (simp add: policy_ok_def selector_ok_def)
  moreover have "p_ID p \<noteq> []" using assms by (auto simp: policy_ok_def)
  ultimately show ?thesis
    using assms by (simp add: parse_global_def parsePolicy_raw default_id_named)
qed

lemma macPattern_trimmed: "macPattern s \<Longrightarrow> trimmed s"
proof (rule trimmed_printable)
  assume m: "macPattern s"
  then have len: "length s = 17" by (simp add: macPattern_def)
  have "is_hex (s ! 0)" "is_hex (s ! 16)"
    using m by (auto simp: macPattern_def list_all_iff dest: bspec [of _ _ 0] bspec [of _ _ 16])
  moreover from len have "s \<noteq> []" by auto
  ultimately show "s \<noteq> []" "printable (hd s)" "printable (last s)"
    using len by (auto simp: hd_conv_nth last_conv_nth is_hex_def printable_def Let_def)
qed

lemma parse_cidrs_raw:
  assumes "tc_lib_ok lib" "\<forall>x \<in> set xs. \<exists>s q. lib_ParsePrefix lib s = Some q \<and> x = Masked q"
  shows "mapR (parse_cidr lib ident) (map (lib_PrefixString lib) xs) = Inr xs"
  using assms(2)
  by (intro mapR_map)
    (auto simp: parse_cidr_def TrimSpace_trimmed tc_lib_okD(2) [OF assms(1)] dest!: bspec
      dest: tc_lib_okD(1) [OF assms(1)])

definition raw_device :: "tc_lib \<Rightarrow> Policy \<Rightarrow> RawDevicePolicy" where
  "raw_device lib p = \<lparr>rd_Policy = raw_policy p, rd_MAC = p_MAC p,
     rd_SourceCIDRs = map (lib_PrefixString lib) (p_SourceCIDRs p)\<rparr>"

definition raw_rule :: "Policy \<Rightarrow> RawRulePolicy" where
  "raw_rule p = \<lparr>rr_Policy = raw_policy p, rr_Type = rl_Type (p_Rule p),
     rr_Payload = rl_Payload (p_Rule p), rr_Target = rl_Target (p_Rule p)\<rparr>"

definition raw_target :: "Policy \<Rightarrow> RawTargetPolicy" where
  "raw_target p = \<lparr>rt_Policy = raw_policy p, rt_Kind = ts_Kind (p_Target p), rt_Target = ts_Name (p_Target p)\<rparr>"

lemma parse_device_raw:
  assumes lib: "tc_lib_ok lib" and p: "policy_ok lib p" "p_Kind p = PolicyDevice"
  shows "parse_device lib acc (raw_device lib p) = addPolicy acc p"
proof -
  from p have sel: "p_MAC p = [] \<or> macPattern (p_MAC p) \<and> ToLower (p_MAC p) = p_MAC p"
    "p_SourceCIDRs p \<noteq> []" "\<forall>x \<in> set (p_SourceCIDRs p). \<exists>s q. lib_ParsePrefix lib s = Some q \<and> x = Masked q"
    "p_Rule p = zero_rule" "p_Target p = zero_target" and id: "p_ID p \<noteq> []"
    by (auto simp: policy_ok_def selector_ok_def)
  have mac: "(if p_MAC p \<noteq> [] then ToLower (TrimSpace (p_MAC p)) else []) = p_MAC p"
    using sel(1) by (auto simp: TrimSpace_trimmed macPattern_trimmed)
  have p': "p\<lparr>p_Kind := PolicyDevice, p_MAC := [], p_SourceCIDRs := [], p_Rule := zero_rule, p_Target := zero_target\<rparr>
     \<lparr>p_MAC := p_MAC p, p_SourceCIDRs := p_SourceCIDRs p\<rparr> = p"
    using p(2) sel(4,5) by simp
  have nobad: "\<not> (p_MAC p \<noteq> [] \<and> \<not> macPattern (p_MAC p))"
    using sel(1) by blast
  show ?thesis
    using sel(2) id nobad
    by (auto simp: parse_device_def raw_device_def parsePolicy_raw [OF p(1)] mac Let_def default_id_named
        parse_cidrs_raw [OF lib sel(3)] p' [simplified] cong: if_cong)
qed

text \<open>
  The rule type is stable when a second canonicalisation does not change it. Trimming happens before
  dashes, underscores and blanks are removed, so a type such as a dash followed by a tab is not.
\<close>

definition rule_type_stable :: "tc_lib \<Rightarrow> string \<Rightarrow> bool" where
  "rule_type_stable lib ty \<longleftrightarrow> canonicalRuleType lib (canonicalRuleType lib ty) = canonicalRuleType lib ty"

lemma CanonicalRule_idem:
  assumes "tc_lib_ok lib" "rule_type_stable lib ty"
  shows "CanonicalRule lib (rl_Type (CanonicalRule lib ty pl tg)) (rl_Payload (CanonicalRule lib ty pl tg))
     (rl_Target (CanonicalRule lib ty pl tg)) = CanonicalRule lib ty pl tg"
  using assms(2) canonicalPayload_idem [OF assms(1)]
  by (simp add: CanonicalRule_def Let_def rule_type_stable_def)

lemma parse_rule_raw:
  assumes lib: "tc_lib_ok lib" and p: "policy_ok lib p" "p_Kind p = PolicyRule"
    and st: "canonicalRuleType lib (rl_Type (p_Rule p)) = rl_Type (p_Rule p)"
  shows "parse_rule lib acc (raw_rule p) = addPolicy acc p"
proof -
  from p have sel: "\<exists>ty pl tg. p_Rule p = CanonicalRule lib ty pl tg" and r: "rl_Type (p_Rule p) \<noteq> []"
    "rl_Target (p_Rule p) \<noteq> []" "p_MAC p = []" "p_SourceCIDRs p = []" "p_Target p = zero_target"
    by (simp_all add: policy_ok_def selector_ok_def)
  from sel obtain ty pl tg where rule: "p_Rule p = CanonicalRule lib ty pl tg" by blast
  have id: "p_ID p \<noteq> []" using p(1) by (auto simp: policy_ok_def)
  from rule st have "rule_type_stable lib ty"
    by (simp add: CanonicalRule_def Let_def rule_type_stable_def)
  from CanonicalRule_idem [OF lib this] rule
  have c: "CanonicalRule lib (rl_Type (p_Rule p)) (rl_Payload (p_Rule p)) (rl_Target (p_Rule p)) = p_Rule p"
    by simp
  have p': "p\<lparr>p_Kind := PolicyRule, p_MAC := [], p_SourceCIDRs := [], p_Rule := p_Rule p, p_Target := zero_target\<rparr> = p"
    using p(2) r by simp
  show ?thesis
    using r(1,2) id
    by (simp add: parse_rule_def raw_rule_def parsePolicy_raw [OF p(1)] c Let_def default_id_named p' [simplified])
qed

lemma parse_target_raw:
  assumes p: "policy_ok lib p" "p_Kind p = PolicyTarget"
  shows "parse_target lib acc (raw_target p) = addPolicy acc p"
proof -
  obtain t where t: "p_Target p = t" by simp
  from p t have k: "ts_Kind t = ''proxy'' \<or> ts_Kind t = ''group''" "ts_Name t \<noteq> []" "trimmed (ts_Name t)"
    "p_MAC p = []" "p_SourceCIDRs p = []" "p_Rule p = zero_rule" and id: "p_ID p \<noteq> []"
    by (auto simp: policy_ok_def selector_ok_def)
  have kind: "ToLower (TrimSpace (ts_Kind t)) = ts_Kind t"
  proof -
    have "trimmed (ts_Kind t)"
      using k(1) by (auto intro!: trimmed_printable simp: printable_def)
    with k(1) show ?thesis by (auto simp: TrimSpace_trimmed ToLower_def lower_char_def)
  qed
  have p': "p\<lparr>p_Kind := PolicyTarget, p_MAC := [], p_SourceCIDRs := [], p_Rule := zero_rule,
      p_Target := \<lparr>ts_Kind = ts_Kind t, ts_Name = ts_Name t\<rparr>\<rparr> = p"
    using p(2) k(4-6) t by simp
  show ?thesis
    using k(1,2) id
    by (auto simp: parse_target_def raw_target_def parsePolicy_raw [OF p(1)] kind t Let_def default_id_named
        TrimSpace_trimmed k(3) p' [simplified])
qed

lemma foldR_raw:
  assumes "\<And>acc p. p \<in> set ps \<Longrightarrow> f acc (g p) = addPolicy acc p"
  shows "foldR f acc (map g ps) = foldR addPolicy acc ps"
  using assms
proof (induction ps arbitrary: acc)
  case (Cons p ps)
  then show ?case by (cases "addPolicy acc p") auto
qed simp

lemma foldl_Raw_step:
  "list_all (\<lambda>p. p_Kind p = PolicyDevice) ds \<Longrightarrow>
     foldl (Raw_step lib) raw ds = raw\<lparr>rc_Devices := rc_Devices raw @ map (raw_device lib) ds\<rparr>"
  "list_all (\<lambda>p. p_Kind p = PolicyRule) rs \<Longrightarrow>
     foldl (Raw_step lib) raw rs = raw\<lparr>rc_Rules := rc_Rules raw @ map raw_rule rs\<rparr>"
  "list_all (\<lambda>p. p_Kind p = PolicyTarget) ts \<Longrightarrow>
     foldl (Raw_step lib) raw ts = raw\<lparr>rc_Targets := rc_Targets raw @ map raw_target ts\<rparr>"
  by (induction ds arbitrary: raw, auto simp: Raw_step_def raw_device_def)
    (induction rs arbitrary: raw, auto simp: Raw_step_def raw_rule_def,
     induction ts arbitrary: raw, auto simp: Raw_step_def raw_target_def)

lemma formatFlexibleDuration_trimmed: "trimmed (formatFlexibleDuration d)"
  by (simp add: formatFlexibleDuration_def Let_def trimmed_number_unit)

lemma parseOptional_format:
  assumes "0 < d" "d \<le> max_int64" "d mod Minute = 0"
  shows "parseOptionalDuration (formatFlexibleDuration d) fb = Inr d"
  using assms
  by (simp add: parseOptionalDuration_def TrimSpace_trimmed formatFlexibleDuration_trimmed
      formatFlexibleDuration_nonempty parse_format_exact)

lemma parseRetention_format:
  assumes "24 * Hour \<le> d" "d \<le> 10 * 365 * (24 * Hour)" "d mod Minute = 0"
  shows "parseRetention n (formatFlexibleDuration d) cur = Inr d"
proof -
  have "0 < d" "d \<le> max_int64" using assms by (auto simp: time_units)
  with assms show ?thesis
    by (simp add: parseRetention_def formatFlexibleDuration_nonempty parse_format_exact)
qed

lemma parseReports_format:
  assumes "reports_ok r"
  shows "parseReports \<lparr>rs_Enabled = Some (r_Enabled r),
                 rs_HourlyRetention = formatFlexibleDuration (r_HourlyRetention r),
                 rs_DailyRetention = formatFlexibleDuration (r_DailyRetention r),
                 rs_MonthlyRetention = formatFlexibleDuration (r_MonthlyRetention r),
                 rs_OrphanRetention = formatFlexibleDuration (r_OrphanRetention r)\<rparr> = Inr r"
  using assms by (simp add: parseReports_def reports_ok_def parseRetention_format)

lemma requested_store_trimmed: "trimmed (requested_store raw) \<and> requested_store raw \<noteq> []"
proof -
  have "trimmed ''traffic-control.db''" by (rule trimmed_printable) (simp_all add: printable_def)
  then show ?thesis by (simp add: requested_store_def Let_def)
qed

lemma requested_store_stable:
  assumes "rc_Store r = s" "trimmed s" "s \<noteq> []"
  shows "requested_store r = s"
  using assms by (simp add: requested_store_def TrimSpace_trimmed)

lemma store_limit_stable:
  assumes "rc_MaxStoreSize r = n" "n \<noteq> 0"
  shows "store_limit r = n"
  using assms by (simp add: store_limit_def)

lemma ParseConfig_config_ok:
  assumes "ParseConfig lib (Some resolve) (Some raw) = Inr (Some c)"
  shows "config_ok lib c"
proof -
  from assms obtain store ck reports acc where
    ck: "Minute \<le> ck" "ck \<le> Hour" "4194304 \<le> store_limit raw" "store_limit raw \<le> 1073741824"
    and rep: "parseReports (rc_Reports raw) = Inr reports"
    and cnt: "policy_count raw \<le> maxTrafficControlPolicies" and pol: "parse_policies lib raw = Inr acc"
    and c: "c = \<lparr>c_Enabled = True, c_StorePath = lib_Clean lib store,
              c_requestedStore = requested_store raw, c_CheckpointInterval = ck,
              c_MaxStoreSize = store_limit raw, c_Portal = rc_Portal raw,
              c_Reports = reports, c_Policies = fst acc\<rparr>"
    by (auto simp: ParseConfig_Inr_iff)
  from pol obtain gs ds rs ts where
    add: "foldR addPolicy ([], []) (gs @ ds @ rs @ ts) = Inr acc" and
    len: "length gs = (if rc_Global raw \<noteq> None then 1 else 0)" "length ds = length (rc_Devices raw)"
      "length rs = length (rc_Rules raw)" "length ts = length (rc_Targets raw)" and
    ok: "list_all (\<lambda>p. p_Kind p = PolicyGlobal \<and> policy_ok lib p) gs"
      "list_all (\<lambda>p. p_Kind p = PolicyDevice \<and> policy_ok lib p) ds"
      "list_all (\<lambda>p. p_Kind p = PolicyRule \<and> policy_ok lib p) rs"
      "list_all (\<lambda>p. p_Kind p = PolicyTarget \<and> policy_ok lib p) ts"
    by (rule parse_policies_structure)
  from add have ps: "fst acc = gs @ ds @ rs @ ts" "distinct (map p_ID (fst acc))"
    by (simp_all add: foldR_addPolicy)
  from ps(1) len cnt have "length (fst acc) \<le> maxTrafficControlPolicies"
    by (simp add: policy_count_def split: if_splits)
  moreover from ps(1) ok have "list_all (policy_ok lib) (fst acc)"
    by (auto simp: list_all_iff)
  ultimately show ?thesis
    using c ck ps(2) parseReports_ok [OF rep] by (simp add: config_ok_def)
qed

lemma parse_policies_raw:
  assumes lib: "tc_lib_ok lib"
    and kinds: "list_all (\<lambda>p. p_Kind p = PolicyGlobal \<and> policy_ok lib p) gs" "length gs \<le> 1"
      "list_all (\<lambda>p. p_Kind p = PolicyDevice \<and> policy_ok lib p) ds"
      "list_all (\<lambda>p. p_Kind p = PolicyRule \<and> policy_ok lib p) rs"
      "list_all (\<lambda>p. p_Kind p = PolicyTarget \<and> policy_ok lib p) ts"
    and st: "\<forall>p \<in> set rs. canonicalRuleType lib (rl_Type (p_Rule p)) = rl_Type (p_Rule p)"
    and raw: "rc_Global raw = map_option raw_policy (if gs = [] then None else Some (hd gs))"
      "rc_Devices raw = map (raw_device lib) ds" "rc_Rules raw = map raw_rule rs"
      "rc_Targets raw = map raw_target ts"
  shows "parse_policies lib raw = foldR addPolicy ([], []) (gs @ ds @ rs @ ts)"
proof -
  have g: "(case rc_Global raw of None \<Rightarrow> Inr ([], []) | Some g \<Rightarrow> parse_global ([], []) g)
    = foldR addPolicy ([], []) gs"
  proof (cases gs)
    case (Cons g gs')
    with kinds(1,2) raw(1) show ?thesis
      by (cases "addPolicy ([], []) g") (auto simp: parse_global_raw)
  qed (use raw(1) in auto)
  have "foldR (parse_device lib) acc (map (raw_device lib) ds) = foldR addPolicy acc ds" for acc
    using kinds(3) by (intro foldR_raw) (auto simp: list_all_iff parse_device_raw [OF lib])
  moreover have "foldR (parse_rule lib) acc (map raw_rule rs) = foldR addPolicy acc rs" for acc
    using kinds(4) st by (intro foldR_raw) (auto simp: list_all_iff parse_rule_raw [OF lib])
  moreover have "foldR (parse_target lib) acc (map raw_target ts) = foldR addPolicy acc ts" for acc
    using kinds(5) by (intro foldR_raw) (auto simp: list_all_iff parse_target_raw)
  ultimately show ?thesis
    using g raw(2-4) by (simp add: parse_policies_def foldR_append)
qed

lemma Raw_fields:
  assumes "c_Enabled c" "c_Policies c = gs @ ds @ rs @ ts" "length gs \<le> 1"
    and kinds: "list_all (\<lambda>p. p_Kind p = PolicyGlobal) gs" "list_all (\<lambda>p. p_Kind p = PolicyDevice) ds"
      "list_all (\<lambda>p. p_Kind p = PolicyRule) rs" "list_all (\<lambda>p. p_Kind p = PolicyTarget) ts"
  shows "Raw lib (Some c) = \<lparr>rc_Enabled = True,
     rc_Store = (if c_requestedStore c = [] then c_StorePath c else c_requestedStore c),
     rc_CheckpointInterval = formatFlexibleDuration (c_CheckpointInterval c),
     rc_MaxStoreSize = c_MaxStoreSize c, rc_Portal = c_Portal c,
     rc_Reports = \<lparr>rs_Enabled = Some (r_Enabled (c_Reports c)),
                 rs_HourlyRetention = formatFlexibleDuration (r_HourlyRetention (c_Reports c)),
                 rs_DailyRetention = formatFlexibleDuration (r_DailyRetention (c_Reports c)),
                 rs_MonthlyRetention = formatFlexibleDuration (r_MonthlyRetention (c_Reports c)),
                 rs_OrphanRetention = formatFlexibleDuration (r_OrphanRetention (c_Reports c))\<rparr>,
     rc_Global = map_option raw_policy (if gs = [] then None else Some (hd gs)),
     rc_Devices = map (raw_device lib) ds, rc_Rules = map raw_rule rs, rc_Targets = map raw_target ts\<rparr>"
proof -
  have "foldl (Raw_step lib) r gs = r\<lparr>rc_Global := (if gs = [] then rc_Global r else Some (raw_policy (hd gs)))\<rparr>" for r
    using assms(3) kinds(1) by (cases gs) (auto simp: Raw_step_def)
  then show ?thesis
    using assms by (simp add: Raw_def foldl_Raw_step empty_raw_def)
qed

subsection \<open>A concrete library and document\<close>

text \<open>
  An instance of the library parameters: ASCII case conversion, a digest that is constant and a
  prefix syntax with the single prefix \<^verbatim>\<open>10.0.0.0/8\<close>. The properties are evaluated on it.
\<close>

definition ten_net :: nprefix where
  "ten_net = \<lparr>pf_Addr = V4 0x0A000000, pf_Bits = 8\<rparr>"

definition sample_lib :: tc_lib where
  "sample_lib = \<lparr>lib_lower = ToLower, lib_upper = ToUpper,
     lib_sha256_hex = (\<lambda>s. ''0123456789abcdef0123''),
     lib_ParsePrefix = (\<lambda>s. if s = ''10.0.0.0/8'' then Some ten_net else None),
     lib_PrefixString = (\<lambda>p. ''10.0.0.0/8''), lib_Clean = (\<lambda>s. s)\<rparr>"

definition sample_raw_policy :: "string \<Rightarrow> RawPolicy" where
  "sample_raw_policy n = \<lparr>rp_ID = n, rp_Name = ''  phone '', rp_Enabled = None, rp_UploadBPS = 1000,
     rp_DownloadBPS = 0, rp_Quota = \<lparr>rq_TotalBytes = 5000000, rq_UploadBytes = 0, rq_DownloadBytes = 0,
       rq_Window = '' 1D12h'', rq_OverageUploadBPS = 0, rq_OverageDownloadBPS = 9, rq_Portal = None\<rparr>\<rparr>"

definition sample_raw :: RawConfig where
  "sample_raw = \<lparr>rc_Enabled = True, rc_Store = '' '', rc_CheckpointInterval = ''10m'', rc_MaxStoreSize = 0,
     rc_Portal = \<lparr>pc_Listen = [], pc_URL = []\<rparr>, rc_Reports = empty_reports,
     rc_Global = Some (sample_raw_policy []),
     rc_Devices = [\<lparr>rd_Policy = sample_raw_policy ''phone'', rd_MAC = [], rd_SourceCIDRs = ['' 10.0.0.0/8'']\<rparr>],
     rc_Rules = [\<lparr>rr_Policy = sample_raw_policy [], rr_Type = ''domain-suffix'',
        rr_Payload = '' Example.COM'', rr_Target = ''DIRECT ''\<rparr>],
     rc_Targets = [\<lparr>rt_Policy = sample_raw_policy [], rt_Kind = ''Group'', rt_Target = ''auto''\<rparr>]\<rparr>"

definition sample_quota :: QuotaConfig where
  "sample_quota = \<lparr>q_TotalBytes = 5000000, q_UploadBytes = 0, q_DownloadBytes = 0, q_Window = 36 * Hour,
     q_OverageUploadBPS = 64000, q_OverageDownloadBPS = 9, q_Portal = True\<rparr>"

definition sample_parsed_policy :: "string \<Rightarrow> PolicyKind \<Rightarrow> nprefix list \<Rightarrow> RuleSelector \<Rightarrow> TargetSelector \<Rightarrow> Policy" where
  "sample_parsed_policy i k cs r t = \<lparr>p_ID = i, p_Name = ''phone'', p_Kind = k, p_Enabled = True, p_UploadBPS = 1000,
     p_DownloadBPS = 0, p_Quota = sample_quota, p_MAC = [], p_SourceCIDRs = cs, p_Rule = r, p_Target = t\<rparr>"

definition sample_config :: Config where
  "sample_config = \<lparr>c_Enabled = True, c_StorePath = ''traffic-control.db'', c_requestedStore = ''traffic-control.db'',
     c_CheckpointInterval = 10 * Minute, c_MaxStoreSize = 67108864, c_Portal = \<lparr>pc_Listen = [], pc_URL = []\<rparr>,
     c_Reports = \<lparr>r_Enabled = True, r_HourlyRetention = DefaultHourlyRetention, r_DailyRetention = DefaultDailyRetention,
       r_MonthlyRetention = DefaultMonthlyRetention, r_OrphanRetention = DefaultOrphanRetention\<rparr>,
     c_Policies = [sample_parsed_policy ''global'' PolicyGlobal [] zero_rule zero_target,
       sample_parsed_policy ''phone'' PolicyDevice [ten_net] zero_rule zero_target,
       sample_parsed_policy ''rule-0123456789abcdef'' PolicyRule []
         \<lparr>rl_Type = ''DOMAINSUFFIX'', rl_Payload = ''example.com'', rl_Target = ''DIRECT'',
          rl_Fingerprint = ''0123456789abcdef0123''\<rparr> zero_target,
       sample_parsed_policy ''target-0123456789abcdef'' PolicyTarget [] zero_rule \<lparr>ts_Kind = ''group'', ts_Name = ''auto''\<rparr>]\<rparr>"

lemma sample_lib_ok: "tc_lib_ok sample_lib"
proof -
  have "Masked ten_net = ten_net" by code_simp
  moreover have "trimmed ''10.0.0.0/8''" by (rule trimmed_printable) (simp_all add: printable_def)
  ultimately show ?thesis by (auto simp: tc_lib_ok_def sample_lib_def trimmed_ToLower)
qed

lemma sample_parses: "ParseConfig sample_lib (Some Some) (Some sample_raw) = Inr (Some sample_config)"
  by code_simp

lemma rule_type_unstable:
  "canonicalRuleType sample_lib (CHR ''-'' # CHR 0x09 # ''domain'') = CHR 0x09 # ''DOMAIN''"
  "canonicalRuleType sample_lib (CHR 0x09 # ''DOMAIN'') = ''DOMAIN''"
  by code_simp+

subsection \<open>Properties\<close>



text \<open>
  C11. A configuration that \<^verbatim>\<open>ParseConfig\<close> accepts is well formed: at most 256 policies with distinct
  identifiers that match the identifier syntax, rates and quotas that are not negative, a window of
  one hour to 365 days exactly when there is a quota, overage rates that are positive then, selectors
  that fit the kind of each policy, a checkpoint interval of one minute to one hour and a store size
  of 4 MiB to 1 GiB.
\<close>

theorem ParseConfig_wellformed:
  assumes "ParseConfig lib (Some resolve) (Some raw) = Inr (Some c)"
  shows "config_ok lib c"
  using assms by (rule ParseConfig_config_ok)

theorem ParseConfig_wellformed_witness:
  "ParseConfig sample_lib (Some Some) (Some sample_raw) = Inr (Some sample_config)
   \<and> config_ok sample_lib sample_config"
  using ParseConfig_wellformed [OF sample_parses] sample_parses by simp

end
