(* ===== verification/TC_Quota.thy ===== *)
theory TC_Quota
  imports TC_Config
begin

section \<open>Traffic control: counters, buckets and quotas\<close>

text \<open>
  The accounting of one policy in \<^verbatim>\<open>component/trafficcontrol/manager.go\<close>: the cumulative counters,
  the buckets of the sliding quota window with their cached sum, the lazy removal of expired buckets
  and the detection of a quota that is exceeded. Byte counts are machine words; a time is the number
  of nanoseconds since the epoch, and \<^verbatim>\<open>Unix\<close> is its second.
\<close>

subsection \<open>Counters\<close>

datatype Direction = Upload | Download

record Counters =
  ct_UploadBytes :: int64
  ct_DownloadBytes :: int64
  ct_Connections :: int64
  ct_ExceededEvents :: int64

definition zero_counters :: Counters where
  "zero_counters = \<lparr>ct_UploadBytes = 0, ct_DownloadBytes = 0, ct_Connections = 0, ct_ExceededEvents = 0\<rparr>"

definition counters_add :: "Direction \<Rightarrow> int64 \<Rightarrow> Counters \<Rightarrow> Counters" where
  "counters_add direction bytes c =
     (if direction = Upload then c\<lparr>ct_UploadBytes := ct_UploadBytes c + bytes\<rparr>
      else c\<lparr>ct_DownloadBytes := ct_DownloadBytes c + bytes\<rparr>)"

definition TotalBytes :: "Counters \<Rightarrow> int64" where
  "TotalBytes c = ct_UploadBytes c + ct_DownloadBytes c"

definition addCounters :: "Counters \<Rightarrow> Counters \<Rightarrow> Counters" where
  "addCounters left right =
     left\<lparr>ct_UploadBytes := ct_UploadBytes left + ct_UploadBytes right,
          ct_DownloadBytes := ct_DownloadBytes left + ct_DownloadBytes right,
          ct_Connections := ct_Connections left + ct_Connections right,
          ct_ExceededEvents := ct_ExceededEvents left + ct_ExceededEvents right\<rparr>"

subsection \<open>The state of a policy\<close>

type_synonym buckets = "(int, Counters) gomap"

record policyState =
  ps_ID :: string
  ps_Identity :: string
  ps_Generation :: "64 word"
  ps_Counters :: Counters
  ps_Buckets :: buckets
  ps_rolling :: Counters
  ps_bucketStart :: int
  ps_nextCutoff :: int
  ps_OverQuota :: bool
  ps_Active :: int64
  ps_LastUpdated :: int
  ps_LastReset :: int
  ps_LastSeen :: int

text \<open>
  A runtime policy refers to its state by address, since the state is shared with the state map of
  the manager and with the sessions. A limiter is given by its rate in bytes per second and its burst.
\<close>

record runtimePolicy =
  pol_spec :: Policy
  pol_state :: nat
  pol_upload :: "(int \<times> int) option"
  pol_download :: "(int \<times> int) option"
  pol_overageUpload :: "(int \<times> int) option"
  pol_overageDownload :: "(int \<times> int) option"
  pol_bucketWidthSecs :: int
  pol_dimension :: string

definition Unix :: "int \<Rightarrow> int" where
  "Unix t = t div Second"

subsection \<open>Buckets\<close>

definition Round :: "int \<Rightarrow> int \<Rightarrow> int" where
  "Round d m = (let r = d smod m in if r + r < m then d - r else d + (m - r))"

definition quotaBucketWidth :: "int \<Rightarrow> int" where
  "quotaBucketWidth window =
     (let width = (window + 1023) sdiv 1024;
          width = (if width < Minute then Minute else width)
      in Round width Second)"

definition quotaBucketWidthSecs :: "int \<Rightarrow> int" where
  "quotaBucketWidthSecs window =
     (let secs = quotaBucketWidth window sdiv Second in if secs < 1 then 1 else secs)"

definition newLimiter :: "int \<Rightarrow> (int \<times> int) option" where
  "newLimiter bitsPerSecond =
     (if bitsPerSecond \<le> 0 then None
      else let bytesPerSecond = bitsPerSecond sdiv 8;
               bytesPerSecond = (if bytesPerSecond < 1 then 1 else bytesPerSecond)
           in Some (bytesPerSecond, 65536))"

definition sumBuckets :: "buckets \<Rightarrow> Counters" where
  "sumBuckets bs = foldl (\<lambda>r (k, c).
     r\<lparr>ct_UploadBytes := ct_UploadBytes r + ct_UploadBytes c,
       ct_DownloadBytes := ct_DownloadBytes r + ct_DownloadBytes c\<rparr>) zero_counters bs"

definition prune_step :: "int \<Rightarrow> int \<Rightarrow> policyState \<times> int \<Rightarrow> int \<times> Counters \<Rightarrow> policyState \<times> int" where
  "prune_step width cutoff acc entry =
     (let (state, next) = acc; (key, counters) = entry; expireAt = key + width in
      if expireAt \<le> cutoff
      then (state\<lparr>ps_rolling := (ps_rolling state)
              \<lparr>ct_UploadBytes := ct_UploadBytes (ps_rolling state) - ct_UploadBytes counters,
               ct_DownloadBytes := ct_DownloadBytes (ps_rolling state) - ct_DownloadBytes counters\<rparr>,
              ps_Buckets := mdel key (ps_Buckets state)\<rparr>, next)
      else (state, if expireAt < next then expireAt else next))"

definition pruneBucketsLocked :: "runtimePolicy \<Rightarrow> policyState \<Rightarrow> int \<Rightarrow> policyState" where
  "pruneBucketsLocked p state cutoff =
     (let (state, next) =
        foldl (prune_step (pol_bucketWidthSecs p) cutoff) (state, max_int64) (ps_Buckets state)
      in state\<lparr>ps_nextCutoff := next\<rparr>)"

subsection \<open>Quotas\<close>

definition quotaExceeded :: "QuotaConfig \<Rightarrow> Counters \<Rightarrow> bool" where
  "quotaExceeded quota c \<longleftrightarrow>
     q_TotalBytes quota > 0 \<and> sint (TotalBytes c) \<ge> q_TotalBytes quota
   \<or> q_UploadBytes quota > 0 \<and> sint (ct_UploadBytes c) \<ge> q_UploadBytes quota
   \<or> q_DownloadBytes quota > 0 \<and> sint (ct_DownloadBytes c) \<ge> q_DownloadBytes quota"

definition policy_cutoff :: "runtimePolicy \<Rightarrow> int \<Rightarrow> int" where
  "policy_cutoff p now = Unix (now - q_Window (p_Quota (pol_spec p)))"

definition refreshQuota :: "runtimePolicy \<Rightarrow> int \<Rightarrow> policyState \<Rightarrow> policyState" where
  "refreshQuota p now state =
     (if pol_bucketWidthSecs p \<le> 0 then state\<lparr>ps_OverQuota := False\<rparr>
      else let state = pruneBucketsLocked p state (policy_cutoff p now) in
        state\<lparr>ps_OverQuota := quotaExceeded (p_Quota (pol_spec p)) (ps_rolling state)\<rparr>)"

text \<open>The three parts of the bucket update of \<^verbatim>\<open>record\<close>: its key, pruning when it is due, and the addition.\<close>

definition bucket_key :: "runtimePolicy \<Rightarrow> int \<Rightarrow> int" where
  "bucket_key p now = Unix now sdiv pol_bucketWidthSecs p * pol_bucketWidthSecs p"

definition prune_if_due :: "runtimePolicy \<Rightarrow> int \<Rightarrow> policyState \<Rightarrow> policyState" where
  "prune_if_due p now state =
     (let start = bucket_key p now; cutoff = policy_cutoff p now in
      if start \<noteq> ps_bucketStart state \<or> cutoff \<ge> ps_nextCutoff state
      then (pruneBucketsLocked p state cutoff)\<lparr>ps_bucketStart := start\<rparr> else state)"

definition bucket_add :: "runtimePolicy \<Rightarrow> Direction \<Rightarrow> int64 \<Rightarrow> int \<Rightarrow> policyState \<Rightarrow> policyState" where
  "bucket_add p direction bytes start state =
     (let exists = (mget (ps_Buckets state) start \<noteq> None);
          bucket = (case mget (ps_Buckets state) start of Some b \<Rightarrow> b | None \<Rightarrow> zero_counters);
          expireAt = start + pol_bucketWidthSecs p
      in state\<lparr>ps_nextCutoff := (if \<not> exists \<and> expireAt < ps_nextCutoff state then expireAt else ps_nextCutoff state),
           ps_Buckets := mset' start (counters_add direction bytes bucket) (ps_Buckets state),
           ps_rolling := counters_add direction bytes (ps_rolling state)\<rparr>)"

definition record_bucket :: "runtimePolicy \<Rightarrow> Direction \<Rightarrow> int64 \<Rightarrow> int \<Rightarrow> policyState \<Rightarrow> policyState" where
  "record_bucket p direction bytes now state =
     bucket_add p direction bytes (bucket_key p now) (prune_if_due p now state)"

definition policy_record :: "runtimePolicy \<Rightarrow> Direction \<Rightarrow> int64 \<Rightarrow> int \<Rightarrow> policyState \<Rightarrow> policyState \<times> bool" where
  "policy_record p direction bytes now state =
     (let state = state\<lparr>ps_Counters := counters_add direction bytes (ps_Counters state),
            ps_LastUpdated := Unix now, ps_LastSeen := Unix now\<rparr>;
          state = (if pol_bucketWidthSecs p > 0 then record_bucket p direction bytes now state else state);
          rolling = (if pol_bucketWidthSecs p > 0 then ps_rolling state else ps_Counters state);
          over = quotaExceeded (p_Quota (pol_spec p)) rolling;
          previous = ps_OverQuota state;
          state = state\<lparr>ps_OverQuota := over\<rparr>;
          state = (if over \<and> \<not> previous
                   then state\<lparr>ps_Counters := (ps_Counters state)
                          \<lparr>ct_ExceededEvents := ct_ExceededEvents (ps_Counters state) + 1\<rparr>\<rparr>
                   else state)
      in (state, over \<and> \<not> previous))"

definition newRuntimePolicy :: "Policy \<Rightarrow> nat \<Rightarrow> policyState \<Rightarrow> runtimePolicy \<times> policyState" where
  "newRuntimePolicy spec a state =
     (let window = q_Window (p_Quota spec);
          kind = (case p_Kind spec of PolicyGlobal \<Rightarrow> ''global'' | PolicyDevice \<Rightarrow> ''device''
                    | PolicyRule \<Rightarrow> ''rule'' | PolicyTarget \<Rightarrow> ''target'');
          policy = \<lparr>pol_spec = spec, pol_state = a,
            pol_upload = newLimiter (p_UploadBPS spec), pol_download = newLimiter (p_DownloadBPS spec),
            pol_overageUpload = newLimiter (q_OverageUploadBPS (p_Quota spec)),
            pol_overageDownload = newLimiter (q_OverageDownloadBPS (p_Quota spec)),
            pol_bucketWidthSecs = (if window > 0 then quotaBucketWidthSecs window else 0),
            pol_dimension = kind @ '':'' @ p_ID spec\<rparr>
      in (policy, if window > 0 then state\<lparr>ps_rolling := sumBuckets (ps_Buckets state)\<rparr> else state))"

definition policy_limiter :: "runtimePolicy \<Rightarrow> policyState \<Rightarrow> Direction \<Rightarrow> (int \<times> int) option" where
  "policy_limiter p state direction =
     (if ps_OverQuota state
      then (if direction = Upload then pol_overageUpload p else pol_overageDownload p)
      else (if direction = Upload then pol_upload p else pol_download p))"

subsection \<open>Pruning\<close>

definition bucket_sum :: "(Counters \<Rightarrow> int64) \<Rightarrow> buckets \<Rightarrow> int64" where
  "bucket_sum f bs = (\<Sum>(k, c) \<leftarrow> bs. f c)"

definition live :: "int \<Rightarrow> int \<Rightarrow> int \<Rightarrow> bool" where
  "live width cutoff k \<longleftrightarrow> cutoff < k + width"

abbreviation live_buckets :: "int \<Rightarrow> int \<Rightarrow> buckets \<Rightarrow> buckets" where
  "live_buckets w cutoff bs \<equiv> filter (\<lambda>(k, c). live w cutoff k) bs"

abbreviation dead_buckets :: "int \<Rightarrow> int \<Rightarrow> buckets \<Rightarrow> buckets" where
  "dead_buckets w cutoff bs \<equiv> filter (\<lambda>(k, c). \<not> live w cutoff k) bs"

lemma bucket_sum_simps [simp]:
  "bucket_sum f [] = 0" "bucket_sum f (e # bs) = f (snd e) + bucket_sum f bs"
  "bucket_sum f (bs @ cs) = bucket_sum f bs + bucket_sum f cs"
  by (simp_all add: bucket_sum_def split: prod.split)

lemma bucket_sum_filter: "bucket_sum f (filter P bs) = bucket_sum f bs - bucket_sum f (filter (\<lambda>e. \<not> P e) bs)"
  by (induction bs) auto

lemma prune_fold_rolling:
  "ct_UploadBytes (ps_rolling (fst (foldl (prune_step w cf) (st, n) bs)))
     = ct_UploadBytes (ps_rolling st) - bucket_sum ct_UploadBytes (dead_buckets w cf bs)"
  "ct_DownloadBytes (ps_rolling (fst (foldl (prune_step w cf) (st, n) bs)))
     = ct_DownloadBytes (ps_rolling st) - bucket_sum ct_DownloadBytes (dead_buckets w cf bs)"
  by (induction bs arbitrary: st n) (auto simp: prune_step_def live_def Let_def split: prod.splits)

lemma prune_fold_buckets:
  "ps_Buckets (fst (foldl (prune_step w cf) (st, n) bs))
     = filter (\<lambda>(k, c). k \<notin> fst ` set (dead_buckets w cf bs)) (ps_Buckets st)"
proof (induction bs arbitrary: st n)
  case Nil
  show ?case by simp
next
  case (Cons e bs)
  obtain k c where e: "e = (k, c)" by (cases e)
  show ?case
    unfolding foldl_Cons e
    by (auto simp: prune_step_def Let_def Cons.IH live_def AList.delete_eq intro!: filter_cong)
qed

lemma prune_fold_next:
  "snd (foldl (prune_step w cf) (st, n) bs) \<le> n
   \<and> (\<forall>k \<in> fst ` set (live_buckets w cf bs). snd (foldl (prune_step w cf) (st, n) bs) \<le> k + w)"
proof (induction bs arbitrary: st n)
  case (Cons e bs)
  obtain k c where e: "e = (k, c)" by (cases e)
  obtain st' n' where s: "prune_step w cf (st, n) e = (st', n')" by (cases "prune_step w cf (st, n) e")
  from s have "n' \<le> n" "live w cf k \<Longrightarrow> n' \<le> k + w"
    by (auto simp: e prune_step_def Let_def live_def split: if_splits)
  with Cons.IH [of st' n'] show ?case
    by (simp only: foldl_Cons s) (cases "live w cf k"; simp add: e)
qed simp

lemma prune_fold_frame:
  "\<exists>r b. fst (foldl (prune_step w cf) (st, n) bs) = st\<lparr>ps_rolling := r, ps_Buckets := b\<rparr>"
proof (induction bs arbitrary: st n)
  case Nil
  show ?case by (intro exI [of _ "ps_rolling st"] exI [of _ "ps_Buckets st"]) simp
next
  case (Cons e bs)
  obtain st1 n1 where s: "prune_step w cf (st, n) e = (st1, n1)" by (cases "prune_step w cf (st, n) e")
  then have "st1 = st\<lparr>ps_rolling := ps_rolling st1, ps_Buckets := ps_Buckets st1\<rparr>"
    by (auto simp: prune_step_def Let_def split: prod.splits if_splits)
  then obtain r b where "st1 = st\<lparr>ps_rolling := r, ps_Buckets := b\<rparr>" by blast
  with Cons.IH [of st1 n1] s show ?case by auto
qed

lemma dead_keys:
  assumes "mkeys_ok bs"
  shows "filter (\<lambda>(k, c). k \<notin> fst ` set (dead_buckets w cf bs)) bs = live_buckets w cf bs"
  by (rule filter_cong) (auto simp: image_iff)

lemma prune_spec:
  fixes p :: runtimePolicy and cf :: int
  assumes "mkeys_ok (ps_Buckets st)"
  defines "st' \<equiv> pruneBucketsLocked p st cf" and "w \<equiv> pol_bucketWidthSecs p"
  shows "ps_Buckets st' = live_buckets w cf (ps_Buckets st)"
    and "ct_UploadBytes (ps_rolling st') =
       ct_UploadBytes (ps_rolling st) - bucket_sum ct_UploadBytes (dead_buckets w cf (ps_Buckets st))"
    and "ct_DownloadBytes (ps_rolling st') =
       ct_DownloadBytes (ps_rolling st) - bucket_sum ct_DownloadBytes (dead_buckets w cf (ps_Buckets st))"
    and "\<forall>k \<in> fst ` set (ps_Buckets st'). ps_nextCutoff st' \<le> k + w"
    and "st' = st\<lparr>ps_rolling := ps_rolling st', ps_Buckets := ps_Buckets st', ps_nextCutoff := ps_nextCutoff st'\<rparr>"
proof -
  let ?F = "foldl (prune_step w cf) (st, max_int64) (ps_Buckets st)"
  obtain s n where F: "?F = (s, n)" by (cases ?F)
  have st': "st' = s\<lparr>ps_nextCutoff := n\<rparr>"
    using F by (simp add: st'_def pruneBucketsLocked_def w_def)
  show 1: "ps_Buckets st' = live_buckets w cf (ps_Buckets st)"
    using prune_fold_buckets [of w cf st max_int64 "ps_Buckets st"] F dead_keys [OF assms(1)]
    by (simp add: st')
  show "ct_UploadBytes (ps_rolling st') =
       ct_UploadBytes (ps_rolling st) - bucket_sum ct_UploadBytes (dead_buckets w cf (ps_Buckets st))"
    "ct_DownloadBytes (ps_rolling st') =
       ct_DownloadBytes (ps_rolling st) - bucket_sum ct_DownloadBytes (dead_buckets w cf (ps_Buckets st))"
    using prune_fold_rolling [where st = st and bs = "ps_Buckets st" and w = w and cf = cf and n = max_int64] F
    by (simp_all add: st')
  show "\<forall>k \<in> fst ` set (ps_Buckets st'). ps_nextCutoff st' \<le> k + w"
    using prune_fold_next [where st = st and bs = "ps_Buckets st" and w = w and cf = cf and n = max_int64] F 1
    by (simp add: st')
  show "st' = st\<lparr>ps_rolling := ps_rolling st', ps_Buckets := ps_Buckets st', ps_nextCutoff := ps_nextCutoff st'\<rparr>"
    using prune_fold_frame [of w cf st max_int64 "ps_Buckets st"] F by (auto simp: st')
qed

subsection \<open>The invariant of the window\<close>

text \<open>
  The cached sum is the sum of the buckets, and no bucket expires before the next cutoff. The second
  part is what makes the lazy pruning of \<^verbatim>\<open>record\<close> safe.
\<close>

definition quota_inv :: "runtimePolicy \<Rightarrow> policyState \<Rightarrow> bool" where
  "quota_inv p st \<longleftrightarrow> mkeys_ok (ps_Buckets st)
   \<and> ct_UploadBytes (ps_rolling st) = bucket_sum ct_UploadBytes (ps_Buckets st)
   \<and> ct_DownloadBytes (ps_rolling st) = bucket_sum ct_DownloadBytes (ps_Buckets st)
   \<and> (\<forall>k \<in> fst ` set (ps_Buckets st). ps_nextCutoff st \<le> k + pol_bucketWidthSecs p)"

lemma prune_inv:
  assumes "quota_inv p st"
  shows "quota_inv p (pruneBucketsLocked p st cf)"
proof -
  from assms have ok: "mkeys_ok (ps_Buckets st)" by (simp add: quota_inv_def)
  note sp = prune_spec [OF ok, of p cf]
  have "mkeys_ok (filter P (ps_Buckets st))" for P
    using ok by (rule distinct_map_filter)
  moreover have "bucket_sum f (live_buckets w cf bs) = bucket_sum f bs - bucket_sum f (dead_buckets w cf bs)" for f w bs
    by (induction bs) auto
  ultimately show ?thesis
    using assms sp(1-4) by (simp add: quota_inv_def)
qed

lemma sumBuckets_eq:
  "ct_UploadBytes (sumBuckets bs) = bucket_sum ct_UploadBytes bs"
  "ct_DownloadBytes (sumBuckets bs) = bucket_sum ct_DownloadBytes bs"
proof -
  let ?f = "\<lambda>r (k, c). r\<lparr>ct_UploadBytes := ct_UploadBytes r + ct_UploadBytes c,
       ct_DownloadBytes := ct_DownloadBytes r + ct_DownloadBytes c\<rparr>"
  have "ct_UploadBytes (foldl ?f r bs) = ct_UploadBytes r + bucket_sum ct_UploadBytes bs
    \<and> ct_DownloadBytes (foldl ?f r bs) = ct_DownloadBytes r + bucket_sum ct_DownloadBytes bs" for r :: Counters
    by (induction bs arbitrary: r) auto
  then show "ct_UploadBytes (sumBuckets bs) = bucket_sum ct_UploadBytes bs"
    "ct_DownloadBytes (sumBuckets bs) = bucket_sum ct_DownloadBytes bs"
    by (simp_all add: sumBuckets_def zero_counters_def)
qed

definition counter_of :: "Direction \<Rightarrow> Counters \<Rightarrow> int64" where
  "counter_of d = (if d = Upload then ct_UploadBytes else ct_DownloadBytes)"

lemma counter_of_add [simp]:
  "counter_of d (counters_add e b c) = counter_of d c + (if d = e then b else 0)"
  by (cases d; cases e) (simp_all add: counter_of_def counters_add_def)

lemma counters_add_other [simp]:
  "ct_Connections (counters_add e b c) = ct_Connections c"
  "ct_ExceededEvents (counters_add e b c) = ct_ExceededEvents c"
  by (simp_all add: counters_add_def)

lemma all_Direction: "(\<forall>d. P d) \<longleftrightarrow> P Upload \<and> P Download"
  by (metis Direction.exhaust)

lemma quota_inv_counter:
  "quota_inv p st \<longleftrightarrow> mkeys_ok (ps_Buckets st)
   \<and> (\<forall>d. counter_of d (ps_rolling st) = bucket_sum (counter_of d) (ps_Buckets st))
   \<and> (\<forall>k \<in> fst ` set (ps_Buckets st). ps_nextCutoff st \<le> k + pol_bucketWidthSecs p)"
  by (auto simp: quota_inv_def all_Direction counter_of_def)

text \<open>Adding to the bucket of a key adds to every sum that contains the key.\<close>

lemma bucket_sum_update:
  assumes "mkeys_ok bs"
  shows "bucket_sum (counter_of d) (filter (\<lambda>(k, c). P k) (mset' s (counters_add e b
      (case mget bs s of Some c \<Rightarrow> c | None \<Rightarrow> zero_counters)) bs))
    = bucket_sum (counter_of d) (filter (\<lambda>(k, c). P k) bs) + (if P s \<and> d = e then b else 0)"
  using assms
proof (induction bs)
  case Nil
  have "counter_of d zero_counters = 0" for d by (simp add: counter_of_def zero_counters_def)
  then show ?case by simp
next
  case (Cons x bs)
  obtain k c where x: "x = (k, c)" by (cases x)
  show ?case
  proof (cases "k = s")
    case True
    with Cons.prems x show ?thesis by simp
  next
    case False
    with Cons x show ?thesis by (cases "d = e"; cases "P s") simp_all
  qed
qed

text \<open>
  Pruning is only skipped when no bucket has expired, so the buckets after a record are those an
  eager implementation would keep.
\<close>

lemma lazy_prune:
  assumes inv: "quota_inv p st" and skip: "cf < ps_nextCutoff st"
  shows "live_buckets (pol_bucketWidthSecs p) cf (ps_Buckets st) = ps_Buckets st"
  using assms by (fastforce simp: quota_inv_def live_def filter_id_conv)

text \<open>The window operations leave the rest of the state as it is.\<close>

definition window_frame :: "policyState \<Rightarrow> policyState \<Rightarrow> bool" where
  "window_frame st st' \<longleftrightarrow> ps_ID st' = ps_ID st \<and> ps_Identity st' = ps_Identity st
   \<and> ps_Generation st' = ps_Generation st \<and> ps_Counters st' = ps_Counters st
   \<and> ps_OverQuota st' = ps_OverQuota st \<and> ps_Active st' = ps_Active st
   \<and> ps_LastUpdated st' = ps_LastUpdated st \<and> ps_LastReset st' = ps_LastReset st
   \<and> ps_LastSeen st' = ps_LastSeen st"

lemma prune_frame:
  assumes "mkeys_ok (ps_Buckets st)"
  shows "window_frame st (pruneBucketsLocked p st cf)"
proof -
  obtain r bs m where "pruneBucketsLocked p st cf = st\<lparr>ps_rolling := r, ps_Buckets := bs, ps_nextCutoff := m\<rparr>"
    using prune_spec(5) [OF assms, of p cf] by blast
  then show ?thesis by (simp add: window_frame_def)
qed

lemma prune_if_due_spec:
  assumes inv: "quota_inv p st"
  shows "ps_Buckets (prune_if_due p now st) = live_buckets (pol_bucketWidthSecs p) (policy_cutoff p now) (ps_Buckets st)"
    and "quota_inv p (prune_if_due p now st)"
    and "window_frame st (prune_if_due p now st)"
proof -
  from inv have ok: "mkeys_ok (ps_Buckets st)" by (simp add: quota_inv_def)
  let ?cf = "policy_cutoff p now" and ?s = "bucket_key p now"
  show "ps_Buckets (prune_if_due p now st) = live_buckets (pol_bucketWidthSecs p) ?cf (ps_Buckets st)"
    using prune_spec(1) [OF ok, of p ?cf] lazy_prune [OF inv, of ?cf] by (simp add: prune_if_due_def Let_def)
  have "quota_inv p (st\<lparr>ps_bucketStart := x\<rparr>) = quota_inv p st" for st x
    by (simp add: quota_inv_def)
  then show "quota_inv p (prune_if_due p now st)"
    using inv prune_inv [OF inv] by (simp add: prune_if_due_def Let_def)
  show "window_frame st (prune_if_due p now st)"
    using prune_frame [OF ok, of p ?cf] by (simp add: prune_if_due_def Let_def window_frame_def)
qed

lemma bucket_add_inv:
  assumes inv: "quota_inv p st"
  shows "quota_inv p (bucket_add p d b s st)"
proof -
  from inv have ok: "mkeys_ok (ps_Buckets st)" by (simp add: quota_inv_def)
  let ?st = "bucket_add p d b s st" and ?w = "pol_bucketWidthSecs p"
  have n: "ps_nextCutoff ?st \<le> ps_nextCutoff st \<and> ps_nextCutoff ?st \<le> s + ?w"
  proof (cases "mget (ps_Buckets st) s")
    case None
    then show ?thesis by (simp add: bucket_add_def Let_def)
  next
    case (Some c)
    then have "s \<in> fst ` set (ps_Buckets st)" by (force dest: map_of_SomeD)
    with inv have "ps_nextCutoff st \<le> s + ?w" unfolding quota_inv_def by blast
    with Some show ?thesis by (simp add: bucket_add_def Let_def)
  qed
  have "counter_of e (ps_rolling ?st) = bucket_sum (counter_of e) (ps_Buckets ?st)" for e
    using bucket_sum_update [OF ok, of e "\<lambda>_. True" s d b] inv
    by (simp add: bucket_add_def Let_def quota_inv_counter)
  moreover have "mkeys_ok (ps_Buckets ?st)"
    using ok by (simp add: bucket_add_def Let_def gm.invar_update)
  moreover have "ps_nextCutoff ?st \<le> k + ?w" if "k \<in> fst ` set (ps_Buckets ?st)" for k
  proof -
    from that have "k = s \<or> k \<in> fst ` set (ps_Buckets st)"
      using gm.range_keys [OF ok] gm.range_keys [OF gm.invar_update [OF ok]]
      by (auto simp: bucket_add_def Let_def gm.lookup_update)
    with n inv show ?thesis by (force simp: quota_inv_def)
  qed
  ultimately show ?thesis by (simp add: quota_inv_counter)
qed

lemma record_bucket_spec:
  fixes p :: runtimePolicy and now :: int
  assumes inv: "quota_inv p st"
  defines "s \<equiv> bucket_key p now"
    and "kept \<equiv> live_buckets (pol_bucketWidthSecs p) (policy_cutoff p now) (ps_Buckets st)"
  shows "ps_Buckets (record_bucket p d b now st) =
      mset' s (counters_add d b (case mget kept s of Some c \<Rightarrow> c | None \<Rightarrow> zero_counters)) kept"
    and "quota_inv p (record_bucket p d b now st)"
    and "window_frame st (record_bucket p d b now st)"
proof -
  note due = prune_if_due_spec [OF inv, of now]
  show "ps_Buckets (record_bucket p d b now st) =
      mset' s (counters_add d b (case mget kept s of Some c \<Rightarrow> c | None \<Rightarrow> zero_counters)) kept"
    using due(1) by (simp add: record_bucket_def bucket_add_def Let_def s_def kept_def)
  show "quota_inv p (record_bucket p d b now st)"
    unfolding record_bucket_def by (rule bucket_add_inv [OF due(2)])
  show "window_frame st (record_bucket p d b now st)"
    using due(3) by (simp add: record_bucket_def bucket_add_def Let_def window_frame_def)
qed

subsection \<open>One record\<close>

lemma quota_inv_frame:
  assumes "ps_Buckets st' = ps_Buckets st" "ps_rolling st' = ps_rolling st" "ps_nextCutoff st' = ps_nextCutoff st"
  shows "quota_inv p st' = quota_inv p st"
  using assms by (simp add: quota_inv_def)

lemma quota_inv_fresh: "ps_Buckets st = [] \<Longrightarrow> ps_rolling st = zero_counters \<Longrightarrow> quota_inv p st"
  by (simp add: quota_inv_def zero_counters_def)

lemma policy_record_spec:
  assumes inv: "quota_inv p st" and w: "0 < pol_bucketWidthSecs p"
    and rec: "policy_record p d b now st = (st', crossed)"
  shows "quota_inv p st'"
    and "ps_Buckets st' = ps_Buckets (record_bucket p d b now st)"
    and "ps_OverQuota st' = quotaExceeded (p_Quota (pol_spec p)) (ps_rolling st')"
    and "crossed \<longleftrightarrow> ps_OverQuota st' \<and> \<not> ps_OverQuota st"
    and "ps_Counters st' = (counters_add d b (ps_Counters st))
      \<lparr>ct_ExceededEvents := ct_ExceededEvents (ps_Counters st) + (if crossed then 1 else 0)\<rparr>"
proof -
  define st1 where "st1 = st\<lparr>ps_Counters := counters_add d b (ps_Counters st),
            ps_LastUpdated := Unix now, ps_LastSeen := Unix now\<rparr>"
  have inv1: "quota_inv p st1" using inv by (simp add: st1_def quota_inv_def)
  note rb = record_bucket_spec [OF inv1, of d b now] record_bucket_spec(1) [OF inv, of d b now]
  let ?r = "record_bucket p d b now st1"
  have fr: "ps_Counters ?r = ps_Counters st1" "ps_OverQuota ?r = ps_OverQuota st"
    using rb(3) by (simp_all add: window_frame_def st1_def)
  have st': "ps_Buckets st' = ps_Buckets ?r" "ps_rolling st' = ps_rolling ?r" "ps_nextCutoff st' = ps_nextCutoff ?r"
    "ps_OverQuota st' = quotaExceeded (p_Quota (pol_spec p)) (ps_rolling ?r)"
    "crossed = (ps_OverQuota st' \<and> \<not> ps_OverQuota ?r)"
    "ps_Counters st' = (if crossed then (ps_Counters ?r)
       \<lparr>ct_ExceededEvents := ct_ExceededEvents (ps_Counters ?r) + 1\<rparr> else ps_Counters ?r)"
    using rec w by (auto simp: policy_record_def Let_def st1_def [symmetric] split: if_splits)
  show "quota_inv p st'" using rb(2) quota_inv_frame [OF st'(1-3)] by simp
  show "ps_Buckets st' = ps_Buckets (record_bucket p d b now st)"
    using rb(1,4) st'(1) by (simp add: st1_def)
  show "ps_OverQuota st' = quotaExceeded (p_Quota (pol_spec p)) (ps_rolling st')"
    "crossed \<longleftrightarrow> ps_OverQuota st' \<and> \<not> ps_OverQuota st"
    using st'(2,4,5) fr by simp_all
  show "ps_Counters st' = (counters_add d b (ps_Counters st))
      \<lparr>ct_ExceededEvents := ct_ExceededEvents (ps_Counters st) + (if crossed then 1 else 0)\<rparr>"
    using st'(6) fr(1) by (simp add: st1_def)
qed

lemma refreshQuota_inv:
  assumes "quota_inv p st"
  shows "quota_inv p (refreshQuota p now st)"
  using prune_inv [OF assms, of "policy_cutoff p now"] assms
  by (simp add: refreshQuota_def Let_def quota_inv_def)

lemma newRuntimePolicy_inv:
  assumes "mkeys_ok (ps_Buckets st)" "q_Window (p_Quota spec) > 0"
    and "ps_nextCutoff st \<le> 0" "\<forall>k \<in> fst ` set (ps_Buckets st). 0 \<le> k"
    and "newRuntimePolicy spec a st = (p, st')"
  shows "quota_inv p st'"
proof -
  have "0 < pol_bucketWidthSecs p" "ps_Buckets st' = ps_Buckets st" "ps_nextCutoff st' = ps_nextCutoff st"
     "ps_rolling st' = sumBuckets (ps_Buckets st)"
    using assms(2,5) by (auto simp: newRuntimePolicy_def Let_def quotaBucketWidthSecs_def)
  with assms show ?thesis by (force simp: quota_inv_def sumBuckets_eq)
qed

subsection \<open>The window as a ledger of events\<close>

type_synonym usage_event = "int \<times> Direction \<times> int64"

definition event_sum :: "runtimePolicy \<Rightarrow> Direction \<Rightarrow> (int \<Rightarrow> bool) \<Rightarrow> usage_event list \<Rightarrow> int64" where
  "event_sum p d P es = (\<Sum>(t, e, b) \<leftarrow> es. if e = d \<and> P (bucket_key p t) then b else 0)"

definition run_events :: "runtimePolicy \<Rightarrow> policyState \<Rightarrow> usage_event list \<Rightarrow> policyState" where
  "run_events p st es = foldl (\<lambda>st (t, d, b). fst (policy_record p d b t st)) st es"

lemma run_events_simps [simp]:
  "run_events p st [] = st"
  "run_events p st (es @ [(t, d, b)]) = fst (policy_record p d b t (run_events p st es))"
  by (simp_all add: run_events_def)

lemma event_sum_snoc [simp]:
  "event_sum p d P [] = 0"
  "event_sum p d P (es @ [(t, e, b)]) = event_sum p d P es + (if e = d \<and> P (bucket_key p t) then b else 0)"
  by (simp_all add: event_sum_def)

lemma event_sum_cong:
  "(\<And>k. P k = Q k) \<Longrightarrow> event_sum p d P es = event_sum p d Q es"
  by (simp add: event_sum_def)

definition ledger_inv :: "runtimePolicy \<Rightarrow> usage_event list \<Rightarrow> int \<Rightarrow> policyState \<Rightarrow> bool" where
  "ledger_inv p es cf st \<longleftrightarrow> quota_inv p st
   \<and> (\<forall>d P. bucket_sum (counter_of d) (filter (\<lambda>(k, c). P k) (ps_Buckets st))
        = event_sum p d (\<lambda>k. P k \<and> live (pol_bucketWidthSecs p) cf k) es)"

lemma ledger_invD:
  assumes "ledger_inv p es cf st"
  shows "bucket_sum (counter_of d) (filter (\<lambda>(k, c). P k) (ps_Buckets st))
        = event_sum p d (\<lambda>k. P k \<and> live (pol_bucketWidthSecs p) cf k) es"
  using assms unfolding ledger_inv_def by (elim conjE allE [of _ d] allE [of _ P])

lemma ledger_inv_rolling:
  assumes "ledger_inv p es cf st"
  shows "counter_of d (ps_rolling st) = event_sum p d (live (pol_bucketWidthSecs p) cf) es"
proof -
  have "bucket_sum (counter_of d) (filter (\<lambda>(k, c). True) (ps_Buckets st))
      = event_sum p d (\<lambda>k. True \<and> live (pol_bucketWidthSecs p) cf k) es"
    by (rule ledger_invD [OF assms])
  with assms show ?thesis by (simp add: ledger_inv_def quota_inv_counter)
qed

lemma live_mono: "live w cf' k \<Longrightarrow> cf \<le> cf' \<Longrightarrow> live w cf k"
  by (simp add: live_def)

lemma ledger_step:
  assumes inv: "ledger_inv p es cf st" and w: "0 < pol_bucketWidthSecs p"
    and mono: "cf \<le> policy_cutoff p now"
    and now: "live (pol_bucketWidthSecs p) (policy_cutoff p now) (bucket_key p now)"
  shows "ledger_inv p (es @ [(now, d, b)]) (policy_cutoff p now) (fst (policy_record p d b now st))"
proof -
  let ?w = "pol_bucketWidthSecs p" and ?cf = "policy_cutoff p now" and ?s = "bucket_key p now"
  let ?kept = "live_buckets ?w ?cf (ps_Buckets st)"
  obtain st' cr where rec: "policy_record p d b now st = (st', cr)" by (cases "policy_record p d b now st")
  from inv have q: "quota_inv p st" by (simp add: ledger_inv_def)
  note sp = policy_record_spec [OF q w rec] and rb = record_bucket_spec [OF q, of d b now]
  have okk: "mkeys_ok ?kept" using q by (simp add: quota_inv_def distinct_map_filter)
  have "bucket_sum (counter_of e) (filter (\<lambda>(k, c). P k) (ps_Buckets st'))
      = event_sum p e (\<lambda>k. P k \<and> live ?w ?cf k) (es @ [(now, d, b)])" for e P
  proof -
    have "filter (\<lambda>(k, c). P k) ?kept = filter (\<lambda>(k, c). P k \<and> live ?w ?cf k) (ps_Buckets st)"
      by (auto intro: filter_cong)
    moreover have "bucket_sum (counter_of e) (filter (\<lambda>(k, c). P k \<and> live ?w ?cf k) (ps_Buckets st))
        = event_sum p e (\<lambda>k. (P k \<and> live ?w ?cf k) \<and> live ?w cf k) es"
      by (rule ledger_invD [OF inv])
    moreover have "event_sum p e (\<lambda>k. (P k \<and> live ?w ?cf k) \<and> live ?w cf k) es
        = event_sum p e (\<lambda>k. P k \<and> live ?w ?cf k) es"
      using mono by (intro event_sum_cong) (auto intro: live_mono)
    ultimately show ?thesis
      using bucket_sum_update [OF okk, of e P ?s d b] now
      by (simp add: sp(2) rb(1) eq_commute [of d e])
  qed
  then show ?thesis using sp(1) by (simp add: ledger_inv_def rec)
qed

subsection \<open>Times\<close>

lemma Unix_mono: "a \<le> b \<Longrightarrow> Unix a \<le> Unix b"
  by (simp add: Unix_def time_units zdiv_mono1)

lemma bucket_key_bounds:
  assumes "0 \<le> t" "0 < pol_bucketWidthSecs p"
  shows "bucket_key p t \<le> Unix t \<and> Unix t < bucket_key p t + pol_bucketWidthSecs p
    \<and> pol_bucketWidthSecs p dvd bucket_key p t"
proof -
  have "0 \<le> Unix t" using assms(1) by (simp add: Unix_def time_units pos_imp_zdiv_nonneg_iff)
  with assms(2) show ?thesis
    using div_mult_le_self [of "pol_bucketWidthSecs p" "Unix t"] less_div_mult_add [of "pol_bucketWidthSecs p" "Unix t"]
    by (simp add: bucket_key_def)
qed

lemma cutoff_mono: "a \<le> b \<Longrightarrow> policy_cutoff p a \<le> policy_cutoff p b"
  by (simp add: policy_cutoff_def Unix_mono)

lemma live_in_window:
  assumes "0 \<le> t" "0 < pol_bucketWidthSecs p" "now - q_Window (p_Quota (pol_spec p)) \<le> t"
  shows "live (pol_bucketWidthSecs p) (policy_cutoff p now) (bucket_key p t)"
  using bucket_key_bounds [OF assms(1,2)] Unix_mono [OF assms(3)] by (simp add: live_def policy_cutoff_def)

lemma live_not_older:
  assumes "0 \<le> t" "0 < pol_bucketWidthSecs p"
    and "live (pol_bucketWidthSecs p) (policy_cutoff p now) (bucket_key p t)"
  shows "now - q_Window (p_Quota (pol_spec p)) < t + pol_bucketWidthSecs p * Second"
proof -
  let ?x = "now - q_Window (p_Quota (pol_spec p))"
  have "?x div Second + 1 \<le> t div Second + pol_bucketWidthSecs p"
    using bucket_key_bounds [OF assms(1,2)] assms(3) by (simp add: live_def policy_cutoff_def Unix_def)
  then have "(?x div Second + 1) * Second \<le> (t div Second + pol_bucketWidthSecs p) * Second"
    by (rule mult_right_mono) (simp add: time_units)
  moreover have "?x < ?x div Second * Second + Second" "t div Second * Second \<le> t"
    using less_div_mult_add [of Second ?x] div_mult_le_self [of Second t] by (simp_all add: time_units)
  ultimately show ?thesis by (simp add: algebra_simps)
qed

lemma ledger_run:
  assumes fresh: "ps_Buckets st = []" "ps_rolling st = zero_counters"
    and w: "0 < pol_bucketWidthSecs p" "0 \<le> q_Window (p_Quota (pol_spec p))"
    and es: "es \<noteq> []" "sorted (map fst es)" "\<forall>t \<in> fst ` set es. 0 \<le> t"
  shows "ledger_inv p es (policy_cutoff p (fst (last es))) (run_events p st es)"
  using es
proof (induction es rule: rev_induct)
  case (snoc e es)
  obtain t d b where e: "e = (t, d, b)" by (cases e)
  from snoc.prems e have t: "0 \<le> t" by auto
  have now: "live (pol_bucketWidthSecs p) (policy_cutoff p t) (bucket_key p t)"
    using live_in_window [OF t w(1), of t] w(2) by simp
  show ?case
  proof (cases "es = []")
    case True
    have "ledger_inv p [] (policy_cutoff p t) st"
      using quota_inv_fresh [OF fresh] fresh(1) by (simp add: ledger_inv_def)
    from ledger_step [OF this w(1) _ now] show ?thesis
      using run_events_simps(2) [of p st "[]"] by (simp add: e True)
  next
    case False
    with snoc have "ledger_inv p es (policy_cutoff p (fst (last es))) (run_events p st es)"
      by (auto simp: sorted_append)
    moreover have "policy_cutoff p (fst (last es)) \<le> policy_cutoff p t"
      using snoc.prems(2) False e by (intro cutoff_mono) (simp add: sorted_append)
    ultimately show ?thesis using ledger_step [OF _ w(1) _ now] by (simp add: e)
  qed
qed simp

subsection \<open>The width and the number of buckets\<close>

lemma Round_bounds:
  assumes "0 \<le> d" "0 < m"
  shows "m dvd Round d m \<and> 2 * d \<le> 2 * Round d m + m"
proof (cases "d mod m + d mod m < m")
  case True
  have "m dvd d - d mod m" by (simp add: dvd_minus_mod)
  with True assms show ?thesis by (simp add: Round_def Let_def)
next
  case False
  have "d + (m - d mod m) = (d - d mod m) + m" by simp
  moreover have "m dvd d - d mod m" by (simp add: dvd_minus_mod)
  ultimately have "m dvd d + (m - d mod m)" by (metis dvd_add dvd_refl)
  moreover have "2 * (d mod m) \<le> 3 * m" using pos_mod_bound [OF assms(2), of d] assms(2) by linarith
  ultimately show ?thesis using False assms by (simp add: Round_def Let_def)
qed

lemma quotaBucketWidthSecs_bounds:
  assumes "0 \<le> window"
  shows "60 \<le> quotaBucketWidthSecs window \<and> window \<le> (1024 * quotaBucketWidthSecs window + 512) * Second"
proof -
  define d where "d = (if (window + 1023) div 1024 < Minute then Minute else (window + 1023) div 1024)"
  have w1024: "window \<le> 1024 * d"
    using less_div_mult_add [of 1024 "window + 1023"] by (simp add: d_def)
  have d: "Minute \<le> d" "0 \<le> d" by (simp_all add: d_def time_units)
  have r: "Second dvd Round d Second" "2 * d \<le> 2 * Round d Second + Second"
    using Round_bounds [of d Second] d(2) by (simp_all add: time_units)
  then obtain s where s: "Round d Second = Second * s" by (elim dvdE)
  have ge: "60 \<le> s"
  proof (rule ccontr)
    assume "\<not> 60 \<le> s"
    then have "2 * Second * s + Second \<le> 119 * Second" by (simp add: time_units)
    with r(2) d(1) s show False by (simp add: time_units)
  qed
  have "quotaBucketWidth window = Second * s"
    using assms s by (simp add: quotaBucketWidth_def d_def Let_def)
  then have "quotaBucketWidthSecs window = s"
    using ge by (simp add: quotaBucketWidthSecs_def Let_def time_units)
  moreover have "window \<le> (1024 * s + 512) * Second"
    using w1024 r(2) s by (simp add: algebra_simps)
  ultimately show ?thesis using ge by simp
qed

lemma int_div_less: "0 < w \<Longrightarrow> a < q * w \<Longrightarrow> a div w < (q :: int)"
  using div_mult_le_self [of w a] mult_right_mono [of q "a div w" w] by linarith

lemma div_add_le: "0 < w \<Longrightarrow> (a + b) div w \<le> a div w + b div w + (1 :: int)"
proof -
  assume w: "0 < w"
  have "a + b < (a div w + b div w + 2) * w"
    using less_div_mult_add [OF w, of a] less_div_mult_add [OF w, of b] by (simp add: algebra_simps)
  then have "(a + b) div w < a div w + b div w + 2"
    by (rule int_div_less [OF w])
  then show ?thesis by simp
qed

lemma multiples_card:
  fixes w :: int
  assumes "finite K" "0 < w" and K: "\<And>k. k \<in> K \<Longrightarrow> w dvd k \<and> cf < k + w \<and> k \<le> u"
    and "cf \<le> u"
  shows "int (card K) \<le> (u - cf) div w + 2"
proof -
  have "inj_on (\<lambda>k. k div w) K"
    by (rule inj_on_inverseI [where g = "\<lambda>m. m * w"]) (use K in simp)
  then have "card K = card ((\<lambda>k. k div w) ` K)" by (simp add: card_image)
  also have "\<dots> \<le> card {cf div w .. u div w}"
  proof (rule card_mono)
    show "(\<lambda>k. k div w) ` K \<subseteq> {cf div w .. u div w}"
    proof
      fix m assume "m \<in> (\<lambda>k. k div w) ` K"
      then obtain k where k: "k \<in> K" "m = k div w" by blast
      with K have d: "w dvd k" and b: "cf < k + w" "k \<le> u" by blast+
      from d have "m * w = k" using k(2) by simp
      with b(1) have "cf < (m + 1) * w" by (simp only: distrib_right mult_1)
      then have "cf div w < m + 1" by (rule int_div_less [OF assms(2)])
      moreover have "m \<le> u div w" using b(2) assms(2) k(2) by (simp only: zdiv_mono1)
      ultimately show "m \<in> {cf div w .. u div w}" by simp
    qed
  qed simp
  finally have "int (card K) \<le> int (card {cf div w .. u div w})" by (rule zle_int [THEN iffD2])
  also have "\<dots> = u div w - cf div w + 1" using assms by (simp add: zdiv_mono1)
  also have "\<dots> \<le> (u - cf) div w + 2"
  proof -
    have "u div w \<le> (u - cf) div w + cf div w + 1"
      using div_add_le [OF assms(2), of "u - cf" cf] by simp
    then show ?thesis by simp
  qed
  finally show ?thesis .
qed


lemma window_secs:
  assumes "0 \<le> window" "window \<le> n * Second"
  shows "Unix now - Unix (now - window) \<le> n"
proof -
  have "now div Second * Second \<le> now" "now - window < (now - window) div Second * Second + Second"
    using div_mult_le_self [of Second now] less_div_mult_add [of Second "now - window"] by (simp_all add: time_units)
  with assms(2) have "(now div Second - (now - window) div Second) * Second < (n + 1) * Second"
    by (simp add: algebra_simps)
  then have "now div Second - (now - window) div Second < n + 1"
    by (simp add: mult_less_cancel_right time_units)
  then show ?thesis by (simp add: Unix_def)
qed

lemma live_buckets_card:
  assumes "finite K" "0 < window" and K: "\<And>k. k \<in> K \<Longrightarrow>
     quotaBucketWidthSecs window dvd k \<and> live (quotaBucketWidthSecs window) (Unix (now - window)) k \<and> k \<le> Unix now"
  shows "card K \<le> 1034"
proof -
  let ?w = "quotaBucketWidthSecs window" and ?d = "Unix now - Unix (now - window)"
  have w: "60 \<le> ?w" "window \<le> (1024 * ?w + 512) * Second"
    using quotaBucketWidthSecs_bounds [of window] assms(2) by simp_all
  have "int (card K) \<le> ?d div ?w + 2"
    using w(1) assms(2) by (intro multiples_card assms(1)) (use K in \<open>auto simp: live_def intro: Unix_mono\<close>)
  moreover have "?d div ?w < 1033"
  proof (rule int_div_less)
    show "?d < 1033 * ?w"
      using window_secs [OF _ w(2), of now] assms(2) w(1) by linarith
  qed (use w(1) in simp)
  ultimately show ?thesis by linarith
qed

definition keys_upto :: "runtimePolicy \<Rightarrow> int \<Rightarrow> policyState \<Rightarrow> bool" where
  "keys_upto p now st \<longleftrightarrow> (\<forall>k \<in> fst ` set (ps_Buckets st). pol_bucketWidthSecs p dvd k \<and> k \<le> Unix now
     \<and> live (pol_bucketWidthSecs p) (policy_cutoff p now) k)"

lemma keys_upto_record:
  assumes inv: "quota_inv p st" and w: "0 < pol_bucketWidthSecs p" "0 \<le> q_Window (p_Quota (pol_spec p))"
    and now: "0 \<le> now" and k: "\<forall>k \<in> fst ` set (ps_Buckets st). pol_bucketWidthSecs p dvd k \<and> k \<le> Unix now"
  shows "keys_upto p now (fst (policy_record p d b now st))"
proof -
  obtain st' cr where rec: "policy_record p d b now st = (st', cr)" by (cases "policy_record p d b now st")
  let ?kept = "live_buckets (pol_bucketWidthSecs p) (policy_cutoff p now) (ps_Buckets st)"
  have sub: "fst ` set (ps_Buckets st') \<subseteq> insert (bucket_key p now) (fst ` set ?kept)"
    by (simp add: policy_record_spec(2) [OF inv w(1) rec] record_bucket_spec(1) [OF inv] dom_update
        del: set_filter)
  have "live (pol_bucketWidthSecs p) (policy_cutoff p now) (bucket_key p now)"
    using live_in_window [OF now w(1), of now] w(2) by simp
  with bucket_key_bounds [OF now w(1)] have key: "pol_bucketWidthSecs p dvd bucket_key p now \<and> bucket_key p now \<le> Unix now
     \<and> live (pol_bucketWidthSecs p) (policy_cutoff p now) (bucket_key p now)" by blast
  have old: "x \<in> fst ` set ?kept \<Longrightarrow> pol_bucketWidthSecs p dvd x \<and> x \<le> Unix now
     \<and> live (pol_bucketWidthSecs p) (policy_cutoff p now) x" for x
    using k by auto
  show ?thesis unfolding keys_upto_def rec fst_conv
  proof
    fix x assume "x \<in> fst ` set (ps_Buckets st')"
    with sub have "x \<in> insert (bucket_key p now) (fst ` set ?kept)" by (rule subsetD)
    then show "pol_bucketWidthSecs p dvd x \<and> x \<le> Unix now
     \<and> live (pol_bucketWidthSecs p) (policy_cutoff p now) x"
      by (rule insertE) (simp only: key, rule old)
  qed
qed

lemma keys_upto_run:
  assumes fresh: "ps_Buckets st = []" "ps_rolling st = zero_counters"
    and w: "0 < pol_bucketWidthSecs p" "0 \<le> q_Window (p_Quota (pol_spec p))"
    and es: "es \<noteq> []" "sorted (map fst es)" "\<forall>t \<in> fst ` set es. 0 \<le> t"
  shows "keys_upto p (fst (last es)) (run_events p st es)"
  using es
proof (induction es rule: rev_induct)
  case (snoc e es)
  obtain t d b where e: "e = (t, d, b)" by (cases e)
  from snoc.prems e have t: "0 \<le> t" by auto
  show ?case
  proof (cases "es = []")
    case True
    have "keys_upto p t (fst (policy_record p d b t st))"
      using quota_inv_fresh [OF fresh] fresh(1) by (intro keys_upto_record w t) simp_all
    then show ?thesis using run_events_simps(2) [of p st "[]"] by (simp add: e True)
  next
    case False
    with snoc have k: "keys_upto p (fst (last es)) (run_events p st es)"
      by (auto simp: sorted_append)
    have "Unix (fst (last es)) \<le> Unix t"
      using snoc.prems(2) False e by (intro Unix_mono) (simp add: sorted_append)
    with k have "\<forall>k \<in> fst ` set (ps_Buckets (run_events p st es)). pol_bucketWidthSecs p dvd k \<and> k \<le> Unix t"
      unfolding keys_upto_def by (meson order_trans)
    moreover have "quota_inv p (run_events p st es)"
      using ledger_run [OF fresh w False] snoc.prems by (simp add: sorted_append ledger_inv_def)
    ultimately show ?thesis using keys_upto_record [OF _ w t] by (simp add: e)
  qed
qed simp

subsection \<open>Properties\<close>

definition sample_policy :: Policy where
  "sample_policy = \<lparr>p_ID = ''phone'', p_Name = ''phone'', p_Kind = PolicyGlobal, p_Enabled = True,
     p_UploadBPS = 0, p_DownloadBPS = 0,
     p_Quota = \<lparr>q_TotalBytes = 25, q_UploadBytes = 0, q_DownloadBytes = 0, q_Window = Hour,
       q_OverageUploadBPS = 64000, q_OverageDownloadBPS = 256000, q_Portal = True\<rparr>,
     p_MAC = [], p_SourceCIDRs = [], p_Rule = zero_rule, p_Target = zero_target\<rparr>"

definition sample_state :: policyState where
  "sample_state = \<lparr>ps_ID = ''phone'', ps_Identity = [], ps_Generation = 1, ps_Counters = zero_counters,
     ps_Buckets = [], ps_rolling = zero_counters, ps_bucketStart = 0, ps_nextCutoff = 0, ps_OverQuota = False,
     ps_Active = 0, ps_LastUpdated = 0, ps_LastReset = 0, ps_LastSeen = 0\<rparr>"

definition sample_runtime_policy :: runtimePolicy where
  "sample_runtime_policy = fst (newRuntimePolicy sample_policy 0 sample_state)"

definition sample_events :: "usage_event list" where
  "sample_events = [(0, Upload, 10), (1800 * Second, Upload, 20), (4000 * Second, Download, 7), (5000 * Second, Upload, 1)]"

lemma newRuntimePolicy_width:
  assumes "newRuntimePolicy spec a st0 = (p, st)" "q_Window (p_Quota spec) > 0"
  shows "pol_bucketWidthSecs p = quotaBucketWidthSecs (q_Window (p_Quota spec))" "pol_spec p = spec"
    "0 < pol_bucketWidthSecs p" "ps_Buckets st = ps_Buckets st0" "ps_rolling st = sumBuckets (ps_Buckets st0)"
  using assms quotaBucketWidthSecs_bounds [of "q_Window (p_Quota spec)"]
  by (auto simp: newRuntimePolicy_def Let_def)

lemma sumBuckets_Nil [simp]: "sumBuckets [] = zero_counters"
  by (simp add: sumBuckets_def)

lemma sample_setup:
  "newRuntimePolicy sample_policy 0 sample_state = (sample_runtime_policy, sample_state)"
  "q_Window (p_Quota sample_policy) > 0" "ps_Buckets sample_state = []" "sample_events \<noteq> []"
  "sorted (map fst sample_events)" "\<forall>t \<in> fst ` set sample_events. 0 \<le> t"
  by (simp_all add: sample_runtime_policy_def newRuntimePolicy_def sample_policy_def sample_state_def
      sample_events_def Let_def time_units)

text \<open>
  C3. The sliding window counts what it should. After any sequence of records in the order of their
  times, the cached sum of a policy is the sum of the bytes of exactly the events whose bucket has
  not expired; every event inside the quota window is among them, and none that is older than the
  window by a bucket width. The policy is over quota exactly when that sum reaches a limit.
\<close>

theorem quota_window_sum:
  assumes "newRuntimePolicy spec a st0 = (p, st)" "q_Window (p_Quota spec) > 0" "ps_Buckets st0 = []"
    and "es \<noteq> []" "sorted (map fst es)" "\<forall>t \<in> fst ` set es. 0 \<le> t"
  shows "counter_of d (ps_rolling (run_events p st es)) =
      event_sum p d (live (pol_bucketWidthSecs p) (policy_cutoff p (fst (last es)))) es
    \<and> (\<forall>t. 0 \<le> t \<longrightarrow> fst (last es) - q_Window (p_Quota spec) \<le> t \<longrightarrow>
        live (pol_bucketWidthSecs p) (policy_cutoff p (fst (last es))) (bucket_key p t))
    \<and> (\<forall>t. 0 \<le> t \<longrightarrow> live (pol_bucketWidthSecs p) (policy_cutoff p (fst (last es))) (bucket_key p t) \<longrightarrow>
        fst (last es) - q_Window (p_Quota spec) < t + pol_bucketWidthSecs p * Second)
    \<and> ps_OverQuota (run_events p st es) = quotaExceeded (p_Quota spec) (ps_rolling (run_events p st es))"
proof -
  note p = newRuntimePolicy_width [OF assms(1,2)]
  have fresh: "ps_Buckets st = []" "ps_rolling st = zero_counters"
    using p(4,5) assms(3) by simp_all
  have w: "0 \<le> q_Window (p_Quota (pol_spec p))" using assms(2) p(2) by simp
  from assms(4) obtain es' t e b where es: "es = es' @ [(t, e, b)]"
    by (metis append_butlast_last_id prod_cases3)
  obtain st' cr where rec: "policy_record p e b t (run_events p st es') = (st', cr)"
    by (cases "policy_record p e b t (run_events p st es')")
  have "quota_inv p (run_events p st es')"
    using quota_inv_fresh [OF fresh] ledger_run [OF fresh p(3) w, of es'] assms(5,6) es
    by (cases "es' = []") (auto simp: sorted_append ledger_inv_def)
  from policy_record_spec(3) [OF this p(3) rec]
  have "ps_OverQuota (run_events p st es) = quotaExceeded (p_Quota spec) (ps_rolling (run_events p st es))"
    by (simp add: es rec p(2))
  moreover have "counter_of d (ps_rolling (run_events p st es)) =
      event_sum p d (live (pol_bucketWidthSecs p) (policy_cutoff p (fst (last es)))) es"
    by (rule ledger_inv_rolling [OF ledger_run [OF fresh p(3) w assms(4-6)]])
  ultimately show ?thesis
    using live_in_window [OF _ p(3), of _ "fst (last es)"] live_not_older [OF _ p(3), of _ "fst (last es)"] p(2)
    by simp
qed

theorem quota_window_sum_witness:
  "ct_UploadBytes (ps_rolling (run_events sample_runtime_policy sample_state sample_events)) = 21
   \<and> ct_DownloadBytes (ps_rolling (run_events sample_runtime_policy sample_state sample_events)) = 7
   \<and> ps_OverQuota (run_events sample_runtime_policy sample_state sample_events)"
proof -
  have "event_sum sample_runtime_policy Upload (live (pol_bucketWidthSecs sample_runtime_policy)
      (policy_cutoff sample_runtime_policy (fst (last sample_events)))) sample_events = 21"
    "event_sum sample_runtime_policy Download (live (pol_bucketWidthSecs sample_runtime_policy)
      (policy_cutoff sample_runtime_policy (fst (last sample_events)))) sample_events = 7"
    by code_simp+
  then show ?thesis
    using quota_window_sum [OF sample_setup, of Upload] quota_window_sum [OF sample_setup, of Download]
    by (simp add: counter_of_def quotaExceeded_def TotalBytes_def sample_policy_def)
qed



text \<open>
  C24. One record, on every state that satisfies the window invariant: the buckets it leaves are the
  ones that have not expired together with the bucket of the new bytes, although expired buckets are
  only looked for when the cached next cutoff says so; the invariant holds again; the cumulative
  counters grow by the bytes; and an exceeded event is counted and reported exactly when the policy
  goes from under to over its quota.
\<close>

theorem policy_record_functional:
  assumes "quota_inv p st" "0 < pol_bucketWidthSecs p" "policy_record p d b now st = (st', crossed)"
  shows "ps_Buckets st' = (let kept = filter (\<lambda>(k, c). policy_cutoff p now < k + pol_bucketWidthSecs p) (ps_Buckets st)
      in mset' (bucket_key p now) (counters_add d b
          (case mget kept (bucket_key p now) of Some c \<Rightarrow> c | None \<Rightarrow> zero_counters)) kept)
    \<and> quota_inv p st'
    \<and> crossed = (\<not> ps_OverQuota st \<and> quotaExceeded (p_Quota (pol_spec p)) (ps_rolling st'))
    \<and> ps_Counters st' = (counters_add d b (ps_Counters st))
        \<lparr>ct_ExceededEvents := ct_ExceededEvents (ps_Counters st) + (if crossed then 1 else 0)\<rparr>"
  using policy_record_spec [OF assms] record_bucket_spec(1) [OF assms(1), of d b now]
  by (auto simp: Let_def live_def)

theorem policy_record_functional_witness:
  "quota_inv sample_runtime_policy sample_state
   \<and> snd (policy_record sample_runtime_policy Upload 30 0 sample_state)
   \<and> ct_ExceededEvents (ps_Counters (fst (policy_record sample_runtime_policy Upload 30 0 sample_state))) = 1"
proof -
  let ?r = "policy_record sample_runtime_policy Upload 30 0 sample_state"
  have inv: "quota_inv sample_runtime_policy sample_state"
    by (rule quota_inv_fresh) (simp_all add: sample_state_def)
  have w: "0 < pol_bucketWidthSecs sample_runtime_policy" by code_simp
  have "?r = (fst ?r, snd ?r)" by simp
  note f = policy_record_functional [OF inv w this]
  then have "ps_Buckets (fst ?r) = [(0, \<lparr>ct_UploadBytes = 30, ct_DownloadBytes = 0, ct_Connections = 0, ct_ExceededEvents = 0\<rparr>)]"
    by (simp add: sample_state_def bucket_key_def Unix_def counters_add_def zero_counters_def)
  with f have "ct_UploadBytes (ps_rolling (fst ?r)) = 30" "ct_DownloadBytes (ps_rolling (fst ?r)) = 0"
    by (simp_all add: quota_inv_def)
  then have "quotaExceeded (p_Quota (pol_spec sample_runtime_policy)) (ps_rolling (fst ?r))"
    using newRuntimePolicy_width(2) [OF sample_setup(1,2)]
    by (simp add: quotaExceeded_def TotalBytes_def sample_policy_def)
  with f inv show ?thesis
    by (simp add: sample_state_def zero_counters_def)
qed

end
