(* ===== verification/TC_Reports.thy ===== *)
theory TC_Reports
  imports TC_Quota "HOL-Library.Product_Lexorder"
begin

section \<open>Traffic control: usage reports\<close>

text \<open>
  The report series of \<^verbatim>\<open>component/trafficcontrol/manager.go\<close>: the keys under which a session is
  reported, the hourly buckets, the roll-up of finished hours into days and months, the retention of
  each granularity, the query \<^verbatim>\<open>Reports\<close>, and the two places that bound the number of series. The
  operations take the report map and return the new one; \<^verbatim>\<open>enabled\<close> stands for a runtime whose
  configuration has reports switched on.
\<close>

subsection \<open>Keys\<close>

definition maxReportKeysPerSession :: nat where "maxReportKeysPerSession = 128"
definition maxReportSeries :: nat where "maxReportSeries = 4096"

definition reportPairKey :: "string \<Rightarrow> string \<Rightarrow> string" where
  "reportPairKey left right =
     (let (left, right) = (if left > right then (right, left) else (left, right))
      in left @ ''|'' @ right)"

fun uniqueStrings_from :: "string list \<Rightarrow> string list \<Rightarrow> string list" where
  "uniqueStrings_from seen [] = []"
| "uniqueStrings_from seen (v # vs) =
     (if v \<in> set seen then uniqueStrings_from seen vs else v # uniqueStrings_from (v # seen) vs)"

definition uniqueStrings :: "string list \<Rightarrow> string list" where
  "uniqueStrings = uniqueStrings_from []"

definition append_capped :: "string list \<Rightarrow> string \<Rightarrow> string list" where
  "append_capped keys k = (if length keys = maxReportKeysPerSession then keys else keys @ [k])"

fun dimension_pairs :: "string list \<Rightarrow> string list" where
  "dimension_pairs [] = []"
| "dimension_pairs (d # ds) = map (reportPairKey d) ds @ dimension_pairs ds"

definition reportKeys :: "string list \<Rightarrow> string list" where
  "reportKeys dims =
     (let dimensions = uniqueStrings dims;
          keys = foldl append_capped [] dimensions
      in foldl append_capped keys (dimension_pairs dimensions))"

subsection \<open>Series\<close>

record reportSeries =
  sr_Key :: string
  sr_Updated :: int
  sr_Hourly :: buckets
  sr_Daily :: buckets
  sr_Monthly :: buckets
  sr_Rolled :: "(int, bool) gomap"

type_synonym reports = "(string, reportSeries) gomap"

definition new_series :: "string \<Rightarrow> reportSeries" where
  "new_series key = \<lparr>sr_Key = key, sr_Updated = 0, sr_Hourly = [], sr_Daily = [], sr_Monthly = [], sr_Rolled = []\<rparr>"

definition get_reportSeries :: "string \<Rightarrow> reports \<Rightarrow> reportSeries option \<times> reports" where
  "get_reportSeries key reports =
     (case mget reports key of
        Some series \<Rightarrow> (Some series, reports)
      | None \<Rightarrow>
          if length reports \<ge> maxReportSeries then (None, reports)
          else (Some (new_series key), mset' key (new_series key) reports))"

definition counters_at :: "buckets \<Rightarrow> int \<Rightarrow> Counters" where
  "counters_at bs k = (case mget bs k of Some c \<Rightarrow> c | None \<Rightarrow> zero_counters)"

definition hour_of :: "int \<Rightarrow> int" where
  "hour_of now = Unix now sdiv 3600 * 3600"

text \<open>The body of the three recording loops: one hourly bucket of one series is changed.\<close>

definition update_series :: "(Counters \<Rightarrow> Counters) \<Rightarrow> int \<Rightarrow> reports \<Rightarrow> string \<Rightarrow> reports" where
  "update_series f now reports key =
     (case get_reportSeries key reports of
        (None, reports) \<Rightarrow> reports
      | (Some series, reports) \<Rightarrow>
          mset' key (series\<lparr>sr_Hourly := mset' (hour_of now) (f (counters_at (sr_Hourly series) (hour_of now))) (sr_Hourly series),
                            sr_Updated := Unix now\<rparr>) reports)"

definition recordReports :: "bool \<Rightarrow> string list \<Rightarrow> Direction \<Rightarrow> int64 \<Rightarrow> int \<Rightarrow> reports \<Rightarrow> reports" where
  "recordReports enabled keys direction bytes now reports =
     (if \<not> enabled then reports else foldl (update_series (counters_add direction bytes) now) reports keys)"

definition recordReportConnections :: "bool \<Rightarrow> string list \<Rightarrow> int64 \<Rightarrow> int \<Rightarrow> reports \<Rightarrow> reports" where
  "recordReportConnections enabled keys count now reports =
     (if \<not> enabled then reports
      else foldl (update_series (\<lambda>c. c\<lparr>ct_Connections := ct_Connections c + count\<rparr>) now) reports keys)"

definition recordReportExceeded :: "bool \<Rightarrow> string list \<Rightarrow> int \<Rightarrow> reports \<Rightarrow> reports" where
  "recordReportExceeded enabled keys now reports =
     (if \<not> enabled then reports
      else foldl (update_series (\<lambda>c. c\<lparr>ct_ExceededEvents := ct_ExceededEvents c + 1\<rparr>) now) reports keys)"

subsection \<open>The calendar\<close>

text \<open>
  \<^verbatim>\<open>time.Date\<close> of the day and of the first of the month in UTC, in seconds. The day of the month is
  computed from the day number in the proleptic Gregorian calendar, with years that start in March.
\<close>

definition utc_day :: "int \<Rightarrow> int" where
  "utc_day start = start div 86400 * 86400"

definition day_of_month :: "int \<Rightarrow> int" where
  "day_of_month days =
     (let z = days + 719468;
          doe = z mod 146097;
          yoe = (doe - doe div 1460 + doe div 36524 - doe div 146096) div 365;
          doy = doe - (365 * yoe + yoe div 4 - yoe div 100);
          mp = (5 * doy + 2) div 153
      in doy - (153 * mp + 2) div 5 + 1)"

definition utc_month :: "int \<Rightarrow> int" where
  "utc_month start = (let days = start div 86400 in (days - (day_of_month days - 1)) * 86400)"

subsection \<open>Roll-up and retention\<close>

definition rolled :: "reportSeries \<Rightarrow> int \<Rightarrow> bool" where
  "rolled series start \<longleftrightarrow> mget (sr_Rolled series) start = Some True"

definition rollup_hour :: "ReportsConfig \<Rightarrow> int \<Rightarrow> reportSeries \<Rightarrow> int \<times> Counters \<Rightarrow> reportSeries" where
  "rollup_hour cfg now series entry =
     (let (start, counters) = entry;
          series = (if start < Unix now div 3600 * 3600 \<and> \<not> rolled series start
            then series
              \<lparr>sr_Daily := mset' (utc_day start) (addCounters (counters_at (sr_Daily series) (utc_day start)) counters) (sr_Daily series),
               sr_Monthly := mset' (utc_month start) (addCounters (counters_at (sr_Monthly series) (utc_month start)) counters) (sr_Monthly series),
               sr_Rolled := mset' start True (sr_Rolled series)\<rparr>
            else series)
      in if start < Unix (now - r_HourlyRetention cfg)
         then series\<lparr>sr_Hourly := mdel start (sr_Hourly series)\<rparr> else series)"

definition prune_series :: "ReportsConfig \<Rightarrow> int \<Rightarrow> reportSeries \<Rightarrow> reportSeries" where
  "prune_series cfg now series =
     series\<lparr>sr_Rolled := filter (\<lambda>(start, _). mget (sr_Hourly series) start \<noteq> None) (sr_Rolled series),
            sr_Daily := filter (\<lambda>(start, _). \<not> start < Unix (now - r_DailyRetention cfg)) (sr_Daily series),
            sr_Monthly := filter (\<lambda>(start, _). \<not> start < Unix (now - r_MonthlyRetention cfg)) (sr_Monthly series)\<rparr>"

definition rollup_series :: "ReportsConfig \<Rightarrow> int \<Rightarrow> reportSeries \<Rightarrow> reportSeries" where
  "rollup_series cfg now series =
     prune_series cfg now (foldl (rollup_hour cfg now) series (sr_Hourly series))"

definition series_empty :: "reportSeries \<Rightarrow> bool" where
  "series_empty series \<longleftrightarrow> sr_Hourly series = [] \<and> sr_Daily series = [] \<and> sr_Monthly series = []"

definition rollup_reports :: "ReportsConfig \<Rightarrow> int \<Rightarrow> reports \<Rightarrow> reports" where
  "rollup_reports cfg now reports =
     filter (\<lambda>(key, series). \<not> series_empty series)
       (map (\<lambda>(key, series). (key, rollup_series cfg now series)) reports)"

subsection \<open>The query\<close>

datatype report_err = InvalidReportGranularity

definition add_unrolled :: "(int \<Rightarrow> int) \<Rightarrow> reportSeries \<Rightarrow> buckets \<Rightarrow> int \<times> Counters \<Rightarrow> buckets" where
  "add_unrolled bucket_of series source entry =
     (let (start, counters) = entry in
      if rolled series start then source
      else mset' (bucket_of start) (addCounters (counters_at source (bucket_of start)) counters) source)"

definition report_source :: "string \<Rightarrow> reportSeries \<Rightarrow> buckets" where
  "report_source granularity series =
     (if granularity = ''hour'' then sr_Hourly series
      else if granularity = ''day'' then foldl (add_unrolled utc_day series) (sr_Daily series) (sr_Hourly series)
      else foldl (add_unrolled utc_month series) (sr_Monthly series) (sr_Hourly series))"

definition Reports :: "reports \<Rightarrow> string \<Rightarrow> string \<Rightarrow> int \<Rightarrow> int \<Rightarrow> report_err + buckets" where
  "Reports reports key gran from to =
     (let granularity = ToLower gran in
      if granularity \<noteq> ''hour'' \<and> granularity \<noteq> ''day'' \<and> granularity \<noteq> ''month''
      then Inl InvalidReportGranularity
      else (case mget reports key of
              None \<Rightarrow> Inr []
            | Some series \<Rightarrow>
                Inr (sort_key fst (filter (\<lambda>(start, _). Unix from \<le> start \<and> start < Unix to)
                  (report_source granularity series)))))"

subsection \<open>Bounding the number of series\<close>

definition limitStagedReports :: "reports \<Rightarrow> reports" where
  "limitStagedReports reports =
     (if length reports \<le> maxReportSeries then reports
      else
        let candidates = sort_key (\<lambda>(key, updated). (updated, key))
              (map (\<lambda>(key, series). (key, sr_Updated series)) reports)
        in fold (\<lambda>(key, _). mdel key) (take (length candidates - maxReportSeries) candidates) reports)"

definition dropOldestReportSeries :: "reports \<Rightarrow> reports option" where
  "dropOldestReportSeries reports =
     (if reports = [] then None
      else
        let candidates = sort_key snd (map (\<lambda>(key, series). (key, sr_Updated series)) reports);
            count = (length candidates + 9) div 10;
            count = (if count < 1 then 1 else count)
        in Some (fold (\<lambda>(key, _). mdel key) (take count candidates) reports))"

subsection \<open>Sums of counters\<close>

definition additive :: "(Counters \<Rightarrow> int64) \<Rightarrow> bool" where
  "additive g \<longleftrightarrow> g zero_counters = 0 \<and> (\<forall>a b. g (addCounters a b) = g a + g b)"

lemma additive_fields [simp]:
  "additive ct_UploadBytes" "additive ct_DownloadBytes" "additive ct_Connections" "additive ct_ExceededEvents"
  by (simp_all add: additive_def zero_counters_def addCounters_def)

lemma additiveD: "additive g \<Longrightarrow> g zero_counters = 0" "additive g \<Longrightarrow> g (addCounters a b) = g a + g b"
  by (simp_all add: additive_def)

lemma counters_eqI:
  assumes "\<And>g. additive g \<Longrightarrow> g a = g b"
  shows "a = (b :: Counters)"
  by (rule Counters.equality) (use assms in auto)

lemma counters_at_update: "counters_at (mset' k v bs) j = (if j = k then v else counters_at bs j)"
  by (simp add: counters_at_def gm.lookup_update)

lemma bucket_sum_drop:
  assumes "mkeys_ok bs" "mget bs s = Some c"
  shows "bucket_sum g (filter (\<lambda>(k, c). P k \<and> k \<noteq> s) bs)
     = bucket_sum g (filter (\<lambda>(k, c). P k) bs) - (if P s then g c else 0)"
  using assms
proof (induction bs)
  case (Cons e bs)
  obtain k v where e: "e = (k, v)" by (cases e)
  show ?case
  proof (cases "k = s")
    case True
    with Cons.prems e have "filter (\<lambda>(k, c). P k \<and> k \<noteq> s) bs = filter (\<lambda>(k, c). P k) bs"
      by (intro filter_cong) (auto simp: image_iff)
    with True Cons.prems e show ?thesis by auto
  next
    case False
    with Cons e show ?thesis by auto
  qed
qed simp

subsection \<open>The view of a query\<close>

definition view_sum :: "(Counters \<Rightarrow> int64) \<Rightarrow> (int \<Rightarrow> int) \<Rightarrow> buckets \<Rightarrow> reportSeries \<Rightarrow> int \<Rightarrow> int64" where
  "view_sum g f old s k = g (counters_at old k)
     + bucket_sum g (filter (\<lambda>(t, c). \<not> rolled s t \<and> f t = k) (sr_Hourly s))"

lemma source_view:
  assumes "additive g"
  shows "g (counters_at (foldl (add_unrolled f s) src hs) k)
     = g (counters_at src k) + bucket_sum g (filter (\<lambda>(t, c). \<not> rolled s t \<and> f t = k) hs)"
proof (induction hs arbitrary: src)
  case (Cons e hs)
  obtain t c where "e = (t, c)" by (cases e)
  with Cons show ?case
    by (auto simp: add_unrolled_def counters_at_update additiveD [OF assms] algebra_simps)
qed simp

lemma report_source_view:
  assumes "additive g"
  shows "g (counters_at (report_source ''day'' s) k) = view_sum g utc_day (sr_Daily s) s k"
    "g (counters_at (report_source ''month'' s) k) = view_sum g utc_month (sr_Monthly s) s k"
  by (simp_all add: report_source_def view_sum_def source_view [OF assms])

subsection \<open>Rolling up moves counters and loses none\<close>

abbreviation roll :: "reportSeries \<Rightarrow> int \<Rightarrow> Counters \<Rightarrow> reportSeries" where
  "roll s start c \<equiv> s
     \<lparr>sr_Daily := mset' (utc_day start) (addCounters (counters_at (sr_Daily s) (utc_day start)) c) (sr_Daily s),
      sr_Monthly := mset' (utc_month start) (addCounters (counters_at (sr_Monthly s) (utc_month start)) c) (sr_Monthly s),
      sr_Rolled := mset' start True (sr_Rolled s)\<rparr>"

lemma rolled_roll: "rolled (roll s start c) t \<longleftrightarrow> t = start \<or> rolled s t"
  by (auto simp: rolled_def gm.lookup_update)

lemma roll_view:
  assumes g: "additive g" and ok: "mkeys_ok (sr_Hourly s)" and c: "mget (sr_Hourly s) start = Some c"
    and r: "\<not> rolled s start"
  shows "view_sum g utc_day (sr_Daily (roll s start c)) (roll s start c) k = view_sum g utc_day (sr_Daily s) s k"
    "view_sum g utc_month (sr_Monthly (roll s start c)) (roll s start c) k = view_sum g utc_month (sr_Monthly s) s k"
proof -
  have "bucket_sum g (filter (\<lambda>(t, c). \<not> (t = start \<or> rolled s t) \<and> f t = k) (sr_Hourly s))
     = bucket_sum g (filter (\<lambda>(t, c). \<not> rolled s t \<and> f t = k) (sr_Hourly s)) - (if f start = k then g c else 0)" for f
  proof -
    have "filter (\<lambda>(t, c). \<not> (t = start \<or> rolled s t) \<and> f t = k) (sr_Hourly s)
       = filter (\<lambda>(t, c). (\<not> rolled s t \<and> f t = k) \<and> t \<noteq> start) (sr_Hourly s)"
      by (rule filter_cong) auto
    with bucket_sum_drop [OF ok c, of g "\<lambda>t. \<not> rolled s t \<and> f t = k"] r show ?thesis by simp
  qed
  then show "view_sum g utc_day (sr_Daily (roll s start c)) (roll s start c) k = view_sum g utc_day (sr_Daily s) s k"
    "view_sum g utc_month (sr_Monthly (roll s start c)) (roll s start c) k = view_sum g utc_month (sr_Monthly s) s k"
    by (auto simp: view_sum_def rolled_roll counters_at_update additiveD [OF g])
qed

lemma drop_hour_view:
  assumes "mkeys_ok (sr_Hourly s)" "rolled s start"
  shows "view_sum g f old (s\<lparr>sr_Hourly := mdel start (sr_Hourly s)\<rparr>) k = view_sum g f old s k"
proof -
  have r: "rolled (s\<lparr>sr_Hourly := h\<rparr>) = rolled s" for h by (simp add: rolled_def fun_eq_iff)
  have "filter (\<lambda>(t, c). \<not> rolled s t \<and> f t = k) (mdel start (sr_Hourly s))
     = filter (\<lambda>(t, c). \<not> rolled s t \<and> f t = k) (sr_Hourly s)"
    using assms(2) by (auto simp: AList.delete_eq intro!: filter_cong)
  then show ?thesis by (simp add: view_sum_def r)
qed

lemma rollup_hour_view:
  assumes g: "additive g" and ok: "mkeys_ok (sr_Hourly s)" and c: "mget (sr_Hourly s) start = Some c"
    and old: "start < Unix (now - r_HourlyRetention cfg) \<Longrightarrow> start < Unix now div 3600 * 3600"
  shows "view_sum g utc_day (sr_Daily (rollup_hour cfg now s (start, c))) (rollup_hour cfg now s (start, c)) k
       = view_sum g utc_day (sr_Daily s) s k"
    and "view_sum g utc_month (sr_Monthly (rollup_hour cfg now s (start, c))) (rollup_hour cfg now s (start, c)) k
       = view_sum g utc_month (sr_Monthly s) s k"
    and "mkeys_ok (sr_Hourly (rollup_hour cfg now s (start, c)))"
    and "t \<noteq> start \<Longrightarrow> mget (sr_Hourly (rollup_hour cfg now s (start, c))) t = mget (sr_Hourly s) t"
proof -
  define s1 where "s1 = (if start < Unix now div 3600 * 3600 \<and> \<not> rolled s start then roll s start c else s)"
  have step: "rollup_hour cfg now s (start, c) =
     (if start < Unix (now - r_HourlyRetention cfg) then s1\<lparr>sr_Hourly := mdel start (sr_Hourly s1)\<rparr> else s1)"
    by (simp add: rollup_hour_def Let_def s1_def)
  have h: "sr_Hourly s1 = sr_Hourly s" by (simp add: s1_def)
  have v: "view_sum g utc_day (sr_Daily s1) s1 k = view_sum g utc_day (sr_Daily s) s k"
    "view_sum g utc_month (sr_Monthly s1) s1 k = view_sum g utc_month (sr_Monthly s) s k"
    using roll_view [OF g ok c] by (simp_all add: s1_def)
  have r: "start < Unix (now - r_HourlyRetention cfg) \<Longrightarrow> rolled s1 start"
    using old by (auto simp: s1_def rolled_roll)
  show "view_sum g utc_day (sr_Daily (rollup_hour cfg now s (start, c))) (rollup_hour cfg now s (start, c)) k
       = view_sum g utc_day (sr_Daily s) s k"
    "view_sum g utc_month (sr_Monthly (rollup_hour cfg now s (start, c))) (rollup_hour cfg now s (start, c)) k
       = view_sum g utc_month (sr_Monthly s) s k"
    using drop_hour_view [of s1 start] ok r v by (simp_all add: step h)
  show "mkeys_ok (sr_Hourly (rollup_hour cfg now s (start, c)))"
    using ok by (simp add: step h gm.invar_delete)
  show "t \<noteq> start \<Longrightarrow> mget (sr_Hourly (rollup_hour cfg now s (start, c))) t = mget (sr_Hourly s) t"
    by (simp add: step h gm.lookup_delete)
qed

lemma rollup_fold_view:
  assumes g: "additive g" and "mkeys_ok (sr_Hourly s)" "distinct (map fst hs)"
    and "\<forall>(t, c) \<in> set hs. mget (sr_Hourly s) t = Some c"
    and "\<forall>(t, c) \<in> set hs. t < Unix (now - r_HourlyRetention cfg) \<longrightarrow> t < Unix now div 3600 * 3600"
  defines "s' \<equiv> foldl (rollup_hour cfg now) s hs"
  shows "view_sum g utc_day (sr_Daily s') s' k = view_sum g utc_day (sr_Daily s) s k
    \<and> view_sum g utc_month (sr_Monthly s') s' k = view_sum g utc_month (sr_Monthly s) s k"
  using assms(2-5) unfolding s'_def
proof (induction hs arbitrary: s)
  case (Cons e hs)
  obtain t c where e: "e = (t, c)" by (cases e)
  from Cons.prems have c: "mget (sr_Hourly s) t = Some c"
    and old: "t < Unix (now - r_HourlyRetention cfg) \<Longrightarrow> t < Unix now div 3600 * 3600"
    by (auto simp: e)
  note step = rollup_hour_view [OF g Cons.prems(1) c old]
  let ?s = "rollup_hour cfg now s (t, c)"
  have "\<forall>(u, v) \<in> set hs. mget (sr_Hourly ?s) u = Some v"
  proof safe
    fix u v assume "(u, v) \<in> set hs"
    with Cons.prems(2) have "u \<noteq> t" by (auto simp: e image_iff)
    with step(4) \<open>(u, v) \<in> set hs\<close> Cons.prems(3) show "mget (sr_Hourly ?s) u = Some v" by (auto simp: e)
  qed
  moreover have "distinct (map fst hs)" "\<forall>(t, c) \<in> set hs. t < Unix (now - r_HourlyRetention cfg) \<longrightarrow> t < Unix now div 3600 * 3600"
    using Cons.prems by (simp_all add: e)
  ultimately have "view_sum g utc_day (sr_Daily (foldl (rollup_hour cfg now) ?s hs)) (foldl (rollup_hour cfg now) ?s hs) k
      = view_sum g utc_day (sr_Daily ?s) ?s k
    \<and> view_sum g utc_month (sr_Monthly (foldl (rollup_hour cfg now) ?s hs)) (foldl (rollup_hour cfg now) ?s hs) k
      = view_sum g utc_month (sr_Monthly ?s) ?s k"
    using Cons.IH [OF step(3)] by blast
  with step(1,2) show ?case by (simp add: e)
qed simp

lemma map_of_filter_key: "mget (filter (\<lambda>(k, v). P k) m) k = (if P k then mget m k else None)"
  by (induction m) auto

lemma counters_at_filter: "P k \<Longrightarrow> counters_at (filter (\<lambda>(k, v). P k) bs) k = counters_at bs k"
  by (simp add: counters_at_def map_of_filter_key)

definition series_ok :: "reportSeries \<Rightarrow> bool" where
  "series_ok s \<longleftrightarrow> mkeys_ok (sr_Hourly s) \<and> mkeys_ok (sr_Daily s) \<and> mkeys_ok (sr_Monthly s) \<and> mkeys_ok (sr_Rolled s)"

definition reports_map_ok :: "reports \<Rightarrow> bool" where
  "reports_map_ok rs \<longleftrightarrow> mkeys_ok rs \<and> list_all (\<lambda>(k, s). series_ok s) rs"

lemma prune_series_view:
  assumes "Unix (now - r_DailyRetention cfg) \<le> k"
  shows "view_sum g utc_day (sr_Daily (prune_series cfg now s)) (prune_series cfg now s) k
     = view_sum g utc_day (sr_Daily s) s k"
    and "Unix (now - r_MonthlyRetention cfg) \<le> j \<Longrightarrow>
     view_sum g utc_month (sr_Monthly (prune_series cfg now s)) (prune_series cfg now s) j
     = view_sum g utc_month (sr_Monthly s) s j"
proof -
  have r: "rolled (prune_series cfg now s) t = rolled s t" if "(t, c) \<in> set (sr_Hourly s)" for t c
    using that weak_map_of_SomeI [OF that] by (auto simp: rolled_def prune_series_def map_of_filter_key)
  have "filter (\<lambda>(t, c). \<not> rolled (prune_series cfg now s) t \<and> f t = k) (sr_Hourly s)
     = filter (\<lambda>(t, c). \<not> rolled s t \<and> f t = k) (sr_Hourly s)" for f :: "int \<Rightarrow> int" and k
    by (rule filter_cong) (auto simp: r)
  then show "view_sum g utc_day (sr_Daily (prune_series cfg now s)) (prune_series cfg now s) k
     = view_sum g utc_day (sr_Daily s) s k"
    "Unix (now - r_MonthlyRetention cfg) \<le> j \<Longrightarrow>
     view_sum g utc_month (sr_Monthly (prune_series cfg now s)) (prune_series cfg now s) j
     = view_sum g utc_month (sr_Monthly s) s j"
    using assms by (simp_all add: view_sum_def, simp_all add: prune_series_def counters_at_filter)
qed

lemma hour_elapsed:
  assumes "Hour \<le> ret" "t < Unix (now - ret)"
  shows "t < Unix now div 3600 * 3600"
proof -
  have "Unix (now - ret) \<le> Unix (now - Hour)" using assms(1) by (intro Unix_mono) simp
  also have "now - Hour = now + (- 3600) * Second" by (simp add: time_units)
  also have "Unix \<dots> = Unix now - 3600"
    unfolding Unix_def by (subst div_mult_self1) (simp_all add: time_units)
  finally show ?thesis using assms(2) less_div_mult_add [of 3600 "Unix now"] by linarith
qed

lemma rollup_series_source:
  assumes ok: "series_ok s" and ret: "Hour \<le> r_HourlyRetention cfg"
  shows "Unix (now - r_DailyRetention cfg) \<le> k \<Longrightarrow>
      counters_at (report_source ''day'' (rollup_series cfg now s)) k = counters_at (report_source ''day'' s) k"
    and "Unix (now - r_MonthlyRetention cfg) \<le> k \<Longrightarrow>
      counters_at (report_source ''month'' (rollup_series cfg now s)) k = counters_at (report_source ''month'' s) k"
proof -
  have hourly: "mkeys_ok (sr_Hourly s)" using ok by (simp add: series_ok_def)
  have fold: "view_sum g utc_day (sr_Daily (foldl (rollup_hour cfg now) s (sr_Hourly s)))
        (foldl (rollup_hour cfg now) s (sr_Hourly s)) k = view_sum g utc_day (sr_Daily s) s k
    \<and> view_sum g utc_month (sr_Monthly (foldl (rollup_hour cfg now) s (sr_Hourly s)))
        (foldl (rollup_hour cfg now) s (sr_Hourly s)) k = view_sum g utc_month (sr_Monthly s) s k"
    if "additive g" for g
  proof (rule rollup_fold_view [OF that hourly hourly])
    show "\<forall>(t, c) \<in> set (sr_Hourly s). mget (sr_Hourly s) t = Some c"
      using hourly by (auto simp: map_of_is_SomeI)
    show "\<forall>(t, c) \<in> set (sr_Hourly s). t < Unix (now - r_HourlyRetention cfg) \<longrightarrow> t < Unix now div 3600 * 3600"
      using hour_elapsed [OF ret] by blast
  qed
  show "counters_at (report_source ''day'' (rollup_series cfg now s)) k = counters_at (report_source ''day'' s) k"
    if "Unix (now - r_DailyRetention cfg) \<le> k"
    using fold that by (intro counters_eqI) (simp add: report_source_view rollup_series_def prune_series_view)
  have "Unix (now - r_DailyRetention cfg) \<le> max k (Unix (now - r_DailyRetention cfg))" by simp
  note month = prune_series_view(2) [OF this]
  show "counters_at (report_source ''month'' (rollup_series cfg now s)) k = counters_at (report_source ''month'' s) k"
    if "Unix (now - r_MonthlyRetention cfg) \<le> k"
    using fold that by (intro counters_eqI) (simp add: report_source_view rollup_series_def month)
qed

subsection \<open>The result of a query\<close>

definition report_value :: "report_err + buckets \<Rightarrow> int \<Rightarrow> Counters" where
  "report_value r k = (case r of Inl e \<Rightarrow> zero_counters | Inr us \<Rightarrow> counters_at us k)"

lemma add_unrolled_keys: "mkeys_ok src \<Longrightarrow> mkeys_ok (foldl (add_unrolled f s) src hs)"
  by (induction hs arbitrary: src) (auto simp: add_unrolled_def Let_def gm.invar_update split: prod.splits)

lemma report_source_keys: "series_ok s \<Longrightarrow> mkeys_ok (report_source gran s)"
  by (auto simp: report_source_def series_ok_def add_unrolled_keys)

lemma counters_at_sort:
  assumes "mkeys_ok bs"
  shows "counters_at (sort_key fst bs) k = counters_at bs k"
proof -
  have "mkeys_ok (sort_key fst bs)"
    using assms by (simp add: distinct_map)
  then have "map_of (sort_key fst bs) = map_of bs"
    using assms by (intro map_of_inject_set [THEN iffD2]) auto
  then show ?thesis by (simp add: counters_at_def)
qed

lemma Reports_value:
  assumes "ToLower gran \<in> {''hour'', ''day'', ''month''}" "reports_map_ok rs"
  shows "report_value (Reports rs key gran from to) k =
    (if Unix from \<le> k \<and> k < Unix to
     then (case mget rs key of None \<Rightarrow> zero_counters | Some s \<Rightarrow> counters_at (report_source (ToLower gran) s) k)
     else zero_counters)"
proof (cases "mget rs key")
  case None
  with assms(1) show ?thesis by (auto simp: Reports_def report_value_def counters_at_def)
next
  case (Some s)
  then have "series_ok s"
    using assms(2) by (auto simp: reports_map_ok_def list_all_iff dest: map_of_SomeD)
  then have ok: "mkeys_ok (report_source (ToLower gran) s)" by (rule report_source_keys)
  then have "mkeys_ok (filter P (report_source (ToLower gran) s))" for P
    by (rule distinct_map_filter)
  with assms(1) Some show ?thesis
    by (auto simp: Reports_def report_value_def counters_at_sort) (simp_all add: counters_at_def map_of_filter_key [of "\<lambda>k. Unix from \<le> k \<and> k < Unix to"])
qed

subsection \<open>Invariants of the report map\<close>

lemma rollup_hour_ok: "series_ok s \<Longrightarrow> series_ok (rollup_hour cfg now s e)"
  by (auto simp: rollup_hour_def series_ok_def Let_def gm.invar_update gm.invar_delete split: prod.splits)

lemma rollup_series_ok: "series_ok s \<Longrightarrow> series_ok (rollup_series cfg now s)"
proof -
  assume "series_ok s"
  then have "series_ok (foldl (rollup_hour cfg now) s hs)" for hs
    by (induction hs arbitrary: s) (auto intro: rollup_hour_ok)
  then show ?thesis
    by (auto simp: rollup_series_def prune_series_def series_ok_def intro: distinct_map_filter)
qed

lemma rollup_reports_get:
  assumes "mkeys_ok rs"
  shows "mget (rollup_reports cfg now rs) key =
    (case mget rs key of None \<Rightarrow> None
     | Some s \<Rightarrow> if series_empty (rollup_series cfg now s) then None else Some (rollup_series cfg now s))"
  using assms
proof (induction rs)
  case (Cons e rs)
  obtain k s where e: "e = (k, s)" by (cases e)
  show ?case
  proof (cases "key = k")
    case True
    with Cons.prems e have "mget rs key = None" by (simp add: map_of_eq_None_iff)
    with Cons True e show ?thesis by (auto simp: rollup_reports_def)
  next
    case False
    with Cons e show ?thesis by (auto simp: rollup_reports_def)
  qed
qed (simp add: rollup_reports_def)

lemma rollup_reports_ok: "reports_map_ok rs \<Longrightarrow> reports_map_ok (rollup_reports cfg now rs)"
proof -
  assume ok: "reports_map_ok rs"
  have "map fst (map (\<lambda>(key, series). (key, rollup_series cfg now series)) rs) = map fst rs"
    by (induction rs) auto
  with ok have "mkeys_ok (map (\<lambda>(key, series). (key, rollup_series cfg now series)) rs)"
    by (simp only: reports_map_ok_def)
  from distinct_map_filter [OF this] ok show ?thesis
    by (auto simp: reports_map_ok_def rollup_reports_def list_all_iff rollup_series_ok simp del: map_map)
qed

lemma new_series_ok: "series_ok (new_series k)"
  by (simp add: new_series_def series_ok_def)

lemma set_mset': "x \<in> set (mset' k v m) \<Longrightarrow> x = (k, v) \<or> x \<in> set m"
  by (induction m) (auto split: if_splits)

lemma reports_map_ok_update: "reports_map_ok rs \<Longrightarrow> series_ok s \<Longrightarrow> reports_map_ok (mset' k s rs)"
  unfolding reports_map_ok_def list_all_iff
  by (auto simp: gm.invar_update dest!: set_mset')

lemma reports_map_okD: "reports_map_ok rs \<Longrightarrow> mget rs k = Some s \<Longrightarrow> series_ok s"
  by (auto simp: reports_map_ok_def list_all_iff dest: map_of_SomeD)

lemma get_reportSeries_ok:
  assumes "reports_map_ok rs" "get_reportSeries key rs = (so, rs')"
  shows "reports_map_ok rs' \<and> (\<forall>s. so = Some s \<longrightarrow> series_ok s \<and> mget rs' key = Some s)"
  using assms
  by (auto simp: get_reportSeries_def new_series_ok reports_map_ok_update gm.lookup_update
      split: option.splits if_splits dest: reports_map_okD)

lemma update_series_ok: "reports_map_ok rs \<Longrightarrow> reports_map_ok (update_series f now rs key)"
  using get_reportSeries_ok [of rs key]
  by (auto simp: update_series_def series_ok_def gm.invar_update split: prod.splits option.splits
      intro!: reports_map_ok_update)

lemma length_update: "length (mset' k v m) = (if mget m k = None then length m + 1 else length m)"
  by (induction m) auto

lemma update_series_length:
  "length rs \<le> maxReportSeries \<Longrightarrow> length (update_series f now rs key) \<le> maxReportSeries"
  by (auto simp: update_series_def get_reportSeries_def length_update gm.lookup_update split: option.splits if_splits)

lemmas record_report_defs = recordReports_def recordReportConnections_def recordReportExceeded_def

lemma record_reports_ok:
  assumes "reports_map_ok rs"
  shows "reports_map_ok (recordReports en keys d b now rs)"
    "reports_map_ok (recordReportConnections en keys n now rs)"
    "reports_map_ok (recordReportExceeded en keys now rs)"
  using assms by (auto simp: record_report_defs intro!: foldl_invariant [where P = reports_map_ok] update_series_ok)

lemma record_reports_length:
  assumes "length rs \<le> maxReportSeries"
  shows "length (recordReports en keys d b now rs) \<le> maxReportSeries"
    "length (recordReportConnections en keys n now rs) \<le> maxReportSeries"
    "length (recordReportExceeded en keys now rs) \<le> maxReportSeries"
  using assms
  by (auto simp: record_report_defs intro!: foldl_invariant [where P = "\<lambda>rs. length rs \<le> maxReportSeries"] update_series_length)

lemma update_series_get:
  assumes "j \<noteq> key"
  shows "mget (update_series f now rs key) j = mget rs j"
  using assms
  by (auto simp: update_series_def get_reportSeries_def gm.lookup_update split: option.splits)

lemma update_series_hour:
  assumes "mget rs key = Some s \<or> mget rs key = None \<and> length rs < maxReportSeries \<and> s = new_series key"
  shows "\<exists>s'. mget (update_series f now rs key) key = Some s' \<and>
    counters_at (sr_Hourly s') h = (if h = hour_of now then f (counters_at (sr_Hourly s) h) else counters_at (sr_Hourly s) h)
    \<and> sr_Daily s' = sr_Daily s \<and> sr_Monthly s' = sr_Monthly s \<and> sr_Rolled s' = sr_Rolled s"
  using assms
  by (auto simp: update_series_def get_reportSeries_def gm.lookup_update counters_at_update split: option.splits)

lemma fold_update_series:
  assumes "distinct keys" "mget rs key = Some s"
  shows "\<exists>s'. mget (foldl (update_series f now) rs keys) key = Some s' \<and>
    counters_at (sr_Hourly s') h =
      (if key \<in> set keys \<and> h = hour_of now then f (counters_at (sr_Hourly s) h) else counters_at (sr_Hourly s) h)"
  using assms
proof (induction keys arbitrary: rs s)
  case (Cons k keys)
  show ?case
  proof (cases "k = key")
    case True
    from update_series_hour [of rs key s f now h] Cons.prems(2) obtain s1 where
      s1: "mget (update_series f now rs key) key = Some s1"
      "counters_at (sr_Hourly s1) h = (if h = hour_of now then f (counters_at (sr_Hourly s) h) else counters_at (sr_Hourly s) h)"
      by blast
    with Cons.IH [OF _ s1(1)] Cons.prems(1) True show ?thesis by auto
  next
    case False
    then have "mget (update_series f now rs k) key = Some s"
      using update_series_get [of key k f now rs] Cons.prems(2) by simp
    with Cons.IH [OF _ this] Cons.prems(1) False show ?thesis by auto
  qed
qed simp

subsection \<open>The keys of a session\<close>

lemma uniqueStrings_from:
  "set (uniqueStrings_from seen vs) = set vs - set seen \<and> distinct (uniqueStrings_from seen vs)"
  by (induction seen vs rule: uniqueStrings_from.induct) auto

lemma uniqueStrings_set [simp]: "set (uniqueStrings vs) = set vs" "distinct (uniqueStrings vs)"
  using uniqueStrings_from [of "[]" vs] by (simp_all add: uniqueStrings_def)

lemma append_capped_fold:
  "length ks \<le> maxReportKeysPerSession \<Longrightarrow>
   foldl append_capped ks xs = take maxReportKeysPerSession (ks @ xs)"
proof (induction xs arbitrary: ks)
  case (Cons x xs)
  then show ?case
    by (cases "length ks = maxReportKeysPerSession") (auto simp: append_capped_def take_Cons')
qed simp

lemma reportKeys_take:
  "reportKeys dims = take maxReportKeysPerSession (uniqueStrings dims @ dimension_pairs (uniqueStrings dims))"
proof -
  have "take n (take n xs @ ys) = take n (xs @ ys)" for n and xs ys :: "string list"
    by (simp add: min_def)
  then show ?thesis
    by (simp only: reportKeys_def Let_def append_capped_fold list.size le0 append_Nil length_take min.cobounded2
        min.cobounded1)
qed

definition barfree :: "string \<Rightarrow> bool" where
  "barfree s \<longleftrightarrow> CHR ''|'' \<notin> set s"

lemma bar_split:
  assumes "barfree a" "barfree c" "a @ ''|'' @ b = c @ ''|'' @ d"
  shows "a = c \<and> b = d"
proof -
  have tw: "takeWhile (\<lambda>x. x \<noteq> CHR ''|'') (x @ ''|'' @ y) = x" if "barfree x" for x y
    using that by (subst takeWhile_append2) (auto simp: barfree_def)
  from arg_cong [OF assms(3), of "takeWhile (\<lambda>x. x \<noteq> CHR ''|'')"] have "a = c"
    using tw [OF assms(1), of b] tw [OF assms(2), of d] by simp
  with assms(3) show ?thesis by simp
qed

lemma reportPairKey_inj:
  assumes "barfree a" "barfree b" "barfree c" "barfree d" "reportPairKey a b = reportPairKey c d"
  shows "{a, b} = {c, d}"
proof -
  have "\<exists>x y. reportPairKey a b = x @ ''|'' @ y \<and> {x, y} = {a, b} \<and> barfree x"
    if "barfree a" "barfree b" for a b
    using that by (cases "a > b") (auto simp: reportPairKey_def insert_commute)
  then obtain x y u v where "reportPairKey a b = x @ ''|'' @ y" "{x, y} = {a, b}" "barfree x"
    "reportPairKey c d = u @ ''|'' @ v" "{u, v} = {c, d}" "barfree u"
    using assms(1-4) by metis
  with assms(5) bar_split [of x u y v] show ?thesis by metis
qed

lemma dimension_pairs_set:
  "x \<in> set (dimension_pairs ds) \<Longrightarrow> \<exists>a b. a \<in> set ds \<and> b \<in> set ds \<and> x = reportPairKey a b"
  by (induction ds) auto

lemma dimension_pairs_distinct:
  "distinct ds \<Longrightarrow> (\<And>d. d \<in> set ds \<Longrightarrow> barfree d) \<Longrightarrow> distinct (dimension_pairs ds)"
proof (induction ds)
  case (Cons d ds)
  have "inj_on (reportPairKey d) (set ds)"
  proof (rule inj_onI)
    fix a b assume "a \<in> set ds" "b \<in> set ds" "reportPairKey d a = reportPairKey d b"
    with Cons.prems reportPairKey_inj [of d a d b] have "{d, a} = {d, b}" by simp
    with \<open>a \<in> set ds\<close> \<open>b \<in> set ds\<close> Cons.prems(1) show "a = b" by (auto simp: doubleton_eq_iff)
  qed
  moreover have "reportPairKey d a \<notin> set (dimension_pairs ds)" if "a \<in> set ds" for a
  proof
    assume "reportPairKey d a \<in> set (dimension_pairs ds)"
    then obtain b c where "b \<in> set ds" "c \<in> set ds" "reportPairKey d a = reportPairKey b c"
      by (blast dest: dimension_pairs_set)
    moreover from this that Cons.prems reportPairKey_inj [of d a b c] have "{d, a} = {b, c}" by simp
    ultimately show False using Cons.prems(1) by (auto simp: doubleton_eq_iff)
  qed
  ultimately show ?case using Cons by (auto simp: distinct_map)
qed simp

lemma reportPairKey_bar: "\<not> barfree (reportPairKey a b)"
  by (simp add: reportPairKey_def barfree_def)

lemma reportKeys_props:
  shows "length (reportKeys dims) \<le> maxReportKeysPerSession"
    and "(\<And>d. d \<in> set dims \<Longrightarrow> barfree d) \<Longrightarrow> distinct (reportKeys dims)"
proof -
  show "length (reportKeys dims) \<le> maxReportKeysPerSession" by (simp add: reportKeys_take)
  assume b: "\<And>d. d \<in> set dims \<Longrightarrow> barfree d"
  then have "distinct (dimension_pairs (uniqueStrings dims))"
    by (intro dimension_pairs_distinct) simp_all
  moreover have "set (uniqueStrings dims) \<inter> set (dimension_pairs (uniqueStrings dims)) = {}"
    using b reportPairKey_bar by (auto dest!: dimension_pairs_set)
  ultimately show "distinct (reportKeys dims)"
    unfolding reportKeys_take by (intro distinct_take) simp
qed

subsection \<open>Dropping the oldest series\<close>

lemma length_mdel: "mkeys_ok m \<Longrightarrow> k \<in> fst ` set m \<Longrightarrow> length (mdel k m) = length m - 1"
proof (induction m)
  case (Cons e m)
  show ?case
  proof (cases "fst e = k")
    case True
    with Cons.prems have "k \<notin> fst ` set m" by auto
    then have "mdel k m = m" by (force simp: AList.delete_eq filter_id_conv)
    with True show ?thesis by (cases e) simp
  next
    case False
    with Cons have "m \<noteq> []" "length (mdel k m) = length m - 1" by (cases e; auto)+
    with False show ?thesis by (cases e) (cases m; simp)
  qed
qed simp

lemma length_fold_mdel:
  "mkeys_ok m \<Longrightarrow> distinct ks \<Longrightarrow> set ks \<subseteq> fst ` set m \<Longrightarrow> length (fold mdel ks m) = length m - length ks"
proof (induction ks arbitrary: m)
  case (Cons k ks)
  have "set ks \<subseteq> fst ` set (mdel k m)" using Cons.prems by (auto simp: delete_keys AList.delete_eq image_iff) force
  with Cons show ?case by (simp add: length_mdel gm.invar_delete)
qed simp

lemma drop_sorted:
  fixes rs :: reports and n :: nat and K :: "string \<times> int \<Rightarrow> 'k :: linorder"
  assumes ok: "mkeys_ok rs"
  defines "cs \<equiv> sort_key K (map (\<lambda>(key, series). (key, sr_Updated series)) rs)"
  defines "rs' \<equiv> fold (\<lambda>(key, _). mdel key) (take n cs) rs"
  shows "length rs' = length rs - min n (length rs)"
    and "mkeys_ok rs'"
    and "mget rs' b = Some t \<Longrightarrow> mget rs b = Some t"
    and "mget rs a = Some s \<Longrightarrow> mget rs' a = None \<Longrightarrow> mget rs' b = Some t \<Longrightarrow> K (a, sr_Updated s) \<le> K (b, sr_Updated t)"
proof -
  let ?ks = "map fst (take n cs)"
  have rs': "rs' = fold mdel ?ks rs"
    by (simp add: rs'_def fold_map comp_def case_prod_unfold)
  have set_cs: "set cs = (\<lambda>(key, series). (key, sr_Updated series)) ` set rs" and len: "length cs = length rs"
    by (simp_all add: cs_def)
  have "distinct (map fst cs)"
  proof -
    have "map fst (map (\<lambda>(key, series). (key, sr_Updated series)) rs) = map fst rs" by (induction rs) auto
    with ok have "distinct (map fst (map (\<lambda>(key, series). (key, sr_Updated series)) rs))" by (simp only:)
    then show ?thesis unfolding cs_def by (simp add: distinct_map del: map_map)
  qed
  then have dks: "distinct ?ks" by (simp add: take_map [symmetric])
  have "set ?ks \<subseteq> fst ` set cs" by (auto dest: in_set_takeD)
  then have sub: "set ?ks \<subseteq> fst ` set rs" by (auto simp: set_cs image_iff) force
  show "length rs' = length rs - min n (length rs)"
    unfolding rs' length_fold_mdel [OF ok dks sub] by (simp add: len min.commute)
  show "mkeys_ok rs'" unfolding rs' by (rule gm.invar_fold_delete [OF ok])
  have look: "mget rs' k = (if k \<in> set ?ks then None else mget rs k)" for k
    unfolding rs' by (rule gm.lookup_fold_delete)
  show "mget rs' b = Some t \<Longrightarrow> mget rs b = Some t" by (simp add: look split: if_splits)
  assume a: "mget rs a = Some s" "mget rs' a = None" and b: "mget rs' b = Some t"
  from a have "a \<in> set ?ks" by (simp add: look split: if_splits)
  then obtain u where u: "(a, u) \<in> set (take n cs)" by auto
  then have "(a, u) \<in> set cs" by (rule in_set_takeD)
  then obtain s' where s': "(a, s') \<in> set rs" "u = sr_Updated s'" by (auto simp: set_cs)
  from map_of_is_SomeI [OF ok s'(1)] a(1) s'(2) have "u = sr_Updated s" by simp
  moreover have "(b, sr_Updated t) \<in> set (drop n cs)"
  proof -
    from b have bt: "b \<notin> set ?ks" "(b, t) \<in> set rs" by (auto simp: look dest: map_of_SomeD split: if_splits)
    then have "(b, sr_Updated t) \<in> set cs" by (force simp: set_cs)
    with bt(1) show ?thesis by (metis Un_iff append_take_drop_id fst_conv image_eqI set_append set_map)
  qed
  moreover have "\<forall>x \<in> set (take n cs). \<forall>y \<in> set (drop n cs). K x \<le> K y"
  proof -
    have "sorted (map K cs)" unfolding cs_def by (rule sorted_sort_key)
    then have "sorted (map K (take n cs) @ map K (drop n cs))"
      by (metis append_take_drop_id map_append)
    then show ?thesis unfolding sorted_append by auto
  qed
  ultimately show "K (a, sr_Updated s) \<le> K (b, sr_Updated t)" using u by blast
qed

subsection \<open>Properties\<close>

definition sample_series :: reportSeries where
  "sample_series = \<lparr>sr_Key = ''global:global'', sr_Updated = 7200,
     sr_Hourly = [(3600, \<lparr>ct_UploadBytes = 5, ct_DownloadBytes = 6, ct_Connections = 1, ct_ExceededEvents = 0\<rparr>),
       (7200, \<lparr>ct_UploadBytes = 7, ct_DownloadBytes = 0, ct_Connections = 0, ct_ExceededEvents = 1\<rparr>)],
     sr_Daily = [], sr_Monthly = [], sr_Rolled = []\<rparr>"

definition sample_reports_config :: ReportsConfig where
  "sample_reports_config = \<lparr>r_Enabled = True, r_HourlyRetention = 24 * Hour, r_DailyRetention = 31 * (24 * Hour),
     r_MonthlyRetention = 31 * (24 * Hour), r_OrphanRetention = 31 * (24 * Hour)\<rparr>"

lemma sample_reports_ok: "reports_map_ok [(''global:global'', sample_series)]"
  by (simp add: reports_map_ok_def series_ok_def sample_series_def)

text \<open>
  C27. Rolling up is invisible in the reports. Whenever it runs, the daily and monthly figures that a
  query returns for a day or month inside the retention are the same before and after: a finished
  hour is moved into its day and month exactly once, and an hourly bucket is only deleted after that.
\<close>

theorem rollup_preserves_reports:
  assumes ok: "reports_map_ok rs" and ret: "Hour \<le> r_HourlyRetention cfg"
    and k: "ToLower gran = ''day'' \<and> Unix (now - r_DailyRetention cfg) \<le> k
      \<or> ToLower gran = ''month'' \<and> Unix (now - r_MonthlyRetention cfg) \<le> k"
  shows "report_value (Reports (rollup_reports cfg now rs) key gran from to) k
       = report_value (Reports rs key gran from to) k
    \<and> reports_map_ok (rollup_reports cfg now rs)"
proof -
  have gran: "ToLower gran \<in> {''hour'', ''day'', ''month''}" using k by auto
  note ok' = rollup_reports_ok [OF ok, of cfg now]
  have "(case mget (rollup_reports cfg now rs) key of None \<Rightarrow> zero_counters
          | Some s \<Rightarrow> counters_at (report_source (ToLower gran) s) k)
      = (case mget rs key of None \<Rightarrow> zero_counters | Some s \<Rightarrow> counters_at (report_source (ToLower gran) s) k)"
  proof (cases "mget rs key")
    case None
    with ok show ?thesis by (simp add: rollup_reports_get reports_map_ok_def)
  next
    case (Some s)
    let ?s = "rollup_series cfg now s"
    from reports_map_okD [OF ok Some] have "series_ok s" .
    note src = rollup_series_source [OF this ret, of now k]
    have eq: "counters_at (report_source (ToLower gran) ?s) k = counters_at (report_source (ToLower gran) s) k"
      using k src by auto
    have "series_empty ?s \<Longrightarrow> counters_at (report_source (ToLower gran) ?s) k = zero_counters"
      by (auto simp: series_empty_def report_source_def counters_at_def)
    with eq Some ok show ?thesis by (auto simp: rollup_reports_get reports_map_ok_def)
  qed
  then show ?thesis
    using Reports_value [OF gran ok] Reports_value [OF gran ok'] ok' by simp
qed

theorem rollup_preserves_reports_witness:
  "ct_UploadBytes (report_value (Reports (rollup_reports sample_reports_config (10000 * Second)
      [(''global:global'', sample_series)]) ''global:global'' ''Day'' 0 (86400 * Second)) 0) = 12"
proof -
  have day: "ToLower ''Day'' = ''day''" by code_simp
  have low: "ToLower ''Day'' = ''day'' \<and> Unix (10000 * Second - r_DailyRetention sample_reports_config) \<le> 0
      \<or> ToLower ''Day'' = ''month'' \<and> Unix (10000 * Second - r_MonthlyRetention sample_reports_config) \<le> 0"
    and ret: "Hour \<le> r_HourlyRetention sample_reports_config"
    by (simp_all add: day sample_reports_config_def time_units Unix_def)
  have "ct_UploadBytes (report_value (Reports [(''global:global'', sample_series)] ''global:global'' ''Day'' 0 (86400 * Second)) 0) = 12"
    by code_simp
  with rollup_preserves_reports [OF sample_reports_ok ret low] show ?thesis by simp
qed

lemma id_barfree: "idPattern s \<Longrightarrow> barfree s"
  by (cases s) (auto simp: barfree_def is_alnum_def list_all_iff)

lemma dimension_barfree:
  assumes "idPattern (p_ID spec)" "newRuntimePolicy spec a st = (p, st')"
  shows "barfree (pol_dimension p)"
proof -
  have "pol_dimension p = (case p_Kind spec of PolicyGlobal \<Rightarrow> ''global'' | PolicyDevice \<Rightarrow> ''device''
      | PolicyRule \<Rightarrow> ''rule'' | PolicyTarget \<Rightarrow> ''target'') @ '':'' @ p_ID spec"
    using assms(2) by (auto simp: newRuntimePolicy_def Let_def)
  with id_barfree [OF assms(1)] show ?thesis by (cases "p_Kind spec") (simp_all add: barfree_def)
qed



text \<open>
  C29. Bounding the reports keeps the newest. Loading more than 4096 series keeps exactly 4096 of
  them, dropping for space drops a tenth and at least one, the surviving series are unchanged, and no
  dropped series was updated later than one that survives. The second operation makes progress, so
  the loop that trims the reports to the store limit ends.
\<close>

theorem report_limits:
  assumes ok: "mkeys_ok rs"
  shows "length (limitStagedReports rs) = min (length rs) maxReportSeries
    \<and> (\<forall>a b s t. mget rs a = Some s \<and> mget (limitStagedReports rs) a = None \<and> mget (limitStagedReports rs) b = Some t
         \<longrightarrow> mget rs b = Some t \<and> (sr_Updated s, a) \<le> (sr_Updated t, b))
    \<and> (case dropOldestReportSeries rs of
         None \<Rightarrow> rs = []
       | Some rs' \<Rightarrow> length rs' = length rs - (length rs + 9) div 10 \<and> length rs' < length rs
          \<and> (\<forall>a b s t. mget rs a = Some s \<and> mget rs' a = None \<and> mget rs' b = Some t
               \<longrightarrow> mget rs b = Some t \<and> sr_Updated s \<le> sr_Updated t))"
proof (intro conjI)
  let ?K = "\<lambda>(key :: string, updated :: int). (updated, key)"
  note d = drop_sorted [OF ok, where K = ?K and n = "length rs - maxReportSeries"]
  have lim: "limitStagedReports rs = (if length rs \<le> maxReportSeries then rs
      else fold (\<lambda>(key, _). mdel key) (take (length rs - maxReportSeries)
        (sort_key ?K (map (\<lambda>(key, series). (key, sr_Updated series)) rs))) rs)"
    by (simp add: limitStagedReports_def Let_def)
  show "length (limitStagedReports rs) = min (length rs) maxReportSeries"
    using d(1) by (simp add: lim)
  show "\<forall>a b s t. mget rs a = Some s \<and> mget (limitStagedReports rs) a = None \<and> mget (limitStagedReports rs) b = Some t
         \<longrightarrow> mget rs b = Some t \<and> (sr_Updated s, a) \<le> (sr_Updated t, b)"
  proof (cases "length rs \<le> maxReportSeries")
    case True
    then show ?thesis unfolding lim by (simp only: if_True) fastforce
  next
    case False
    then show ?thesis using d(3,4) unfolding lim by (simp only: if_False prod.case) blast
  qed
  show "case dropOldestReportSeries rs of
         None \<Rightarrow> rs = []
       | Some rs' \<Rightarrow> length rs' = length rs - (length rs + 9) div 10 \<and> length rs' < length rs
          \<and> (\<forall>a b s t. mget rs a = Some s \<and> mget rs' a = None \<and> mget rs' b = Some t
               \<longrightarrow> mget rs b = Some t \<and> sr_Updated s \<le> sr_Updated t)"
  proof (cases "rs = []")
    case False
    let ?n = "(length rs + 9) div 10"
    from False have n: "1 \<le> ?n" "?n \<le> length rs" by (cases rs; auto)+
    note e = drop_sorted [OF ok, where K = "snd :: string \<times> int \<Rightarrow> int" and n = ?n]
    have "dropOldestReportSeries rs = Some (fold (\<lambda>(key, _). mdel key) (take ?n
        (sort_key snd (map (\<lambda>(key, series). (key, sr_Updated series)) rs))) rs)"
      using False n by (simp add: dropOldestReportSeries_def Let_def)
    with e n False show ?thesis by (auto simp only: option.case min.absorb1 snd_conv)
  qed (simp add: dropOldestReportSeries_def)
qed

theorem report_limits_witness:
  "dropOldestReportSeries [(''a'', sample_series), (''b'', new_series ''b'')] = Some [(''a'', sample_series)]
   \<and> length (limitStagedReports [(''a'', sample_series), (''b'', new_series ''b'')]) = 2"
proof -
  have "mkeys_ok [(''a'', sample_series), (''b'', new_series ''b'')]" by simp
  from report_limits [OF this]
  have "length (limitStagedReports [(''a'', sample_series), (''b'', new_series ''b'')]) = 2"
    by (simp add: maxReportSeries_def)
  moreover have "dropOldestReportSeries [(''a'', sample_series), (''b'', new_series ''b'')] = Some [(''a'', sample_series)]"
    by (simp add: dropOldestReportSeries_def sample_series_def new_series_def Let_def)
  ultimately show ?thesis by simp
qed

end
