(* ===== verification/Go_Bytes.thy ===== *)
theory Go_Bytes
  imports Go_Strings
begin

section \<open>Bytes\<close>

text \<open>
  Byte slices are lists of characters. This theory has the fixed-width big-endian encodings of
  \<^verbatim>\<open>encoding/binary\<close> that the wire formats and the stores use, reading a given number of bytes from
  the front of a stream, and their inverses.
\<close>

subsection \<open>Big-endian numbers\<close>

definition byte :: "nat \<Rightarrow> char" where
  "byte n = char_of (n mod 256)"

definition PutUint32 :: "nat \<Rightarrow> string" where
  "PutUint32 n = [byte (n div 16777216), byte (n div 65536), byte (n div 256), byte n]"

fun be_value :: "nat \<Rightarrow> string \<Rightarrow> nat" where
  "be_value acc [] = acc"
| "be_value acc (c # s) = be_value (acc * 256 + of_char c) s"

definition Uint32 :: "string \<Rightarrow> nat" where
  "Uint32 = be_value 0"

definition PutUint16 :: "nat \<Rightarrow> string" where
  "PutUint16 n = [byte (n div 256), byte n]"

definition Uint16 :: "string \<Rightarrow> nat" where
  "Uint16 = be_value 0"

text \<open>\<^verbatim>\<open>io.ReadFull\<close> on a stream: the next bytes and the rest, or nothing when it ends too early.\<close>

definition ReadFull :: "nat \<Rightarrow> string \<Rightarrow> (string \<times> string) option" where
  "ReadFull n s = (if n \<le> length s then Some (take n s, drop n s) else None)"

subsection \<open>Laws\<close>

lemma of_char_byte [simp]: "(of_char (byte n) :: nat) = n mod 256"
  by (simp add: byte_def)

lemma PutUint32_length [simp]: "length (PutUint32 n) = 4"
  by (simp add: PutUint32_def)

lemma be_value_append: "be_value acc (s @ t) = be_value (be_value acc s) t"
  by (induction acc s rule: be_value.induct) auto

lemma be_value_PutUint32: "be_value acc (PutUint32 n) = acc * 4294967296 + n mod 4294967296"
proof -
  have "n mod 4294967296 = 256 * (n div 256 mod 16777216) + n mod 256"
    "n div 256 mod 16777216 = 256 * (n div 65536 mod 65536) + n div 256 mod 256"
    "n div 65536 mod 65536 = 256 * (n div 16777216 mod 256) + n div 65536 mod 256"
    using mod_mult2_eq [of n 256 16777216] mod_mult2_eq [of "n div 256" 256 65536]
      mod_mult2_eq [of "n div 65536" 256 256]
    by (simp_all add: div_mult2_eq [symmetric])
  then show ?thesis by (simp add: PutUint32_def)
qed

lemma Uint32_PutUint32: "n < 4294967296 \<Longrightarrow> Uint32 (PutUint32 n) = n"
  by (simp add: Uint32_def be_value_PutUint32)

lemma char_less_256: "(of_char c :: nat) < 256"
proof -
  have "(of_char c :: nat) = of_char c mod 256" by simp
  also have "\<dots> < 256" by (rule mod_less_divisor) simp
  finally show ?thesis .
qed

lemma char_nibbles: "(of_char c :: nat) div 16 < 16" "(of_char c :: nat) mod 16 < 16"
  using char_less_256 [of c] by (auto intro: less_mult_imp_div_less)

lemma PutUint16_length [simp]: "length (PutUint16 n) = 2"
  by (simp add: PutUint16_def)

lemma Uint16_PutUint16: "n < 65536 \<Longrightarrow> Uint16 (PutUint16 n) = n"
proof -
  assume "n < 65536"
  then have "n div 256 < 256" by (simp add: less_mult_imp_div_less)
  then show ?thesis by (simp add: Uint16_def PutUint16_def)
qed

lemma byte_of_char [simp]: "byte (of_char c) = c"
  using char_less_256 [of c] by (simp add: byte_def)

lemma ReadFull_append: "length a = n \<Longrightarrow> ReadFull n (a @ b) = Some (a, b)"
  by (simp add: ReadFull_def)

lemma ReadFull_Some: "ReadFull n s = Some (a, b) \<longleftrightarrow> s = a @ b \<and> length a = n"
  by (auto simp: ReadFull_def)

end
