(* ===== verification/TC_Store.thy ===== *)
theory TC_Store
  imports TC_Reports Go_Bytes
begin

section \<open>Traffic control: the persistent store\<close>

text \<open>
  \<^verbatim>\<open>component/trafficcontrol/store.go\<close>: the framing of a stored value with its magic, length and
  checksum, \<^verbatim>\<open>Save\<close> and \<^verbatim>\<open>Load\<close>. The database is its three buckets; a \<^verbatim>\<open>bbolt\<close> transaction
  replaces all of them or none. The JSON codec, the zstd codec and the outcome of a commit, of a
  backup and of a \<^verbatim>\<open>stat\<close> are fields of \<open>store_lib\<close>; the checksum is computed.
\<close>

subsection \<open>Persisted data\<close>

record persistedPolicy =
  pp_ID :: string
  pp_Identity :: string
  pp_Generation :: "64 word"
  pp_Counters :: Counters
  pp_Buckets :: buckets
  pp_OverQuota :: bool
  pp_LastUpdated :: int
  pp_LastReset :: int
  pp_LastSeen :: int

record persistedReport =
  pr_Key :: string
  pr_Updated :: int
  pr_Hourly :: buckets
  pr_Daily :: buckets
  pr_Monthly :: buckets
  pr_Rolled :: "(int, bool) gomap"

record store_db =
  db_schema :: "string option"
  db_checkpoint :: "string option"
  db_policies :: "(string, string) gomap"
  db_reports :: "(string, string) gomap"

record store_lib =
  sl_marshalP :: "persistedPolicy \<Rightarrow> string"
  sl_unmarshalP :: "string \<Rightarrow> persistedPolicy option"
  sl_marshalR :: "persistedReport \<Rightarrow> string"
  sl_unmarshalR :: "string \<Rightarrow> persistedReport option"
  sl_EncodeAll :: "string \<Rightarrow> string"
  sl_DecodeAll :: "string \<Rightarrow> string option"
  sl_commit :: "store_db \<Rightarrow> bool"
  sl_backup :: "store_db \<Rightarrow> bool"
  sl_size :: "store_db \<Rightarrow> int"

record Store =
  st_path :: string
  st_maxSize :: int
  st_db :: store_db
  st_uncompressed :: int
  st_saveCount :: "64 word"

datatype store_err =
    UnexpectedEOF
  | BlobExceedsLimit
  | UnknownCodec
  | DecompressError
  | LengthMismatch
  | ChecksumMismatch
  | JSONError
  | CommitError
  | BackupError
  | ErrStoreLimit
  | SchemaUnsupported
  | OpenError

subsection \<open>Big-endian numbers\<close>

definition uint64Bytes :: "64 word \<Rightarrow> string" where
  "uint64Bytes v = (let n = unat v in PutUint32 (n div 4294967296) @ PutUint32 n)"

definition Uint64 :: "string \<Rightarrow> 64 word" where
  "Uint64 s = of_nat (be_value 0 s)"

subsection \<open>The checksum\<close>

text \<open>\<^verbatim>\<open>crc32.Checksum\<close> with the Castagnoli polynomial, one bit at a time.\<close>

definition crc_shift :: "32 word \<Rightarrow> 32 word" where
  "crc_shift c = (if bit c 0 then xor (drop_bit 1 c) 0x82F63B78 else drop_bit 1 c)"

definition crc_byte :: "32 word \<Rightarrow> char \<Rightarrow> 32 word" where
  "crc_byte c b = (crc_shift ^^ 8) (xor c (of_nat (of_char b)))"

definition crc32c :: "string \<Rightarrow> 32 word" where
  "crc32c s = not (foldl crc_byte (not 0) s)"

subsection \<open>Framing a value\<close>

definition storeSchemaVersion :: "64 word" where "storeSchemaVersion = 1"
definition compressedMagic :: string where "compressedMagic = ''TCZ1''"
definition rawMagic :: string where "rawMagic = ''TCR1''"
definition compressionFloor :: nat where "compressionFloor = 256"
definition maxDecodedBlob :: nat where "maxDecodedBlob = 33554432"

definition encodeBlob :: "store_lib \<Rightarrow> string \<Rightarrow> string" where
  "encodeBlob lib raw =
     (let header = PutUint32 (length raw) @ PutUint32 (unat (crc32c raw)) in
      if length raw < compressionFloor then rawMagic @ header @ raw
      else compressedMagic @ header @ sl_EncodeAll lib raw)"

definition decodeBlob :: "store_lib \<Rightarrow> string \<Rightarrow> store_err + string" where
  "decodeBlob lib value =
     (if length value < 12 then Inl UnexpectedEOF
      else
        let len = Uint32 (take 4 (drop 4 value)) in
        if len > maxDecodedBlob then Inl BlobExceedsLimit
        else
          bindR (if take 4 value = rawMagic then Inr (drop 12 value)
                 else if take 4 value = compressedMagic
                 then (case sl_DecodeAll lib (drop 12 value) of None \<Rightarrow> Inl DecompressError | Some raw \<Rightarrow> Inr raw)
                 else Inl UnknownCodec)
            (\<lambda>raw.
              if length raw \<noteq> len then Inl LengthMismatch
              else if unat (crc32c raw) \<noteq> Uint32 (take 4 (drop 8 value)) then Inl ChecksumMismatch
              else Inr raw))"

definition decodeJSON :: "store_lib \<Rightarrow> (string \<Rightarrow> 'a option) \<Rightarrow> string \<Rightarrow> store_err + 'a" where
  "decodeJSON lib unmarshal value =
     bindR (decodeBlob lib value) (\<lambda>raw. case unmarshal raw of None \<Rightarrow> Inl JSONError | Some v \<Rightarrow> Inr v)"

subsection \<open>Saving and loading\<close>

definition persist_policy :: "policyState \<Rightarrow> persistedPolicy" where
  "persist_policy state = \<lparr>pp_ID = ps_ID state, pp_Identity = ps_Identity state,
     pp_Generation = ps_Generation state, pp_Counters = ps_Counters state, pp_Buckets = ps_Buckets state,
     pp_OverQuota = ps_OverQuota state, pp_LastUpdated = ps_LastUpdated state,
     pp_LastReset = ps_LastReset state, pp_LastSeen = ps_LastSeen state\<rparr>"

definition restore_policy :: "persistedPolicy \<Rightarrow> policyState" where
  "restore_policy p = \<lparr>ps_ID = pp_ID p, ps_Identity = pp_Identity p, ps_Generation = pp_Generation p,
     ps_Counters = pp_Counters p, ps_Buckets = pp_Buckets p, ps_rolling = zero_counters, ps_bucketStart = 0,
     ps_nextCutoff = 0, ps_OverQuota = pp_OverQuota p, ps_Active = 0, ps_LastUpdated = pp_LastUpdated p,
     ps_LastReset = pp_LastReset p, ps_LastSeen = pp_LastSeen p\<rparr>"

definition persist_report :: "reportSeries \<Rightarrow> persistedReport" where
  "persist_report s = \<lparr>pr_Key = sr_Key s, pr_Updated = sr_Updated s, pr_Hourly = sr_Hourly s,
     pr_Daily = sr_Daily s, pr_Monthly = sr_Monthly s, pr_Rolled = sr_Rolled s\<rparr>"

definition restore_report :: "persistedReport \<Rightarrow> reportSeries" where
  "restore_report p = \<lparr>sr_Key = pr_Key p, sr_Updated = pr_Updated p, sr_Hourly = pr_Hourly p,
     sr_Daily = pr_Daily p, sr_Monthly = pr_Monthly p, sr_Rolled = pr_Rolled p\<rparr>"

definition initialize :: "store_lib \<Rightarrow> store_db \<Rightarrow> store_err + store_db" where
  "initialize lib db =
     (case db_schema db of
        None \<Rightarrow>
          let db = db\<lparr>db_schema := Some (uint64Bytes storeSchemaVersion)\<rparr>
          in if sl_commit lib db then Inr db else Inl CommitError
      | Some schema \<Rightarrow>
          if length schema \<noteq> 8 \<or> Uint64 schema \<noteq> storeSchemaVersion then Inl SchemaUnsupported
          else if sl_commit lib db then Inr db else Inl CommitError)"

definition load_policy ::
  "store_lib \<Rightarrow> (string, policyState) gomap \<Rightarrow> string \<times> string \<Rightarrow> store_err + (string, policyState) gomap" where
  "load_policy lib states entry =
     bindR (decodeJSON lib (sl_unmarshalP lib) (snd entry)) (\<lambda>p. Inr (mset' (pp_ID p) (restore_policy p) states))"

definition load_report :: "store_lib \<Rightarrow> reports \<Rightarrow> string \<times> string \<Rightarrow> store_err + reports" where
  "load_report lib reports entry =
     bindR (decodeJSON lib (sl_unmarshalR lib) (snd entry)) (\<lambda>p. Inr (mset' (pr_Key p) (restore_report p) reports))"

definition Load :: "store_lib \<Rightarrow> store_db \<Rightarrow> store_err + (string, policyState) gomap \<times> reports \<times> int" where
  "Load lib db =
     (let checkpoint = (case db_checkpoint db of
            Some v \<Rightarrow> if length v = 8 then sint (Uint64 v) else 0
          | None \<Rightarrow> 0)
      in bindR (foldR (load_policy lib) [] (db_policies db)) (\<lambda>states.
         bindR (foldR (load_report lib) [] (db_reports db)) (\<lambda>reports.
           Inr (states, reports, checkpoint))))"

definition saved_db :: "store_lib \<Rightarrow> (string, policyState) gomap \<Rightarrow> reports \<Rightarrow> int \<Rightarrow> store_db \<Rightarrow> store_db" where
  "saved_db lib states reports checkpoint db =
     db\<lparr>db_policies := map (\<lambda>(key, s). (key, encodeBlob lib (sl_marshalP lib (persist_policy s)))) states,
        db_reports := map (\<lambda>(key, s). (key, encodeBlob lib (sl_marshalR lib (persist_report s)))) reports,
        db_checkpoint := Some (uint64Bytes (of_int checkpoint))\<rparr>"

definition raw_bytes :: "store_lib \<Rightarrow> (string, policyState) gomap \<Rightarrow> reports \<Rightarrow> int" where
  "raw_bytes lib states reports =
     (\<Sum>(_, s) \<leftarrow> states. int (length (sl_marshalP lib (persist_policy s))))
   + (\<Sum>(_, s) \<leftarrow> reports. int (length (sl_marshalR lib (persist_report s))))"

definition Save :: "store_lib \<Rightarrow> (string, policyState) gomap \<Rightarrow> reports \<Rightarrow> int \<Rightarrow> Store \<Rightarrow> Store \<times> store_err option" where
  "Save lib states reports checkpoint s =
     (let db = saved_db lib states reports checkpoint (st_db s) in
      if \<not> sl_commit lib db then (s, Some CommitError)
      else
        let s = s\<lparr>st_db := db, st_uncompressed := raw_bytes lib states reports,
                  st_saveCount := st_saveCount s + 1\<rparr>
        in if (st_saveCount s = 1 \<or> st_saveCount s mod 12 = 0) \<and> \<not> sl_backup lib db then (s, Some BackupError)
           else if st_maxSize s > 0 \<and> sl_size lib db > st_maxSize s then (s, Some ErrStoreLimit)
           else (s, None))"

subsection \<open>Numbers\<close>

lemma Uint64_uint64Bytes [simp]: "Uint64 (uint64Bytes v) = v" "length (uint64Bytes v) = 8"
proof -
  have n: "unat v < 4294967296 * 4294967296" using unsigned_less [of v] by simp
  then have "unat v div 4294967296 < 4294967296" by (simp add: less_mult_imp_div_less)
  then have "be_value 0 (uint64Bytes v) = unat v"
    by (simp add: uint64Bytes_def Let_def be_value_append be_value_PutUint32)
  then show "Uint64 (uint64Bytes v) = v" by (simp add: Uint64_def)
qed (simp add: uint64Bytes_def Let_def)

lemma unat_crc: "unat (crc32c s) < 4294967296"
  using unsigned_less [of "crc32c s"] by simp

subsection \<open>The checksum sees every change of one byte\<close>

lemma crc_shift_inj: "inj crc_shift"
proof (rule injI)
  fix a b assume eq: "crc_shift a = crc_shift b"
  have top: "bit (crc_shift c) 31 = bit c 0" for c
    using bit_imp_le_length [of c 32] by (auto simp: crc_shift_def bit_simps bit_numeral_rec)
  from eq have low: "bit a 0 = bit b 0" using top [of a] top [of b] by simp
  have "drop_bit 1 a = drop_bit 1 b"
  proof (cases "bit a 0")
    case True
    with eq low have "xor (drop_bit 1 a) 0x82F63B78 = xor (drop_bit 1 b) 0x82F63B78"
      by (simp add: crc_shift_def)
    then have "xor (xor (drop_bit 1 a) 0x82F63B78) 0x82F63B78 = xor (xor (drop_bit 1 b) 0x82F63B78) 0x82F63B78" by simp
    then show ?thesis by (simp only: xor.assoc xor_self_eq xor.right_neutral)
  next
    case False
    with eq low show ?thesis by (simp add: crc_shift_def)
  qed
  then have "bit a (Suc n) = bit b (Suc n)" for n
    by (metis bit_drop_bit_eq comp_apply plus_1_eq_Suc)
  with low have "bit a n = bit b n" for n by (cases n) simp_all
  then show "a = b" by (intro bit_word_eqI) simp
qed

lemma xor_cancel:
  "xor a x = xor a y \<longleftrightarrow> x = y" "xor x a = xor y a \<longleftrightarrow> x = (y :: 32 word)"
proof -
  have "xor a (xor a z) = z" for z by (simp add: xor.assoc [symmetric])
  then show "xor a x = xor a y \<longleftrightarrow> x = y" by (metis (no_types))
  then show "xor x a = xor y a \<longleftrightarrow> x = y" by (simp add: xor.commute)
qed

lemma crc_byte_inj: "crc_byte a x = crc_byte b x \<longleftrightarrow> a = b"
proof -
  have "inj (crc_shift ^^ 8)" using crc_shift_inj by (rule inj_fn)
  then have "crc_byte a x = crc_byte b x \<longleftrightarrow> xor a (of_nat (of_char x)) = xor b (of_nat (of_char x))"
    unfolding crc_byte_def by (rule inj_eq)
  also have "\<dots> \<longleftrightarrow> a = b"
    by (rule xor_cancel)
  finally show ?thesis .
qed

lemma crc_byte_char: "crc_byte a x = crc_byte a y \<longleftrightarrow> x = y"
proof -
  have "inj (crc_shift ^^ 8)" using crc_shift_inj by (rule inj_fn)
  then have "crc_byte a x = crc_byte a y \<longleftrightarrow> xor a (of_nat (of_char x)) = xor a (of_nat (of_char y))"
    unfolding crc_byte_def by (rule inj_eq)
  also have "\<dots> \<longleftrightarrow> (of_nat (of_char x) :: 32 word) = of_nat (of_char y)"
    by (rule xor_cancel)
  also have "\<dots> \<longleftrightarrow> x = y"
  proof
    assume "(of_nat (of_char x) :: 32 word) = of_nat (of_char y)"
    then have "unat (of_nat (of_char x) :: 32 word) = unat (of_nat (of_char y) :: 32 word)" by simp
    moreover have "unat (of_nat (of_char c) :: 32 word) = of_char c" for c :: char
    proof -
      have "(of_char c :: nat) < 4294967296" by (rule less_trans [OF nat_of_char_less_256]) simp
      then show ?thesis by (simp add: unat_of_nat)
    qed
    ultimately show "x = y" by simp
  qed simp
  finally show ?thesis .
qed

lemma crc_fold_inj: "foldl crc_byte a s = foldl crc_byte b s \<longleftrightarrow> a = b"
  by (induction s arbitrary: a b) (simp_all add: crc_byte_inj)

lemma crc32c_one_byte: "crc32c (s @ x # t) = crc32c (s @ y # t) \<longleftrightarrow> x = y"
  by (simp add: crc32c_def crc_fold_inj crc_byte_char)

lemma update_fresh: "k \<notin> fst ` set m \<Longrightarrow> mset' k v m = m @ [(k, v)]"
  by (induction m) auto

subsection \<open>What the store relies on\<close>

text \<open>
  The interface between the framing of values and the operations that save and load whole maps: a
  decoder that inverts an encoder on the values that are small enough.
\<close>

locale blob_codec =
  fixes encode :: "'l \<Rightarrow> string \<Rightarrow> string"
    and decode :: "'l \<Rightarrow> string \<Rightarrow> 'e + string"
    and fits :: "'l \<Rightarrow> string \<Rightarrow> bool"
  assumes decode_encode: "fits lib raw \<Longrightarrow> decode lib (encode lib raw) = Inr raw"
begin

lemma encode_inj: "fits lib a \<Longrightarrow> fits lib b \<Longrightarrow> encode lib a = encode lib b \<Longrightarrow> a = b"
  by (metis decode_encode sum.inject(2))

text \<open>Loading entries one after the other into a map restores the map they were saved from.\<close>

lemma load_entries:
  assumes step: "\<And>acc k v. (k, v) \<in> set m \<Longrightarrow> load acc (k, encode lib (print v)) =
      bindR (decode lib (encode lib (print v))) (\<lambda>raw. Inr (mset' k (back v) acc))"
    and fits: "\<And>k v. (k, v) \<in> set m \<Longrightarrow> fits lib (print v)"
    and keys: "mkeys_ok m" "fst ` set m \<inter> fst ` set acc = {}"
  shows "foldR load acc (map (\<lambda>(k, v). (k, encode lib (print v))) m) = Inr (acc @ map (\<lambda>(k, v). (k, back v)) m)"
  using assms
proof (induction m arbitrary: acc)
  case (Cons e m)
  obtain k v where e: "e = (k, v)" by (cases e)
  have new: "mset' k (back v) acc = acc @ [(k, back v)]"
    using Cons.prems(4) e by (intro update_fresh) auto
  have "foldR load (acc @ [(k, back v)]) (map (\<lambda>(k, v). (k, encode lib (print v))) m)
      = Inr ((acc @ [(k, back v)]) @ map (\<lambda>(k, v). (k, back v)) m)"
  proof (rule Cons.IH)
    show "load acc (k, encode lib (print v)) =
        bindR (decode lib (encode lib (print v))) (\<lambda>raw. Inr (mset' k (back v) acc))"
      if "(k, v) \<in> set m" for acc k v
      using that by (intro Cons.prems(1)) simp
    show "fits lib (print v)" if "(k, v) \<in> set m" for k v
      using that by (intro Cons.prems(2) [of k]) simp
  qed (use Cons.prems(3,4) e in auto)
  with Cons.prems(1) [of k v acc] Cons.prems(2) [of k v] e show ?case
    by (simp add: decode_encode new)
qed simp

end

lemma encodeBlob_decode:
  assumes "\<forall>s. sl_DecodeAll lib (sl_EncodeAll lib s) = Some s" "length raw \<le> maxDecodedBlob"
  shows "decodeBlob lib (encodeBlob lib raw) = Inr raw"
proof -
  have n: "length raw < 4294967296" using assms(2) by (simp add: maxDecodedBlob_def)
  define h where "h = PutUint32 (length raw) @ PutUint32 (unat (crc32c raw))"
  have h: "length h = 8" "take 4 h = PutUint32 (length raw)" "take 4 (drop 4 h) = PutUint32 (unat (crc32c raw))"
    by (simp_all add: h_def)
  have frame: "take 4 (m @ h @ b) = m" "take 4 (drop 4 (m @ h @ b)) = take 4 h"
    "take 4 (drop 8 (m @ h @ b)) = take 4 (drop 4 h)" "drop 12 (m @ h @ b) = b" "(length (m @ h @ b) < 12) = False"
    if "length m = 4" for m b
    using that h(1) by simp_all
  have ok: "decodeBlob lib (m @ h @ b) = Inr raw"
    if "m = rawMagic \<and> b = raw \<or> m = compressedMagic \<and> b = sl_EncodeAll lib raw" for m b
  proof -
    have m: "length m = 4" using that by (auto simp: rawMagic_def compressedMagic_def)
    show ?thesis
      unfolding decodeBlob_def frame [OF m] h Let_def
      using that assms(1,2) n unat_crc [of raw] h(1)
      by (auto simp: Uint32_PutUint32 rawMagic_def compressedMagic_def)
  qed
  have "encodeBlob lib raw = (if length raw < compressionFloor then rawMagic @ h @ raw
      else compressedMagic @ h @ sl_EncodeAll lib raw)"
    by (simp add: encodeBlob_def h_def Let_def)
  with ok show ?thesis by simp
qed

interpretation tcb: blob_codec encodeBlob decodeBlob
  "\<lambda>lib raw. (\<forall>s. sl_DecodeAll lib (sl_EncodeAll lib s) = Some s) \<and> length raw \<le> maxDecodedBlob"
  by unfold_locales (auto simp: encodeBlob_decode)

subsection \<open>Saving and loading\<close>

text \<open>
  What saving and loading relies on: zstd decompresses what it compressed, JSON decodes the values
  that are saved, and none of them exceeds the decode limit.
\<close>

definition codec_ok :: "store_lib \<Rightarrow> (string, policyState) gomap \<Rightarrow> reports \<Rightarrow> bool" where
  "codec_ok lib states reports \<longleftrightarrow>
     (\<forall>s. sl_DecodeAll lib (sl_EncodeAll lib s) = Some s)
   \<and> (\<forall>(k, s) \<in> set states. sl_unmarshalP lib (sl_marshalP lib (persist_policy s)) = Some (persist_policy s)
        \<and> length (sl_marshalP lib (persist_policy s)) \<le> maxDecodedBlob)
   \<and> (\<forall>(k, s) \<in> set reports. sl_unmarshalR lib (sl_marshalR lib (persist_report s)) = Some (persist_report s)
        \<and> length (sl_marshalR lib (persist_report s)) \<le> maxDecodedBlob)"

text \<open>Every state and every series is filed under its own name.\<close>

definition filed :: "(string, policyState) gomap \<Rightarrow> reports \<Rightarrow> bool" where
  "filed states reports \<longleftrightarrow> mkeys_ok states \<and> mkeys_ok reports
   \<and> (\<forall>(k, s) \<in> set states. ps_ID s = k) \<and> (\<forall>(k, s) \<in> set reports. sr_Key s = k)"

definition restarted :: "policyState \<Rightarrow> policyState" where
  "restarted s = s\<lparr>ps_rolling := zero_counters, ps_bucketStart := 0, ps_nextCutoff := 0, ps_Active := 0\<rparr>"

lemma restore_persist [simp]:
  "restore_policy (persist_policy s) = restarted s" "restore_report (persist_report r) = r"
  by (simp_all add: restore_policy_def persist_policy_def restarted_def restore_report_def persist_report_def)

lemma Load_saved:
  assumes lib: "codec_ok lib states reports" and filed: "filed states reports"
    and cp: "- 9223372036854775808 \<le> checkpoint" "checkpoint \<le> max_int64"
  shows "Load lib (saved_db lib states reports checkpoint db)
    = Inr (map (\<lambda>(k, s). (k, restarted s)) states, reports, checkpoint)"
proof -
  have dec: "\<forall>s. sl_DecodeAll lib (sl_EncodeAll lib s) = Some s" using lib by (simp add: codec_ok_def)
  have "foldR (load_policy lib) [] (map (\<lambda>(k, s). (k, encodeBlob lib (sl_marshalP lib (persist_policy s)))) states)
      = Inr ([] @ map (\<lambda>(k, s). (k, restarted s)) states)"
  proof (rule tcb.load_entries)
    fix acc k s assume "(k, s) \<in> set states"
    then have "ps_ID s = k" "sl_unmarshalP lib (sl_marshalP lib (persist_policy s)) = Some (persist_policy s)"
      "length (sl_marshalP lib (persist_policy s)) \<le> maxDecodedBlob"
      using lib filed by (auto simp: codec_ok_def filed_def)
    with dec show "load_policy lib acc (k, encodeBlob lib (sl_marshalP lib (persist_policy s))) =
      bindR (decodeBlob lib (encodeBlob lib (sl_marshalP lib (persist_policy s)))) (\<lambda>raw. Inr (mset' k (restarted s) acc))"
      by (simp add: load_policy_def decodeJSON_def encodeBlob_decode) (simp add: persist_policy_def)
  qed (use lib filed in \<open>auto simp: codec_ok_def filed_def\<close>)
  moreover have "foldR (load_report lib) [] (map (\<lambda>(k, s). (k, encodeBlob lib (sl_marshalR lib (persist_report s)))) reports)
      = Inr ([] @ map (\<lambda>(k, s). (k, s)) reports)"
  proof (rule tcb.load_entries)
    fix acc k s assume "(k, s) \<in> set reports"
    then have "sr_Key s = k" "sl_unmarshalR lib (sl_marshalR lib (persist_report s)) = Some (persist_report s)"
      "length (sl_marshalR lib (persist_report s)) \<le> maxDecodedBlob"
      using lib filed by (auto simp: codec_ok_def filed_def)
    with dec show "load_report lib acc (k, encodeBlob lib (sl_marshalR lib (persist_report s))) =
      bindR (decodeBlob lib (encodeBlob lib (sl_marshalR lib (persist_report s)))) (\<lambda>raw. Inr (mset' k s acc))"
      by (simp add: load_report_def decodeJSON_def encodeBlob_decode) (simp add: persist_report_def)
  qed (use lib filed in \<open>auto simp: codec_ok_def filed_def\<close>)
  moreover have "sint (word_of_int checkpoint :: 64 word) = checkpoint"
    using cp by (simp add: signed_of_int signed_take_bit_int_eq_self)
  ultimately show ?thesis by (simp add: Load_def saved_db_def)
qed

subsection \<open>Properties\<close>

definition sample_store_lib :: store_lib where
  "sample_store_lib = \<lparr>sl_marshalP = (\<lambda>p. ''policy''),
     sl_unmarshalP = (\<lambda>s. if s = ''policy'' then Some (persist_policy sample_state) else None),
     sl_marshalR = (\<lambda>r. ''report''),
     sl_unmarshalR = (\<lambda>s. if s = ''report'' then Some (persist_report sample_series) else None),
     sl_EncodeAll = rev, sl_DecodeAll = (\<lambda>s. Some (rev s)),
     sl_commit = (\<lambda>_. True), sl_backup = (\<lambda>_. True), sl_size = (\<lambda>_. 4096)\<rparr>"

definition sample_store :: Store where
  "sample_store = \<lparr>st_path = ''traffic-control.db'', st_maxSize = 67108864,
     st_db = \<lparr>db_schema = None, db_checkpoint = None, db_policies = [], db_reports = []\<rparr>,
     st_uncompressed = 0, st_saveCount = 0\<rparr>"

lemma sample_codec:
  "codec_ok sample_store_lib [(''phone'', sample_state)] [(''global:global'', sample_series)]"
  "filed [(''phone'', sample_state)] [(''global:global'', sample_series)]"
  by (simp_all add: codec_ok_def filed_def sample_store_lib_def maxDecodedBlob_def)
    (simp_all add: sample_state_def sample_series_def)

text \<open>
  C25. What is saved is what is loaded. After a save, whatever error it reports later about the backup
  or the size limit, loading the database gives back every policy state with its counters, buckets and
  dates (only the caches and the number of open sessions start afresh), every report series and the
  time of the checkpoint; a save whose transaction fails leaves the store exactly as it was.
\<close>

theorem Save_Load:
  assumes "codec_ok lib states reports" "filed states reports"
    and "- 9223372036854775808 \<le> checkpoint" "checkpoint \<le> max_int64"
    and save: "Save lib states reports checkpoint s = (s', err)"
  shows "if err = Some CommitError then s' = s
    else Load lib (st_db s') = Inr (map (\<lambda>(k, st). (k, restarted st)) states, reports, checkpoint)"
proof (cases "sl_commit lib (saved_db lib states reports checkpoint (st_db s))")
  case True
  with save have "st_db s' = saved_db lib states reports checkpoint (st_db s)" "err \<noteq> Some CommitError"
    by (auto simp: Save_def Let_def split: if_splits)
  with Load_saved [OF assms(1-4)] show ?thesis by simp
next
  case False
  with save show ?thesis by (simp add: Save_def Let_def)
qed

theorem Save_Load_witness:
  "Load sample_store_lib (st_db (fst (Save sample_store_lib [(''phone'', sample_state)]
      [(''global:global'', sample_series)] 7300 sample_store)))
    = Inr ([(''phone'', sample_state)], [(''global:global'', sample_series)], 7300)"
proof -
  let ?r = "Save sample_store_lib [(''phone'', sample_state)] [(''global:global'', sample_series)] 7300 sample_store"
  have "snd ?r \<noteq> Some CommitError"
    by (simp add: Save_def Let_def sample_store_lib_def sample_store_def)
  moreover have "?r = (fst ?r, snd ?r)" by simp
  ultimately show ?thesis
    using Save_Load [OF sample_codec, of 7300 sample_store "fst ?r" "snd ?r"]
    by (simp add: restarted_def sample_state_def)
qed



end
