(* ===== verification/TC_Manager.thy ===== *)
theory TC_Manager
  imports TC_Store
begin

section \<open>Traffic control: the manager\<close>

text \<open>
  \<^verbatim>\<open>Manager\<close> of \<^verbatim>\<open>component/trafficcontrol/manager.go\<close>: sessions and the policies they are bound
  to, recording, reset, flushing to the store and the change of configuration. The policy states are
  shared between the state map, the runtime and the bindings of sessions, so they live in a heap and
  are referred to by address; a runtime has an identity, which a binding keeps to notice that it is
  stale. Each operation is one step: those that change the configuration, the states or the store hold
  the lock of the manager, and the others change shared data only under the lock of one state, under the
  gate of their runtime, or by atomic additions, which commute. An operation reads the clock once. Report series are only reached through the report map, so they are values of it; where a
  staged configuration shares them, the effect of the flush in between is applied to both.
\<close>

subsection \<open>State\<close>

record Flow =
  fl_SourceIP :: addr
  fl_RuleType :: string
  fl_RulePayload :: string
  fl_RuleTarget :: string
  fl_Chains :: "string list"

record runtimeState =
  rn_id :: nat
  rn_config :: "Config option"
  rn_policies :: "runtimePolicy list"
  rn_generation :: "64 word"

record sessionBinding =
  sb_runtime :: nat
  sb_policies :: "runtimePolicy list"
  sb_dimensions :: "string list"
  sb_reportKeys :: "string list"

record Session =
  ss_flow :: Flow
  ss_binding :: "sessionBinding option"
  ss_closed :: bool

record portalService =
  po_config :: PortalConfig
  po_listen :: string
  po_baseURL :: string
  po_secret :: string

type_synonym heap = "policyState list"

record Manager =
  m_heap :: heap
  m_runtime :: runtimeState
  m_states :: "(string, nat) gomap"
  m_reports :: reports
  m_store :: "Store option"
  m_revision :: "64 word"
  m_lastCheckpoint :: int
  m_dirty :: bool
  m_flusher :: "int option"
  m_wake :: bool
  m_portal :: "portalService option"
  m_sessions :: "Session list"

datatype mgr_err =
    StoreErr store_err
  | RevisionConflict
  | PolicyNotFound
  | PortalListenErr
  | NilDereference

text \<open>The world outside: the libraries, opening and compacting a store file, and listening.\<close>

record tc_env =
  env_lib :: tc_lib
  env_store :: store_lib
  env_open :: "string \<Rightarrow> int \<Rightarrow> store_err + Store"
  env_compact :: "Store \<Rightarrow> store_err + Store"
  env_listen :: "string \<Rightarrow> (string \<times> string) option"

definition NewManager :: Manager where
  "NewManager = \<lparr>m_heap = [], m_runtime = \<lparr>rn_id = 0, rn_config = None, rn_policies = [], rn_generation = 0\<rparr>,
     m_states = [], m_reports = [], m_store = None, m_revision = 0, m_lastCheckpoint = 0, m_dirty = False,
     m_flusher = None, m_wake = False, m_portal = None, m_sessions = []\<rparr>"

definition hmap :: "nat \<Rightarrow> (policyState \<Rightarrow> policyState) \<Rightarrow> heap \<Rightarrow> heap" where
  "hmap a f h = h[a := f (h ! a)]"

definition reports_enabled :: "runtimeState \<Rightarrow> bool" where
  "reports_enabled rt \<longleftrightarrow> (case rn_config rt of None \<Rightarrow> False | Some c \<Rightarrow> r_Enabled (c_Reports c))"

subsection \<open>Matching\<close>

definition policyMatches :: "Policy \<Rightarrow> Flow \<Rightarrow> RuleSelector \<Rightarrow> bool" where
  "policyMatches policy flow rule =
     (case p_Kind policy of
        PolicyGlobal \<Rightarrow> True
      | PolicyDevice \<Rightarrow>
          if fl_SourceIP flow = InvalidAddr then False
          else list_ex (\<lambda>prefix. prefix_contains prefix (Unmap (fl_SourceIP flow))
                 \<or> prefix_contains prefix (fl_SourceIP flow)) (p_SourceCIDRs policy)
      | PolicyRule \<Rightarrow> rl_Fingerprint (p_Rule policy) = rl_Fingerprint rule
      | PolicyTarget \<Rightarrow> list_ex (\<lambda>chain. chain = ts_Name (p_Target policy)) (fl_Chains flow))"

definition bind_state :: "runtimePolicy \<Rightarrow> int \<Rightarrow> policyState \<Rightarrow> policyState" where
  "bind_state p now s = (let s = refreshQuota p now s in s\<lparr>ps_Active := ps_Active s + 1\<rparr>)"

fun bind_loop :: "tc_lib \<Rightarrow> Flow \<Rightarrow> int \<Rightarrow> runtimePolicy list \<Rightarrow> heap \<Rightarrow> runtimePolicy list \<times> heap" where
  "bind_loop lib flow now [] h = ([], h)"
| "bind_loop lib flow now (p # ps) h =
     (if \<not> p_Enabled (pol_spec p) then bind_loop lib flow now ps h
      else if \<not> policyMatches (pol_spec p) flow
                 (CanonicalRule lib (fl_RuleType flow) (fl_RulePayload flow) (fl_RuleTarget flow))
      then bind_loop lib flow now ps h
      else let (ms, h) = bind_loop lib flow now ps (hmap (pol_state p) (bind_state p now) h) in (p # ms, h))"

definition bindSession :: "tc_lib \<Rightarrow> runtimeState \<Rightarrow> Flow \<Rightarrow> int \<Rightarrow> heap \<Rightarrow> sessionBinding \<times> heap" where
  "bindSession lib rt flow now h =
     (let binding = \<lparr>sb_runtime = rn_id rt, sb_policies = [], sb_dimensions = [], sb_reportKeys = []\<rparr> in
      if rn_config rt = None then (binding, h)
      else let (ms, h) = bind_loop lib flow now (rn_policies rt) h in
        (case ms of
           [] \<Rightarrow> (binding, h)
         | [p] \<Rightarrow> (binding\<lparr>sb_policies := [p], sb_dimensions := [pol_dimension p],
             sb_reportKeys := (if reports_enabled rt then [pol_dimension p] else [])\<rparr>, h)
         | _ \<Rightarrow> let dims = uniqueStrings (map pol_dimension ms) in
             (binding\<lparr>sb_policies := ms, sb_dimensions := dims,
                sb_reportKeys := (if reports_enabled rt then reportKeys dims else [])\<rparr>, h)))"

definition release_loop :: "runtimePolicy list \<Rightarrow> heap \<Rightarrow> heap" where
  "release_loop ps h = foldl (\<lambda>h p. hmap (pol_state p) (\<lambda>s. s\<lparr>ps_Active := ps_Active s - 1\<rparr>) h) h ps"

definition releaseSessionBinding :: "sessionBinding option \<Rightarrow> heap \<Rightarrow> heap" where
  "releaseSessionBinding b h = (case b of None \<Rightarrow> h | Some b \<Rightarrow> release_loop (sb_policies b) h)"

subsection \<open>Sessions\<close>

definition Open :: "tc_env \<Rightarrow> Flow \<Rightarrow> int \<Rightarrow> Manager \<Rightarrow> nat option \<times> Manager" where
  "Open env flow now m =
     (let (binding, h) = bindSession (env_lib env) (m_runtime m) flow now (m_heap m);
          m = m\<lparr>m_heap := h\<rparr> in
      if sb_policies binding = [] then (None, m)
      else (Some (length (m_sessions m)),
        m\<lparr>m_sessions := m_sessions m @ [\<lparr>ss_flow = flow, ss_binding = Some binding, ss_closed = False\<rparr>],
          m_reports := recordReportConnections (reports_enabled (m_runtime m)) (sb_reportKeys binding) 1 now (m_reports m)\<rparr>))"

text \<open>The slow path of \<^verbatim>\<open>currentBinding\<close>: bind to the current runtime, then release the old binding.\<close>

definition rebind :: "tc_env \<Rightarrow> nat \<Rightarrow> int \<Rightarrow> Manager \<Rightarrow> sessionBinding \<times> Manager" where
  "rebind env i now m =
     (let s = m_sessions m ! i;
          (next, h) = bindSession (env_lib env) (m_runtime m) (ss_flow s) now (m_heap m);
          h = releaseSessionBinding (ss_binding s) h
      in (next, m\<lparr>m_heap := h, m_sessions := (m_sessions m)[i := s\<lparr>ss_binding := Some next\<rparr>],
            m_reports := recordReportConnections (reports_enabled (m_runtime m)) (sb_reportKeys next) 1 now (m_reports m)\<rparr>))"

definition currentBinding :: "tc_env \<Rightarrow> nat \<Rightarrow> int \<Rightarrow> Manager \<Rightarrow> sessionBinding option \<times> Manager" where
  "currentBinding env i now m =
     (let s = m_sessions m ! i in
      if ss_closed s then (None, m)
      else (case ss_binding s of
          Some b \<Rightarrow>
            if sb_runtime b = rn_id (m_runtime m) then (Some b, m)
            else let (next, m) = rebind env i now m in (Some next, m)
        | None \<Rightarrow> let (next, m) = rebind env i now m in (Some next, m)))"

definition Session_Close :: "nat \<Rightarrow> Manager \<Rightarrow> Manager" where
  "Session_Close i m =
     (let s = m_sessions m ! i in
      if ss_closed s then m
      else m\<lparr>m_sessions := (m_sessions m)[i := s\<lparr>ss_closed := True, ss_binding := None\<rparr>],
             m_heap := releaseSessionBinding (ss_binding s) (m_heap m)\<rparr>)"

definition refresh_over :: "int \<Rightarrow> runtimePolicy \<Rightarrow> heap \<Rightarrow> heap" where
  "refresh_over now p h = (if ps_OverQuota (h ! pol_state p) then hmap (pol_state p) (refreshQuota p now) h else h)"

text \<open>
  The pieces a wait is split into. With a burst that is not positive the loop of the code would not
  end and the model yields no piece; \<^verbatim>\<open>newLimiter\<close> only makes limiters with a positive burst.
\<close>

function wait_chunks :: "int \<Rightarrow> int \<Rightarrow> int list" where
  "wait_chunks burst bytes =
     (if bytes \<le> 0 \<or> burst \<le> 0 then []
      else let chunk = (if bytes > burst then burst else bytes) in chunk # wait_chunks burst (bytes - chunk))"
  by pat_completeness auto
termination
  by (relation "measure (\<lambda>(burst, bytes). nat bytes)") (auto simp: Let_def)

declare wait_chunks.simps [simp del]

definition waitLimiter :: "(int \<times> int \<Rightarrow> int \<Rightarrow> bool) \<Rightarrow> int \<times> int \<Rightarrow> int \<Rightarrow> bool" where
  "waitLimiter waitN limiter bytes = list_all (waitN limiter) (wait_chunks (snd limiter) bytes)"

fun wait_loop :: "(int \<times> int \<Rightarrow> int \<Rightarrow> bool) \<Rightarrow> Direction \<Rightarrow> int \<Rightarrow> int \<Rightarrow> runtimePolicy list \<Rightarrow> heap \<Rightarrow> bool \<times> heap" where
  "wait_loop waitN d bytes now [] h = (True, h)"
| "wait_loop waitN d bytes now (p # ps) h =
     (let h = refresh_over now p h in
      case policy_limiter p (h ! pol_state p) d of
        None \<Rightarrow> wait_loop waitN d bytes now ps h
      | Some l \<Rightarrow> if waitLimiter waitN l bytes then wait_loop waitN d bytes now ps h else (False, h))"

definition Wait :: "tc_env \<Rightarrow> (int \<times> int \<Rightarrow> int \<Rightarrow> bool) \<Rightarrow> nat \<Rightarrow> Direction \<Rightarrow> int \<Rightarrow> int \<Rightarrow> Manager \<Rightarrow> bool \<times> Manager" where
  "Wait env waitN i d bytes now m =
     (if bytes \<le> 0 then (True, m)
      else (case currentBinding env i now m of
          (None, m) \<Rightarrow> (True, m)
        | (Some b, m) \<Rightarrow> let (ok, h) = wait_loop waitN d bytes now (sb_policies b) (m_heap m) in (ok, m\<lparr>m_heap := h\<rparr>)))"

text \<open>
  \<^verbatim>\<open>AllowPacket\<close> asks every limiter for a reservation without delay. The bookkeeping inside a
  limiter is that of \<^verbatim>\<open>golang.org/x/time/rate\<close>; \<open>reserveN\<close> says whether a reservation succeeds.
\<close>

fun allow_loop :: "(int \<times> int \<Rightarrow> int \<Rightarrow> int \<Rightarrow> bool) \<Rightarrow> Direction \<Rightarrow> int \<Rightarrow> int \<Rightarrow> runtimePolicy list \<Rightarrow> heap \<Rightarrow> bool \<times> heap" where
  "allow_loop reserveN d bytes now [] h = (True, h)"
| "allow_loop reserveN d bytes now (p # ps) h =
     (let h = refresh_over now p h in
      case policy_limiter p (h ! pol_state p) d of
        None \<Rightarrow> allow_loop reserveN d bytes now ps h
      | Some l \<Rightarrow> if reserveN l now bytes then allow_loop reserveN d bytes now ps h else (False, h))"

definition AllowPacket :: "tc_env \<Rightarrow> (int \<times> int \<Rightarrow> int \<Rightarrow> int \<Rightarrow> bool) \<Rightarrow> nat \<Rightarrow> Direction \<Rightarrow> int \<Rightarrow> int \<Rightarrow> Manager \<Rightarrow> bool \<times> Manager" where
  "AllowPacket env reserveN i d bytes now m =
     (if bytes \<le> 0 then (True, m)
      else (case currentBinding env i now m of
          (None, m) \<Rightarrow> (True, m)
        | (Some b, m) \<Rightarrow> let (ok, h) = allow_loop reserveN d bytes now (sb_policies b) (m_heap m) in (ok, m\<lparr>m_heap := h\<rparr>)))"

fun record_loop :: "Direction \<Rightarrow> int64 \<Rightarrow> int \<Rightarrow> runtimePolicy list \<Rightarrow> heap \<Rightarrow> bool \<times> heap" where
  "record_loop d bytes now [] h = (False, h)"
| "record_loop d bytes now (p # ps) h =
     (let (s, crossed) = policy_record p d bytes now (h ! pol_state p);
          (rest, h) = record_loop d bytes now ps (h[pol_state p := s])
      in (crossed \<or> rest, h))"

definition Record :: "tc_env \<Rightarrow> nat \<Rightarrow> Direction \<Rightarrow> int64 \<Rightarrow> int \<Rightarrow> Manager \<Rightarrow> Manager" where
  "Record env i d bytes now m =
     (if sint bytes \<le> 0 then m
      else (case currentBinding env i now m of
          (None, m) \<Rightarrow> m
        | (Some b, m) \<Rightarrow>
            let (crossed, h) = record_loop d bytes now (sb_policies b) (m_heap m);
                en = reports_enabled (m_runtime m);
                m = m\<lparr>m_heap := h, m_dirty := True,
                      m_reports := (if sb_reportKeys b \<noteq> [] then recordReports en (sb_reportKeys b) d bytes now (m_reports m)
                                    else m_reports m)\<rparr>
            in if crossed
               then m\<lparr>m_reports := (if sb_reportKeys b \<noteq> [] then recordReportExceeded en (sb_reportKeys b) now (m_reports m)
                                     else m_reports m),
                       m_wake := (m_flusher m \<noteq> None \<or> m_wake m)\<rparr>
               else m))"

subsection \<open>Status and reset\<close>

record PolicyStatus =
  pt_Policy :: Policy
  pt_Counters :: Counters
  pt_Rolling :: Counters
  pt_Active :: int64
  pt_OverQuota :: bool
  pt_LastUpdated :: int
  pt_LastReset :: int
  pt_Generation :: "64 word"

record Status =
  sta_Enabled :: bool
  sta_Revision :: "64 word"
  sta_LastCheckpoint :: int
  sta_StoreBytes :: int
  sta_UncompressedBytes :: int
  sta_Policies :: "PolicyStatus list"

definition policy_status :: "runtimePolicy \<Rightarrow> policyState \<Rightarrow> PolicyStatus" where
  "policy_status p s = \<lparr>pt_Policy = pol_spec p, pt_Counters = ps_Counters s, pt_Rolling = ps_rolling s,
     pt_Active = ps_Active s, pt_OverQuota = ps_OverQuota s, pt_LastUpdated = ps_LastUpdated s,
     pt_LastReset = ps_LastReset s, pt_Generation = ps_Generation s\<rparr>"

fun status_loop :: "int \<Rightarrow> runtimePolicy list \<Rightarrow> heap \<Rightarrow> PolicyStatus list \<times> heap" where
  "status_loop now [] h = ([], h)"
| "status_loop now (p # ps) h =
     (let h = hmap (pol_state p) (refreshQuota p now) h;
          item = policy_status p (h ! pol_state p);
          (rest, h) = status_loop now ps h
      in (item # rest, h))"

definition Manager_Status :: "tc_env \<Rightarrow> int \<Rightarrow> Manager \<Rightarrow> Status \<times> Manager" where
  "Manager_Status env now m =
     (let (items, h) = status_loop now (rn_policies (m_runtime m)) (m_heap m) in
      (\<lparr>sta_Enabled = (rn_config (m_runtime m) \<noteq> None), sta_Revision = m_revision m,
        sta_LastCheckpoint = m_lastCheckpoint m,
        sta_StoreBytes = (case m_store m of None \<Rightarrow> 0 | Some s \<Rightarrow> sl_size (env_store env) (st_db s)),
        sta_UncompressedBytes = (case m_store m of None \<Rightarrow> 0 | Some s \<Rightarrow> st_uncompressed s),
        sta_Policies = sort_key (\<lambda>i. p_ID (pt_Policy i)) items\<rparr>,
       m\<lparr>m_heap := h\<rparr>))"

definition reset_state :: "int \<Rightarrow> policyState \<Rightarrow> policyState" where
  "reset_state now s = s\<lparr>ps_Generation := ps_Generation s + 1, ps_Counters := zero_counters, ps_Buckets := [],
     ps_rolling := zero_counters, ps_bucketStart := 0, ps_nextCutoff := 0, ps_LastReset := Unix now,
     ps_OverQuota := False\<rparr>"

subsection \<open>Flushing\<close>

definition orphan :: "int \<Rightarrow> policyState \<Rightarrow> bool" where
  "orphan cutoff s \<longleftrightarrow> ps_Active s = 0 \<and> ps_LastSeen s > 0 \<and> ps_LastSeen s < cutoff"

definition cleanup_states :: "int \<Rightarrow> int \<Rightarrow> heap \<Rightarrow> (string, nat) gomap \<Rightarrow> (string, nat) gomap" where
  "cleanup_states retention now h states =
     (let cutoff = now - retention sdiv Second in filter (\<lambda>(k, a). \<not> orphan cutoff (h ! a)) states)"

definition deref_states :: "heap \<Rightarrow> (string, nat) gomap \<Rightarrow> (string, policyState) gomap" where
  "deref_states h states = map (\<lambda>(k, a). (k, h ! a)) states"

definition rollupAndPruneLocked :: "int \<Rightarrow> Manager \<Rightarrow> Manager" where
  "rollupAndPruneLocked now m =
     (case rn_config (m_runtime m) of
        None \<Rightarrow> m
      | Some c \<Rightarrow> m\<lparr>m_states := cleanup_states (r_OrphanRetention (c_Reports c)) (Unix now) (m_heap m) (m_states m),
                     m_reports := rollup_reports (c_Reports c) now (m_reports m)\<rparr>)"

definition save_manager :: "tc_env \<Rightarrow> int \<Rightarrow> Store \<Rightarrow> Manager \<Rightarrow> Manager \<times> store_err option" where
  "save_manager env checkpoint s m =
     (let (s, e) = Save (env_store env) (deref_states (m_heap m) (m_states m)) (m_reports m) checkpoint s
      in (m\<lparr>m_store := Some s\<rparr>, e))"

lemma mdel_length_le: "length (mdel k m) \<le> length m"
  by (simp add: AList.delete_eq)

lemma mdel_length_less: "k \<in> fst ` set m \<Longrightarrow> length (mdel k m) < length m"
  by (auto simp: AList.delete_eq intro: length_filter_less)

lemma fold_mdel_length: "length (fold (\<lambda>(k, _). mdel k) xs m) \<le> length m"
proof (induction xs arbitrary: m)
  case (Cons x xs)
  show ?case
    using Cons [of "mdel (fst x) m"] mdel_length_le [of "fst x" m] by (simp add: case_prod_unfold)
qed simp

lemma dropOldest_shorter:
  assumes "dropOldestReportSeries rs = Some rs'"
  shows "length rs' < length rs"
proof -
  let ?cs = "sort_key snd (map (\<lambda>(key, series). (key, sr_Updated series)) rs)"
  define n where "n = (if (length rs + 9) div 10 < 1 then 1 else (length rs + 9) div 10)"
  with assms have n: "rs \<noteq> []" "1 \<le> n" "rs' = fold (\<lambda>(key, _). mdel key) (take n ?cs) rs"
    by (simp_all add: dropOldestReportSeries_def Let_def split: if_splits)
  from n(1) have "length ?cs \<noteq> 0" by simp
  then obtain c cs where c: "?cs = c # cs" by (cases ?cs) auto
  then have "c \<in> set ?cs" by (metis list.set_intros(1))
  then have "fst c \<in> fst ` set rs" by (auto simp: image_iff) force
  then have "length (mdel (fst c) rs) < length rs" by (rule mdel_length_less)
  moreover have "take n ?cs = c # take (n - 1) cs" using n(2) c by (cases n) auto
  ultimately show ?thesis
    using n(3) fold_mdel_length [of "take (n - 1) cs" "mdel (fst c) rs"] by (simp add: case_prod_unfold)
qed

text \<open>The loop that makes the store fit: drop the oldest series, save again, compact, and look at the size.\<close>

function trimReportsToStoreLimitLocked :: "tc_env \<Rightarrow> int \<Rightarrow> Manager \<Rightarrow> Manager \<times> mgr_err option" where
  "trimReportsToStoreLimitLocked env checkpoint m =
     (case dropOldestReportSeries (m_reports m) of
        None \<Rightarrow> (m, Some (StoreErr ErrStoreLimit))
      | Some rs \<Rightarrow>
          (case m_store m of
             None \<Rightarrow> (m\<lparr>m_reports := rs\<rparr>, Some NilDereference)
           | Some s \<Rightarrow>
               let (m', e) = save_manager env checkpoint s (m\<lparr>m_reports := rs\<rparr>) in
               if e \<noteq> None \<and> e \<noteq> Some ErrStoreLimit then (m', map_option StoreErr e)
               else (case env_compact env (the (m_store m')) of
                   Inl e \<Rightarrow> (m', Some (StoreErr e))
                 | Inr s \<Rightarrow>
                     let m'' = m\<lparr>m_reports := rs, m_store := Some s\<rparr> in
                     (case rn_config (m_runtime m) of
                        None \<Rightarrow> (m'', Some NilDereference)
                      | Some c \<Rightarrow>
                          if sl_size (env_store env) (st_db s) \<le> c_MaxStoreSize c then (m'', None)
                          else trimReportsToStoreLimitLocked env checkpoint m''))))"
  by pat_completeness auto
termination
  by (relation "measure (\<lambda>(env, cp, m). length (m_reports m))") (auto dest: dropOldest_shorter)

declare trimReportsToStoreLimitLocked.simps [simp del]

definition flushLocked :: "tc_env \<Rightarrow> int \<Rightarrow> Manager \<Rightarrow> Manager \<times> mgr_err option" where
  "flushLocked env now m =
     (case m_store m of
        None \<Rightarrow> (m, None)
      | Some s \<Rightarrow>
          if \<not> m_dirty m then (m, None)
          else
            let m = rollupAndPruneLocked now (m\<lparr>m_dirty := False\<rparr>);
                (m, e) = save_manager env (Unix now) s m;
                (m, e) = (if e = Some ErrStoreLimit then trimReportsToStoreLimitLocked env (Unix now) m
                          else (m, map_option StoreErr e))
            in if e \<noteq> None then (m\<lparr>m_dirty := True\<rparr>, e)
               else (m\<lparr>m_lastCheckpoint := Unix now\<rparr>, None))"

definition Reset :: "tc_env \<Rightarrow> string \<Rightarrow> int \<Rightarrow> Manager \<Rightarrow> Manager \<times> mgr_err option" where
  "Reset env ident now m =
     (case find (\<lambda>p. p_ID (pol_spec p) = ident) (rn_policies (m_runtime m)) of
        None \<Rightarrow> (m, Some PolicyNotFound)
      | Some p \<Rightarrow> flushLocked env now (m\<lparr>m_heap := hmap (pol_state p) (reset_state now) (m_heap m), m_dirty := True\<rparr>))"

end
