(* ===== verification/TC_Configure.thy ===== *)
theory TC_Configure
  imports TC_Manager
begin

section \<open>Traffic control: changing the configuration\<close>

text \<open>
  The life cycle of \<^verbatim>\<open>Manager\<close>: a new configuration is staged with the states, reports, store and
  portal it will use, the old state is flushed, and then everything is replaced at once. The identity
  of a policy decides whether its state is kept. Opening a store, listening and flushing can fail;
  every failure leaves the old runtime in place. Closing the portal and the store file are taken to
  succeed: \<^verbatim>\<open>configure\<close> drops those errors, and \<^verbatim>\<open>Close\<close> would return them.
\<close>

subsection \<open>Staging\<close>

text \<open>
  \<^verbatim>\<open>Duration.String\<close> on the windows of a configuration, which are whole minutes: hours, minutes and
  seconds with their units.
\<close>

definition DurationString :: "int \<Rightarrow> string" where
  "DurationString d =
     (if d = 0 then ''0s''
      else let secs = d sdiv Second; h = secs sdiv 3600; m = secs sdiv 60 smod 60; s = secs smod 60 in
        (if h > 0 then FormatNat (nat h) @ ''h'' else [])
        @ (if h > 0 \<or> m > 0 then FormatNat (nat m) @ ''m'' else [])
        @ FormatNat (nat s) @ ''s'')"

definition kind_string :: "PolicyKind \<Rightarrow> string" where
  "kind_string k = (case k of PolicyGlobal \<Rightarrow> ''global'' | PolicyDevice \<Rightarrow> ''device''
     | PolicyRule \<Rightarrow> ''rule'' | PolicyTarget \<Rightarrow> ''target'')"

definition policyIdentity :: "tc_lib \<Rightarrow> Policy \<Rightarrow> string" where
  "policyIdentity lib policy =
     stableID lib ([kind_string (p_Kind policy), p_MAC policy, rl_Fingerprint (p_Rule policy),
        ts_Kind (p_Target policy), ts_Name (p_Target policy), DurationString (q_Window (p_Quota policy))]
      @ map (lib_PrefixString lib) (p_SourceCIDRs policy))"

record stagedConfiguration =
  sg_config :: "Config option"
  sg_runtime :: runtimeState
  sg_states :: "(string, nat) gomap"
  sg_reports :: reports
  sg_store :: "Store option"
  sg_checkpoint :: int
  sg_reuseStore :: bool
  sg_portal :: "portalService option"
  sg_reusePortal :: bool
  sg_touched :: "nat list"

definition new_state :: "string \<Rightarrow> string \<Rightarrow> 64 word \<Rightarrow> int \<Rightarrow> policyState" where
  "new_state ident identity generation now =
     \<lparr>ps_ID = ident, ps_Identity = identity, ps_Generation = generation, ps_Counters = zero_counters,
      ps_Buckets = [], ps_rolling = zero_counters, ps_bucketStart = 0, ps_nextCutoff = 0, ps_OverQuota = False,
      ps_Active = 0, ps_LastUpdated = 0, ps_LastReset = now, ps_LastSeen = 0\<rparr>"

record policy_stage =
  pg_heap :: heap
  pg_states :: "(string, nat) gomap"
  pg_policies :: "runtimePolicy list"
  pg_touched :: "nat list"

text \<open>The address of the state a policy will use: the existing one when the identity is unchanged.\<close>

definition stage_state :: "tc_lib \<Rightarrow> int \<Rightarrow> policy_stage \<Rightarrow> Policy \<Rightarrow> nat \<times> policy_stage" where
  "stage_state lib now g spec =
     (let identity = policyIdentity lib spec; a = length (pg_heap g) in
      case mget (pg_states g) (p_ID spec) of
        None \<Rightarrow> (a, g\<lparr>pg_heap := pg_heap g @ [new_state (p_ID spec) identity 1 now],
                      pg_states := mset' (p_ID spec) a (pg_states g)\<rparr>)
      | Some b \<Rightarrow>
          if ps_Identity (pg_heap g ! b) \<noteq> identity
          then (a, g\<lparr>pg_heap := pg_heap g @ [new_state (p_ID spec) identity (ps_Generation (pg_heap g ! b) + 1) now],
                     pg_states := mset' (p_ID spec) a (pg_states g)\<rparr>)
          else (b, g))"

definition stage_policy :: "tc_lib \<Rightarrow> int \<Rightarrow> policy_stage \<Rightarrow> Policy \<Rightarrow> policy_stage" where
  "stage_policy lib now g spec =
     (let (a, g) = stage_state lib now g spec;
          (p, s) = newRuntimePolicy spec a (pg_heap g ! a)
      in g\<lparr>pg_heap := (pg_heap g)[a := s], pg_policies := pg_policies g @ [p], pg_touched := pg_touched g @ [a]\<rparr>)"

text \<open>The states and reports to start from: those of the open store, or those of the file just opened.\<close>

definition stage_source :: "tc_env \<Rightarrow> Config \<Rightarrow> Manager \<Rightarrow>
    mgr_err + heap \<times> (string, nat) gomap \<times> reports \<times> Store \<times> int \<times> bool" where
  "stage_source env config m =
     (let reuse = (case m_store m of
            Some s \<Rightarrow> lib_Clean (env_lib env) (st_path s) = lib_Clean (env_lib env) (c_StorePath config)
          | None \<Rightarrow> False) in
      if reuse
      then let s = the (m_store m) in
        if c_MaxStoreSize config > 0 \<and> sl_size (env_store env) (st_db s) > c_MaxStoreSize config
        then Inl (StoreErr ErrStoreLimit)
        else Inr (m_heap m, m_states m, m_reports m, s, m_lastCheckpoint m, True)
      else
        (case env_open env (c_StorePath config) (c_MaxStoreSize config) of
           Inl e \<Rightarrow> Inl (StoreErr e)
         | Inr s \<Rightarrow>
             (case Load (env_store env) (st_db s) of
                Inl e \<Rightarrow> Inl (StoreErr e)
              | Inr (states, reports, checkpoint) \<Rightarrow>
                  Inr (m_heap m @ map snd states,
                       zip (map fst states) [length (m_heap m) ..< length (m_heap m) + length states],
                       reports, s, checkpoint, False))))"

definition trim_right_slash :: "string \<Rightarrow> string" where
  "trim_right_slash s = rev (dropWhile (\<lambda>c. c = CHR ''/'') (rev s))"

definition portal_setConfig :: "PortalConfig \<Rightarrow> portalService \<Rightarrow> portalService" where
  "portal_setConfig config s =
     (let base = trim_right_slash (pc_URL config) in
      s\<lparr>po_config := config, po_baseURL := (if base = [] then ''http://'' @ po_listen s else base)\<rparr>)"

definition preparePortal :: "tc_env \<Rightarrow> PortalConfig \<Rightarrow> mgr_err + portalService option" where
  "preparePortal env config =
     (if TrimSpace (pc_Listen config) = [] then Inr None
      else (case env_listen env (pc_Listen config) of
          None \<Rightarrow> Inl PortalListenErr
        | Some (bound, secret) \<Rightarrow>
            Inr (Some (portal_setConfig config \<lparr>po_config = config, po_listen = bound, po_baseURL = [], po_secret = secret\<rparr>))))"

definition stage_portal :: "tc_env \<Rightarrow> Config \<Rightarrow> Manager \<Rightarrow> mgr_err + portalService option \<times> bool" where
  "stage_portal env config m =
     (let want = TrimSpace (pc_Listen (c_Portal config)) in
      case m_portal m of
        Some p \<Rightarrow>
          if TrimSpace (pc_Listen (po_config p)) = want then Inr (Some p, True)
          else bindR (preparePortal env (c_Portal config)) (\<lambda>p. Inr (p, False))
      | None \<Rightarrow>
          if want = [] then Inr (None, True)
          else bindR (preparePortal env (c_Portal config)) (\<lambda>p. Inr (p, False)))"

definition empty_runtime :: "Manager \<Rightarrow> runtimeState" where
  "empty_runtime m = \<lparr>rn_id = rn_id (m_runtime m) + 1, rn_config = None, rn_policies = [], rn_generation = 0\<rparr>"

text \<open>
  The heap is part of the result in the error case too: building the runtime policies touches the
  states that are shared with the running configuration.
\<close>

definition prepareConfiguration :: "tc_env \<Rightarrow> Config option \<Rightarrow> int \<Rightarrow> Manager \<Rightarrow> heap \<times> (mgr_err + stagedConfiguration)" where
  "prepareConfiguration env cp now m =
     (case (case cp of Some c \<Rightarrow> if c_Enabled c then Some c else None | None \<Rightarrow> None) of
        None \<Rightarrow> (m_heap m, Inr \<lparr>sg_config = None, sg_runtime = empty_runtime m, sg_states = [], sg_reports = [],
                  sg_store = None, sg_checkpoint = 0, sg_reuseStore = False, sg_portal = None,
                  sg_reusePortal = False, sg_touched = []\<rparr>)
      | Some config \<Rightarrow>
          (case stage_source env config m of
             Inl e \<Rightarrow> (m_heap m, Inl e)
           | Inr (h, states, reports, store, checkpoint, reuse) \<Rightarrow>
               let reports = limitStagedReports reports;
                   g = foldl (stage_policy (env_lib env) (Unix now))
                         \<lparr>pg_heap = h, pg_states = states, pg_policies = [], pg_touched = []\<rparr> (c_Policies config);
                   states = cleanup_states (r_OrphanRetention (c_Reports config)) (Unix now) (pg_heap g) (pg_states g)
               in (case stage_portal env config m of
                     Inl e \<Rightarrow> (pg_heap g, Inl e)
                   | Inr (portal, reusePortal) \<Rightarrow>
                       (pg_heap g, Inr \<lparr>sg_config = Some config,
                          sg_runtime = (empty_runtime m)\<lparr>rn_config := Some config, rn_policies := pg_policies g\<rparr>,
                          sg_states = states, sg_reports = reports, sg_store = Some store, sg_checkpoint = checkpoint,
                          sg_reuseStore = reuse, sg_portal = portal, sg_reusePortal = reusePortal,
                          sg_touched = pg_touched g\<rparr>))))"

subsection \<open>Committing\<close>

definition startFlusher :: "int \<Rightarrow> Manager \<Rightarrow> Manager" where
  "startFlusher interval m = m\<lparr>m_flusher := Some interval, m_wake := False\<rparr>"

definition stopFlusher :: "Manager \<Rightarrow> Manager" where
  "stopFlusher m = m\<lparr>m_flusher := None, m_wake := False\<rparr>"

definition touch :: "int \<Rightarrow> nat list \<Rightarrow> heap \<Rightarrow> heap" where
  "touch now as h = foldl (\<lambda>h a. hmap a (\<lambda>s. s\<lparr>ps_LastSeen := now\<rparr>) h) h as"

text \<open>
  What a flush does to every report series it reaches. The staged reports share the series of the
  running configuration when the store is reused, so they see it as well.
\<close>

definition flush_series :: "int \<Rightarrow> Manager \<Rightarrow> reportSeries \<Rightarrow> reportSeries" where
  "flush_series now m s =
     (if m_store m = None \<or> \<not> m_dirty m then s
      else (case rn_config (m_runtime m) of None \<Rightarrow> s | Some c \<Rightarrow> rollup_series (c_Reports c) now s))"

definition stage_reports_now :: "int \<Rightarrow> Manager \<Rightarrow> stagedConfiguration \<Rightarrow> reports" where
  "stage_reports_now now m stage =
     (if sg_reuseStore stage then map (\<lambda>(k, s). (k, flush_series now m s)) (sg_reports stage) else sg_reports stage)"

definition stage_store_now :: "Manager \<Rightarrow> stagedConfiguration \<Rightarrow> Store option" where
  "stage_store_now m stage =
     (if sg_reuseStore stage
      then map_option (\<lambda>s. s\<lparr>st_maxSize := (case sg_config stage of Some c \<Rightarrow> c_MaxStoreSize c | None \<Rightarrow> st_maxSize s)\<rparr>) (m_store m)
      else sg_store stage)"

definition commit_stage :: "int \<Rightarrow> stagedConfiguration \<Rightarrow> reports \<Rightarrow> Manager \<Rightarrow> Manager" where
  "commit_stage now stage reports m =
     (let m = m\<lparr>m_store := stage_store_now m stage, m_states := sg_states stage, m_reports := reports,
            m_lastCheckpoint := sg_checkpoint stage,
            m_heap := touch (Unix now) (sg_touched stage) (m_heap m),
            m_revision := m_revision m + 1,
            m_runtime := (sg_runtime stage)\<lparr>rn_generation := m_revision m + 1\<rparr>,
            m_portal := (if sg_reusePortal stage
               then (case (sg_portal stage, sg_config stage) of
                       (Some p, Some c) \<Rightarrow> Some (portal_setConfig (c_Portal c) p)
                     | _ \<Rightarrow> m_portal m)
               else sg_portal stage),
            m_dirty := (sg_config stage \<noteq> None)\<rparr>
      in (case sg_config stage of None \<Rightarrow> m | Some c \<Rightarrow> startFlusher (c_CheckpointInterval c) m))"

definition configure :: "tc_env \<Rightarrow> Config option \<Rightarrow> int \<Rightarrow> Manager \<Rightarrow> Manager \<times> mgr_err option" where
  "configure env cp now m =
     (case prepareConfiguration env cp now m of
        (h, Inl e) \<Rightarrow> (m\<lparr>m_heap := h\<rparr>, Some e)
      | (h, Inr stage) \<Rightarrow>
          let oldInterval = (case rn_config (m_runtime m) of Some c \<Rightarrow> c_CheckpointInterval c | None \<Rightarrow> 0);
              m1 = stopFlusher (m\<lparr>m_heap := h\<rparr>);
              reports = stage_reports_now now m1 stage;
              (m2, e) = flushLocked env now m1
          in if e \<noteq> None
             then (if oldInterval > 0 then startFlusher oldInterval m2 else m2, e)
             else (commit_stage now stage reports m2, None))"

definition ConfigureAtRevision :: "tc_env \<Rightarrow> Config option \<Rightarrow> 64 word \<Rightarrow> int \<Rightarrow> Manager \<Rightarrow> Manager \<times> mgr_err option" where
  "ConfigureAtRevision env cp expected now m =
     (if m_revision m \<noteq> expected then (m, Some RevisionConflict) else configure env cp now m)"

definition Manager_Close :: "tc_env \<Rightarrow> int \<Rightarrow> Manager \<Rightarrow> Manager \<times> mgr_err option" where
  "Manager_Close env now m =
     (let m = (stopFlusher m)\<lparr>m_portal := None\<rparr>; (m, e) = flushLocked env now m in
      if e \<noteq> None then (m, e)
      else (m\<lparr>m_store := None, m_runtime := empty_runtime m, m_states := [], m_reports := []\<rparr>, None))"

text \<open>The flusher: a tick or a request flushes; its error is dropped.\<close>

definition flusher_step :: "tc_env \<Rightarrow> int \<Rightarrow> Manager \<Rightarrow> Manager" where
  "flusher_step env now m =
     (if m_flusher m = None then m else fst (flushLocked env now (m\<lparr>m_wake := False\<rparr>)))"

end
