(* ===== verification/TC_Portal.thy ===== *)
theory TC_Portal
  imports TC_Configure
begin

section \<open>Traffic control: the quota portal\<close>

text \<open>
  \<^verbatim>\<open>component/trafficcontrol/portal.go\<close>: a session that is over its quota is given a signed link to a
  page with the figures of its policies. The link is a query with the names, an expiry and an HMAC;
  the escaping and parsing of queries is that of \<^verbatim>\<open>net/url\<close> and is modelled, the cryptography is a
  parameter. The HTML of the page and the HTTP server around it are not modelled.
\<close>

subsection \<open>Queries of URLs\<close>

definition FormatInt :: "int \<Rightarrow> string" where
  "FormatInt n = (if n < 0 then CHR ''-'' # FormatNat (nat (- n)) else FormatNat (nat n))"

text \<open>\<^verbatim>\<open>strconv.ParseInt\<close> with base 10 and 64 bits.\<close>

definition ParseInt :: "string \<Rightarrow> int option" where
  "ParseInt s =
     (let neg = (s \<noteq> [] \<and> hd s = CHR ''-'');
          digits = (if s \<noteq> [] \<and> (hd s = CHR ''-'' \<or> hd s = CHR ''+'') then tl s else s) in
      if digits = [] \<or> \<not> list_all is_digit digits then None
      else let n = int (parse_digits digits) in
        if neg then (if n \<le> 9223372036854775808 then Some (- n) else None)
        else (if n \<le> max_int64 then Some n else None))"

text \<open>\<^verbatim>\<open>url.QueryEscape\<close> and \<^verbatim>\<open>url.QueryUnescape\<close>.\<close>

definition unreserved :: "char \<Rightarrow> bool" where
  "unreserved c \<longleftrightarrow> is_alnum c \<or> c = CHR ''-'' \<or> c = CHR ''_'' \<or> c = CHR ''.'' \<or> c = CHR ''~''"

definition hex_digit :: "nat \<Rightarrow> char" where
  "hex_digit n = (if n < 10 then char_of (48 + n) else char_of (55 + n))"

definition unhex :: "char \<Rightarrow> nat" where
  "unhex c = (let n = of_char c :: nat in if n \<le> 57 then n - 48 else if n \<le> 70 then n - 55 else n - 87)"

definition escape_char :: "char \<Rightarrow> string" where
  "escape_char c =
     (if unreserved c then [c]
      else if c = CHR '' '' then [CHR ''+'']
      else [CHR ''%'', hex_digit (of_char c div 16), hex_digit (of_char c mod 16)])"

definition QueryEscape :: "string \<Rightarrow> string" where
  "QueryEscape s = concat (map escape_char s)"

fun QueryUnescape :: "string \<Rightarrow> string option" where
  "QueryUnescape [] = Some []"
| "QueryUnescape (c # s) =
     (if c = CHR ''%'' then
        (case s of
           a # b # r \<Rightarrow> if is_hex a \<and> is_hex b
             then map_option (\<lambda>t. char_of (unhex a * 16 + unhex b) # t) (QueryUnescape r) else None
         | _ \<Rightarrow> None)
      else map_option (\<lambda>t. (if c = CHR ''+'' then CHR '' '' else c) # t) (QueryUnescape s))"

text \<open>\<^verbatim>\<open>strings.Cut\<close> at the first occurrence of a character.\<close>

definition Cut1 :: "char \<Rightarrow> string \<Rightarrow> string \<times> string" where
  "Cut1 d s = (takeWhile (\<lambda>c. c \<noteq> d) s, drop 1 (dropWhile (\<lambda>c. c \<noteq> d) s))"

text \<open>\<^verbatim>\<open>URL.Query\<close>: the pairs of the query in order; malformed pieces are skipped. \<^verbatim>\<open>Get\<close> takes the first.\<close>

definition query_piece :: "string \<Rightarrow> (string \<times> string) list" where
  "query_piece piece =
     (if piece = [] \<or> CHR '';'' \<in> set piece then []
      else let (k, v) = Cut1 (CHR ''='') piece in
        (case (QueryUnescape k, QueryUnescape v) of (Some k, Some v) \<Rightarrow> [(k, v)] | _ \<Rightarrow> []))"

definition Query :: "string \<Rightarrow> (string \<times> string) list" where
  "Query raw = concat (map query_piece (Split1 (CHR ''&'') raw))"

definition Get :: "(string \<times> string) list \<Rightarrow> string \<Rightarrow> string" where
  "Get values key = (case map_of values key of Some v \<Rightarrow> v | None \<Rightarrow> [])"

text \<open>\<^verbatim>\<open>Values.Encode\<close> of a map with single values: the pairs in the order of the keys.\<close>

definition encode_pair :: "string \<times> string \<Rightarrow> string" where
  "encode_pair kv = QueryEscape (fst kv) @ ''='' @ QueryEscape (snd kv)"

definition Encode :: "(string \<times> string) list \<Rightarrow> string" where
  "Encode values = Join (map encode_pair (sort_key fst values)) ''&''"

subsection \<open>Round trips\<close>

lemma Cut1_append: "d \<notin> set a \<Longrightarrow> Cut1 d (a @ d # b) = (a, b)"
  by (induction a) (auto simp: Cut1_def)

lemma is_hex_hex_digit: "n < 16 \<Longrightarrow> is_hex (hex_digit n)"
  by (auto simp: is_hex_def hex_digit_def Let_def)

lemma unhex_hex_digit: "n < 16 \<Longrightarrow> unhex (hex_digit n) = n"
  by (auto simp: unhex_def hex_digit_def Let_def)

lemma QueryUnescape_char: "QueryUnescape (escape_char c @ s) = map_option (\<lambda>t. c # t) (QueryUnescape s)"
proof (cases "unreserved c")
  case True
  then have "c \<noteq> CHR ''%''" "c \<noteq> CHR ''+''" by (auto simp: unreserved_def is_alnum_def)
  with True show ?thesis by (simp add: escape_char_def)
next
  case False
  note h = char_nibbles [of c]
  show ?thesis
    using False by (auto simp: escape_char_def is_hex_hex_digit [OF h(1)] is_hex_hex_digit [OF h(2)]
        unhex_hex_digit [OF h(1)] unhex_hex_digit [OF h(2)])
qed

lemma QueryUnescape_Escape: "QueryUnescape (QueryEscape s) = Some s"
  by (induction s) (simp_all add: QueryEscape_def QueryUnescape_char)

definition escape_safe :: "char \<Rightarrow> bool" where
  "escape_safe c \<longleftrightarrow> unreserved c \<or> c = CHR ''%'' \<or> c = CHR ''+''"

lemma hex_digit_safe: "n < 16 \<Longrightarrow> escape_safe (hex_digit n)"
  by (auto simp: escape_safe_def unreserved_def is_alnum_def hex_digit_def)

lemma escape_char_safe: "list_all escape_safe (escape_char c)"
  using hex_digit_safe [OF char_nibbles(1) [of c]] hex_digit_safe [OF char_nibbles(2) [of c]]
  by (simp add: escape_char_def) (simp add: escape_safe_def)

lemma QueryEscape_safe: "c \<in> set (QueryEscape s) \<Longrightarrow> escape_safe c"
  using escape_char_safe by (fastforce simp: QueryEscape_def list_all_iff)

lemma not_safe: "\<not> escape_safe (CHR ''='')" "\<not> escape_safe (CHR ''&'')" "\<not> escape_safe (CHR '';'')"
  by (simp_all add: escape_safe_def unreserved_def is_alnum_def)

lemma query_piece_pair: "query_piece (encode_pair (k, v)) = [(k, v)]"
proof -
  have "CHR ''='' \<notin> set (QueryEscape s)" "CHR '';'' \<notin> set (QueryEscape s)" for s
    using QueryEscape_safe not_safe by auto
  then show ?thesis
    by (simp add: query_piece_def encode_pair_def Cut1_append QueryUnescape_Escape)
qed

lemma Split1_plain: "d \<notin> set s \<Longrightarrow> Split1 d s = [s]"
  by (induction s) auto

lemma Split1_append: "d \<notin> set w \<Longrightarrow> Split1 d (w @ d # s) = w # Split1 d s"
  by (induction w) auto

lemma Split1_Join:
  "ws \<noteq> [] \<Longrightarrow> (\<And>w. w \<in> set ws \<Longrightarrow> d \<notin> set w) \<Longrightarrow> Split1 d (Join ws [d]) = ws"
proof (induction ws "[d]" rule: Join.induct)
  case (3 w u ws)
  have "Split1 d (Join (u # ws) [d]) = u # ws" by (rule 3(1)) (use 3(3) in auto)
  with 3(3) [of w] show ?case by (simp add: Split1_append)
qed (auto simp: Split1_plain)

lemma Query_Encode:
  assumes "values \<noteq> []"
  shows "Query (Encode values) = sort_key fst values"
proof -
  let ?vs = "sort_key fst values"
  have vs: "?vs \<noteq> []" using assms by (metis length_0_conv length_sort)
  have "CHR ''&'' \<notin> set (encode_pair kv)" for kv
    using QueryEscape_safe not_safe by (auto simp: encode_pair_def)
  then have "Split1 (CHR ''&'') (Encode values) = map encode_pair ?vs"
    unfolding Encode_def using vs by (intro Split1_Join) auto
  moreover have "concat (map query_piece (map encode_pair vs)) = vs" for vs
    by (induction vs) (auto simp: query_piece_pair)
  ultimately show ?thesis by (simp add: Query_def)
qed

subsection \<open>Links to the portal\<close>

text \<open>The cryptography: HMAC-SHA256 and unpadded URL-safe base64.\<close>

record portal_lib =
  pl_hmac :: "string \<Rightarrow> string \<Rightarrow> string"
  pl_EncodeToString :: "string \<Rightarrow> string"
  pl_DecodeString :: "string \<Rightarrow> string option"

definition portal_message :: "string \<Rightarrow> string \<Rightarrow> string" where
  "portal_message joined expiry = joined @ NUL @ expiry"

definition portal_values :: "portal_lib \<Rightarrow> portalService \<Rightarrow> string list \<Rightarrow> int \<Rightarrow> (string \<times> string) list" where
  "portal_values lib service ids expires =
     (let joined = Join ids '',''; expiry = FormatInt (Unix expires);
          signature = pl_EncodeToString lib (pl_hmac lib (po_secret service) (portal_message joined expiry))
      in [(''p'', joined), (''e'', expiry), (''s'', signature)])"

definition signedPortalURL :: "portal_lib \<Rightarrow> Manager \<Rightarrow> string list \<Rightarrow> int \<Rightarrow> string" where
  "signedPortalURL lib m ids expires =
     (case m_portal m of
        None \<Rightarrow> []
      | Some service \<Rightarrow> po_baseURL service @ ''/?'' @ Encode (portal_values lib service ids expires))"

fun portal_ids :: "int \<Rightarrow> runtimePolicy list \<Rightarrow> heap \<Rightarrow> string list \<times> heap" where
  "portal_ids now [] h = ([], h)"
| "portal_ids now (p # ps) h =
     (let h = refresh_over now p h;
          (ids, h') = portal_ids now ps h
      in (if ps_OverQuota (h ! pol_state p) \<and> q_Portal (p_Quota (pol_spec p)) then p_ID (pol_spec p) # ids else ids, h'))"

definition PortalURL :: "tc_env \<Rightarrow> portal_lib \<Rightarrow> nat \<Rightarrow> int \<Rightarrow> Manager \<Rightarrow> string \<times> Manager" where
  "PortalURL env lib i now m =
     (if m_portal m = None then ([], m)
      else (case currentBinding env i now m of
          (None, m) \<Rightarrow> ([], m)
        | (Some b, m) \<Rightarrow>
            let (ids, h) = portal_ids now (sb_policies b) (m_heap m); m = m\<lparr>m_heap := h\<rparr> in
            if ids = [] then ([], m)
            else (signedPortalURL lib m (sort ids) (now + 5 * Minute), m)))"

definition validatePortalToken :: "portal_lib \<Rightarrow> int \<Rightarrow> (string \<times> string) list \<Rightarrow> Manager \<Rightarrow> string list option" where
  "validatePortalToken lib now values m =
     (case m_portal m of
        None \<Rightarrow> None
      | Some service \<Rightarrow>
          let joined = Get values ''p''; expiry = Get values ''e''; signature = Get values ''s'' in
          (case ParseInt expiry of
             None \<Rightarrow> None
           | Some unix \<Rightarrow>
               if Unix now > unix \<or> unix - Unix now > 10 * 60 then None
               else (case pl_DecodeString lib signature of
                   None \<Rightarrow> None
                 | Some provided \<Rightarrow>
                     let expected = pl_hmac lib (po_secret service) (portal_message joined expiry) in
                     if length provided \<noteq> length expected \<or> provided \<noteq> expected then None
                     else let ids = Split1 (CHR '','') joined in
                       if length ids = 0 \<or> length ids > 8 then None else Some ids)))"

datatype portal_response = Forbidden | Gone | Page "PolicyStatus list"

definition portal_page :: "string list \<Rightarrow> PolicyStatus list \<Rightarrow> PolicyStatus list" where
  "portal_page ids policies =
     (let index = foldl (\<lambda>index p. mset' (p_ID (pt_Policy p)) p index) [] policies in
      List.map_filter (\<lambda>i. case mget index i of Some p \<Rightarrow> if pt_OverQuota p then Some p else None | None \<Rightarrow> None) ids)"

definition servePortal :: "tc_env \<Rightarrow> portal_lib \<Rightarrow> int \<Rightarrow> string \<Rightarrow> Manager \<Rightarrow> portal_response \<times> Manager" where
  "servePortal env lib now rawQuery m =
     (case validatePortalToken lib now (Query rawQuery) m of
        None \<Rightarrow> (Forbidden, m)
      | Some ids \<Rightarrow>
          let (status, m) = Manager_Status env now m;
              page = portal_page ids (sta_Policies status)
          in if page = [] then (Gone, m) else (Page page, m))"

subsection \<open>The links work\<close>

lemma Get_sort: "distinct (map fst values) \<Longrightarrow> Get (sort_key fst values) k = Get values k"
  by (simp add: Get_def map_of_inject_set [of "sort_key fst values" "values", THEN iffD2] distinct_map)

lemma Get_portal:
  "Get (sort_key fst (portal_values lib service ids expires)) ''p'' = Join ids '',''"
  "Get (sort_key fst (portal_values lib service ids expires)) ''e'' = FormatInt (Unix expires)"
  "Get (sort_key fst (portal_values lib service ids expires)) ''s''
     = pl_EncodeToString lib (pl_hmac lib (po_secret service) (portal_message (Join ids '','') (FormatInt (Unix expires))))"
  by (subst Get_sort; simp add: portal_values_def Let_def Get_def)+

lemma ParseInt_FormatInt:
  assumes "- 9223372036854775808 \<le> n" "n \<le> max_int64"
  shows "ParseInt (FormatInt n) = Some n"
proof (cases "n < 0")
  case True
  with assms show ?thesis by (simp add: ParseInt_def FormatInt_def FormatNat_digits)
next
  case False
  have "hd (FormatNat k) \<noteq> CHR ''-''" "hd (FormatNat k) \<noteq> CHR ''+''" for k
  proof -
    have "is_digit (hd (FormatNat k))" using FormatNat_digits [of k] by (cases "FormatNat k") auto
    then show "hd (FormatNat k) \<noteq> CHR ''-''" "hd (FormatNat k) \<noteq> CHR ''+''" by (auto simp: is_digit_def)
  qed
  with False assms show ?thesis by (simp add: ParseInt_def FormatInt_def FormatNat_digits)
qed

lemma idPattern_no_comma: "idPattern s \<Longrightarrow> CHR '','' \<notin> set s"
  by (cases s) (auto simp: is_alnum_def list_all_iff)

text \<open>
  C37. The links the kernel hands out work. The link signed for some policies, with the identifiers
  sorted, comma-separated, escaped and signed, is accepted by the portal until it expires and stands
  for exactly these policies, provided there are at most eight. A link for more than eight policies is
  handed out as well, and the portal refuses it.
\<close>

theorem portal_link_roundtrip:
  assumes portal: "m_portal m = Some service" and base64: "\<forall>x. pl_DecodeString lib (pl_EncodeToString lib x) = Some x"
    and ids: "ids \<noteq> []" "list_all idPattern ids"
    and time: "Unix now \<le> Unix expires" "Unix expires - Unix now \<le> 600"
      "- 9223372036854775808 \<le> Unix expires" "Unix expires \<le> max_int64"
  shows "\<exists>query. signedPortalURL lib m ids expires = po_baseURL service @ ''/?'' @ query
    \<and> validatePortalToken lib now (Query query) m = (if length ids \<le> 8 then Some ids else None)"
proof -
  let ?q = "Encode (portal_values lib service ids expires)"
  have "Split1 (CHR '','') (Join ids '','') = ids"
    using ids by (intro Split1_Join) (auto simp: list_all_iff idPattern_no_comma)
  moreover have "portal_values lib service ids expires \<noteq> []" by (simp add: portal_values_def Let_def)
  ultimately have "validatePortalToken lib now (Query ?q) m = (if length ids \<le> 8 then Some ids else None)"
    using portal base64 ids time
    by (simp add: validatePortalToken_def Query_Encode Get_portal ParseInt_FormatInt)
  with portal show ?thesis by (auto simp: signedPortalURL_def)
qed

definition demo_portal_lib :: portal_lib where
  "demo_portal_lib = \<lparr>pl_hmac = (\<lambda>key s. key @ s), pl_EncodeToString = (\<lambda>s. s), pl_DecodeString = Some\<rparr>"

definition demo_portal :: Manager where
  "demo_portal = NewManager\<lparr>m_portal := Some \<lparr>po_config = \<lparr>pc_Listen = ''127.0.0.1:80'', pc_URL = []\<rparr>,
     po_listen = ''127.0.0.1:80'', po_baseURL = ''http://127.0.0.1:80'', po_secret = ''secret''\<rparr>\<rparr>"

theorem portal_link_roundtrip_witness:
  "\<exists>query. signedPortalURL demo_portal_lib demo_portal [''global'', ''phone''] (5 * Minute) = ''http://127.0.0.1:80/?'' @ query
    \<and> validatePortalToken demo_portal_lib 0 (Query query) demo_portal = Some [''global'', ''phone'']"
  using portal_link_roundtrip [of demo_portal _ demo_portal_lib "[''global'', ''phone'']" 0 "5 * Minute"]
  by (simp add: demo_portal_def demo_portal_lib_def is_alnum_def Unix_def Minute_def Second_def)

lemma last_separator:
  "a @ z # b = c @ z # d \<Longrightarrow> z \<notin> set b \<Longrightarrow> z \<notin> set d \<Longrightarrow> a = c \<and> b = d"
  by (auto simp: append_eq_append_conv2 append_eq_Cons_conv Cons_eq_append_conv)

lemma ParseInt_chars:
  assumes "ParseInt s = Some n"
  shows "CHR 0x00 \<notin> set s"
proof -
  have "list_all is_digit s \<or> (s \<noteq> [] \<and> (hd s = CHR ''-'' \<or> hd s = CHR ''+'') \<and> list_all is_digit (tl s))"
    using assms by (auto simp: ParseInt_def Let_def split: if_splits)
  then show ?thesis by (cases s) (auto simp: list_all_iff is_digit_def)
qed

lemma portal_message_unique:
  assumes "portal_message j e = portal_message j' e'" "ParseInt e = Some n" "ParseInt e' = Some n'"
  shows "j = j' \<and> e = e'"
  using last_separator [of j "CHR 0x00" e j' e'] assms ParseInt_chars [OF assms(2)] ParseInt_chars [OF assms(3)]
  by (simp add: portal_message_def NUL_def)

text \<open>
  C36. The portal only honours links it signed itself. Whatever query a client sends, if the token is
  accepted then it carries the HMAC, under the secret of this portal, of the very list of policies and
  the very expiry it names, it has not expired and is not valid for more than ten minutes; and a
  signature made for one list and date is never accepted for another, because the signed text
  determines both.
\<close>

theorem portal_token_authentic:
  assumes "validatePortalToken lib now values m = Some ids"
  shows "\<exists>service unix. m_portal m = Some service \<and> ParseInt (Get values ''e'') = Some unix
    \<and> Unix now \<le> unix \<and> unix \<le> Unix now + 600 \<and> ids = Split1 (CHR '','') (Get values ''p'') \<and> length ids \<le> 8
    \<and> pl_DecodeString lib (Get values ''s'')
        = Some (pl_hmac lib (po_secret service) (portal_message (Get values ''p'') (Get values ''e'')))
    \<and> (\<forall>signed expires. signed \<noteq> [] \<and> list_all idPattern signed
          \<and> - 9223372036854775808 \<le> expires \<and> expires \<le> max_int64
          \<and> portal_message (Join signed '','') (FormatInt expires) = portal_message (Get values ''p'') (Get values ''e'')
        \<longrightarrow> ids = signed \<and> unix = expires)"
proof -
  obtain service unix where v: "m_portal m = Some service" "ParseInt (Get values ''e'') = Some unix"
    "Unix now \<le> unix" "unix \<le> Unix now + 600" "ids = Split1 (CHR '','') (Get values ''p'')" "length ids \<le> 8"
    "pl_DecodeString lib (Get values ''s'')
        = Some (pl_hmac lib (po_secret service) (portal_message (Get values ''p'') (Get values ''e'')))"
    using assms by (auto simp: validatePortalToken_def Let_def split: option.splits if_splits)
  moreover have "ids = signed \<and> unix = expires"
    if s: "signed \<noteq> []" "list_all idPattern signed" "- 9223372036854775808 \<le> expires" "expires \<le> max_int64"
      "portal_message (Join signed '','') (FormatInt expires) = portal_message (Get values ''p'') (Get values ''e'')"
    for signed expires
  proof -
    note p = ParseInt_FormatInt [OF s(3,4)]
    from portal_message_unique [OF s(5) p v(2)] have "Join signed '','' = Get values ''p''" "FormatInt expires = Get values ''e''"
      by simp_all
    moreover have "Split1 (CHR '','') (Join signed '','') = signed"
      using s by (intro Split1_Join) (auto simp: list_all_iff idPattern_no_comma)
    ultimately show ?thesis using v(2,5) p by simp
  qed
  ultimately show ?thesis by blast
qed

definition demo_token :: "(string \<times> string) list" where
  "demo_token = [(''p'', ''global''), (''e'', ''300''), (''s'', ''secretglobal'' @ NUL @ ''300'')]"

theorem portal_token_authentic_witness:
  "validatePortalToken demo_portal_lib 0 demo_token demo_portal = Some [''global'']
   \<and> (\<exists>unix. ParseInt (Get demo_token ''e'') = Some unix \<and> 0 \<le> unix \<and> unix \<le> 600)"
proof -
  have v: "validatePortalToken demo_portal_lib 0 demo_token demo_portal = Some [''global'']"
    by (simp add: validatePortalToken_def demo_token_def demo_portal_def demo_portal_lib_def Get_def Unix_def)
       code_simp
  with portal_token_authentic [OF v] show ?thesis by (auto simp: Unix_def)
qed

lemma index_get:
  "mget (foldl (\<lambda>index p. mset' (p_ID (pt_Policy p)) p index) ix ps) i = Some p
     \<Longrightarrow> p \<in> set ps \<and> p_ID (pt_Policy p) = i \<or> mget ix i = Some p"
proof (induction ps arbitrary: ix)
  case (Cons q ps)
  from Cons.IH [of "mset' (p_ID (pt_Policy q)) q ix"] Cons.prems show ?case
    by (auto simp: gm.lookup_update split: if_splits)
qed simp

lemma map_filter_set: "y \<in> set (List.map_filter f xs) \<Longrightarrow> \<exists>x \<in> set xs. f x = Some y"
  by (induction xs) (auto simp: List.map_filter_simps split: option.splits)

lemma portal_page_set:
  assumes "p \<in> set (portal_page ids ps)"
  shows "p \<in> set ps \<and> p_ID (pt_Policy p) \<in> set ids \<and> pt_OverQuota p"
proof -
  let ?ix = "foldl (\<lambda>index p. mset' (p_ID (pt_Policy p)) p index) [] ps"
  obtain i where "i \<in> set ids" "mget ?ix i = Some p" "pt_OverQuota p"
    using assms by (auto simp: portal_page_def Let_def split: option.splits if_splits dest!: map_filter_set)
  with index_get [of "[]" ps i p] show ?thesis by auto
qed

text \<open>
  C38. The portal shows nothing else. A request without a valid token is refused and changes nothing;
  any other answer contains only policies that the token names and that are over their quota now,
  with the figures of the status.
\<close>

theorem portal_discloses_signed:
  assumes "servePortal env lib now query m = (response, m')"
  shows "case response of
      Forbidden \<Rightarrow> validatePortalToken lib now (Query query) m = None \<and> m' = m
    | Gone \<Rightarrow> validatePortalToken lib now (Query query) m \<noteq> None \<and> m' = snd (Manager_Status env now m)
    | Page policies \<Rightarrow> policies \<noteq> [] \<and> m' = snd (Manager_Status env now m)
        \<and> (case validatePortalToken lib now (Query query) m of None \<Rightarrow> False
           | Some ids \<Rightarrow> list_all (\<lambda>p. p_ID (pt_Policy p) \<in> set ids \<and> pt_OverQuota p
               \<and> p \<in> set (sta_Policies (fst (Manager_Status env now m)))) policies)"
  using assms
  by (auto simp: servePortal_def Let_def case_prod_unfold list_all_iff split: option.splits if_splits
      dest: portal_page_set)

theorem portal_discloses_signed_witness:
  "servePortal \<lparr>env_lib = sample_lib, env_store = sample_store_lib, env_open = (\<lambda>_ _. Inr sample_store),
     env_compact = Inr, env_listen = (\<lambda>_. None)\<rparr> demo_portal_lib 0 [] demo_portal = (Forbidden, demo_portal)
   \<and> validatePortalToken demo_portal_lib 0 (Query []) demo_portal = None"
proof -
  let ?env = "\<lparr>env_lib = sample_lib, env_store = sample_store_lib, env_open = (\<lambda>_ _. Inr sample_store),
     env_compact = Inr, env_listen = (\<lambda>_. None)\<rparr>"
  have "validatePortalToken demo_portal_lib 0 (Query []) demo_portal = None"
    by (simp add: validatePortalToken_def Query_def query_piece_def demo_portal_def Get_def ParseInt_def)
  then have "servePortal ?env demo_portal_lib 0 [] demo_portal = (Forbidden, demo_portal)"
    by (simp add: servePortal_def)
  from portal_discloses_signed [OF this] this show ?thesis by simp
qed

end
