(* ===== verification/TC_Sessions.thy ===== *)
theory TC_Sessions
  imports TC_Portal
begin

section \<open>Traffic control: sessions\<close>

text \<open>
  The manager as a transition system. Its steps are the operations of the manager, each one critical
  section of the code, and the central invariant says that the session counter of a policy state is
  the number of open sessions bound to it. The counter decides whether a state may be cleaned up, and
  it is changed by four operations, some of which bind to the new configuration before they release
  the old one.
\<close>

subsection \<open>Counting the bindings of a state\<close>

definition policy_count_at :: "nat \<Rightarrow> runtimePolicy list \<Rightarrow> nat" where
  "policy_count_at a ps = length (filter (\<lambda>p. pol_state p = a) ps)"

definition binding_policies :: "Session \<Rightarrow> runtimePolicy list" where
  "binding_policies s = (if ss_closed s then [] else case ss_binding s of None \<Rightarrow> [] | Some b \<Rightarrow> sb_policies b)"

definition binding_count :: "nat \<Rightarrow> Session list \<Rightarrow> nat" where
  "binding_count a ss = (\<Sum>s \<leftarrow> ss. policy_count_at a (binding_policies s))"

lemma policy_count_simps [simp]:
  "policy_count_at a [] = 0"
  "policy_count_at a (p # ps) = (if pol_state p = a then 1 else 0) + policy_count_at a ps"
  by (simp_all add: policy_count_at_def)

lemma binding_count_simps [simp]:
  "binding_count a [] = 0"
  "binding_count a (s # ss) = policy_count_at a (binding_policies s) + binding_count a ss"
  "binding_count a (ss @ ts) = binding_count a ss + binding_count a ts"
  by (simp_all add: binding_count_def)

lemma binding_count_update:
  "i < length ss \<Longrightarrow> binding_count a (ss[i := s]) + policy_count_at a (binding_policies (ss ! i))
     = binding_count a ss + policy_count_at a (binding_policies s)"
proof (induction ss arbitrary: i)
  case (Cons t ss)
  then show ?case by (cases i) auto
qed simp

text \<open>Word-valued version: the counter of a state is a machine word.\<close>

lemma binding_count_update_word:
  assumes "i < length ss"
  shows "(of_nat (binding_count a (ss[i := s])) :: int64) = of_nat (binding_count a ss)
     - of_nat (policy_count_at a (binding_policies (ss ! i))) + of_nat (policy_count_at a (binding_policies s))"
proof -
  have "(of_nat (binding_count a (ss[i := s]) + policy_count_at a (binding_policies (ss ! i))) :: int64)
      = of_nat (binding_count a ss + policy_count_at a (binding_policies s))"
    using binding_count_update [OF assms, of a s] by simp
  then show ?thesis by (simp add: algebra_simps)
qed

definition addrs_below :: "nat \<Rightarrow> runtimePolicy list \<Rightarrow> bool" where
  "addrs_below n ps \<longleftrightarrow> (\<forall>p \<in> set ps. pol_state p < n)"

definition active_inv :: "Manager \<Rightarrow> bool" where
  "active_inv m \<longleftrightarrow>
     addrs_below (length (m_heap m)) (rn_policies (m_runtime m))
   \<and> (\<forall>s \<in> set (m_sessions m). addrs_below (length (m_heap m)) (binding_policies s))
   \<and> (\<forall>a < length (m_heap m). ps_Active (m_heap m ! a) = of_nat (binding_count a (m_sessions m)))
   \<and> (\<forall>(k, a) \<in> set (m_states m). a < length (m_heap m))"

subsection \<open>Operations that do not touch the number of sessions\<close>

definition same_active :: "heap \<Rightarrow> heap \<Rightarrow> bool" where
  "same_active h h' \<longleftrightarrow> length h' = length h \<and> (\<forall>a < length h. ps_Active (h' ! a) = ps_Active (h ! a))"

lemma same_active_refl [simp]: "same_active h h"
  by (simp add: same_active_def)

lemma same_active_trans: "same_active h1 h2 \<Longrightarrow> same_active h2 h3 \<Longrightarrow> same_active h1 h3"
  by (simp add: same_active_def)

lemma hmap_length [simp]: "length (hmap a f h) = length h"
  by (simp add: hmap_def)

lemma hmap_nth: "b < length h \<Longrightarrow> hmap a f h ! b = (if a = b then f (h ! a) else h ! b)"
  by (simp add: hmap_def nth_list_update)

lemma same_active_hmap: "(\<And>s. ps_Active (f s) = ps_Active s) \<Longrightarrow> same_active h (hmap a f h)"
  by (simp add: same_active_def hmap_nth)

lemma prune_active [simp]: "ps_Active (pruneBucketsLocked p s cf) = ps_Active s"
proof -
  let ?F = "foldl (prune_step (pol_bucketWidthSecs p) cf) (s, max_int64) (ps_Buckets s)"
  obtain r b where "fst ?F = s\<lparr>ps_rolling := r, ps_Buckets := b\<rparr>" using prune_fold_frame by blast
  then show ?thesis by (simp add: pruneBucketsLocked_def case_prod_unfold)
qed

lemma refresh_active [simp]: "ps_Active (refreshQuota p now s) = ps_Active s"
  by (simp add: refreshQuota_def Let_def)

lemma record_active [simp]: "ps_Active (fst (policy_record p d b now s)) = ps_Active s"
  by (simp add: policy_record_def Let_def record_bucket_def bucket_add_def prune_if_due_def)

lemma newRuntimePolicy_active:
  "newRuntimePolicy spec a s = (p, s') \<Longrightarrow> ps_Active s' = ps_Active s \<and> pol_state p = a"
  by (auto simp: newRuntimePolicy_def Let_def)

lemma refresh_over_active: "same_active h (refresh_over now p h)"
  by (simp add: refresh_over_def same_active_hmap)

lemma wait_loop_active: "same_active h (snd (wait_loop w d b now ps h))"
proof (induction ps arbitrary: h)
  case (Cons p ps)
  have "same_active (refresh_over now p h) (snd (wait_loop w d b now ps (refresh_over now p h)))" by (rule Cons.IH)
  then show ?case
    using refresh_over_active [of h now p] by (auto simp: Let_def split: option.splits intro: same_active_trans)
qed simp

lemma allow_loop_active: "same_active h (snd (allow_loop r d b now ps h))"
proof (induction ps arbitrary: h)
  case (Cons p ps)
  have "same_active (refresh_over now p h) (snd (allow_loop r d b now ps (refresh_over now p h)))" by (rule Cons.IH)
  then show ?case
    using refresh_over_active [of h now p] by (auto simp: Let_def split: option.splits intro: same_active_trans)
qed simp

lemma record_loop_active: "same_active h (snd (record_loop d b now ps h))"
proof (induction ps arbitrary: h)
  case (Cons p ps)
  obtain s c where r: "policy_record p d b now (h ! pol_state p) = (s, c)"
    by (cases "policy_record p d b now (h ! pol_state p)")
  then have "same_active h (h[pol_state p := s])"
    using record_active [of p d b now "h ! pol_state p"]
    by (auto simp: same_active_def) (metis nth_list_update_eq nth_list_update_neq)
  with Cons.IH [of "h[pol_state p := s]"] r show ?case
    by (auto simp: Let_def case_prod_unfold intro: same_active_trans)
qed simp

lemma status_loop_active: "same_active h (snd (status_loop now ps h))"
proof (induction ps arbitrary: h)
  case (Cons p ps)
  have "same_active h (hmap (pol_state p) (refreshQuota p now) h)" by (rule same_active_hmap) simp
  with Cons.IH [of "hmap (pol_state p) (refreshQuota p now) h"] show ?case
    by (auto simp: Let_def case_prod_unfold intro: same_active_trans)
qed simp

lemma touch_active: "same_active h (touch now as h)"
proof (induction as arbitrary: h)
  case (Cons a as)
  have "same_active h (hmap a (\<lambda>s. s\<lparr>ps_LastSeen := now\<rparr>) h)" by (rule same_active_hmap) simp
  with Cons.IH [of "hmap a (\<lambda>s. s\<lparr>ps_LastSeen := now\<rparr>) h"] show ?case
    by (auto simp: touch_def intro: same_active_trans)
qed (simp add: touch_def)

text \<open>
  A step keeps the invariant when the sessions stay, the policies of the new runtime and the states
  stay inside the heap, and the heap keeps or extends the counters.
\<close>

definition extends_active :: "heap \<Rightarrow> heap \<Rightarrow> bool" where
  "extends_active h h' \<longleftrightarrow> length h \<le> length h' \<and> (\<forall>a < length h. ps_Active (h' ! a) = ps_Active (h ! a))
     \<and> (\<forall>a. length h \<le> a \<and> a < length h' \<longrightarrow> ps_Active (h' ! a) = 0)"

lemma same_extends: "same_active h h' \<Longrightarrow> extends_active h h'"
  by (auto simp: same_active_def extends_active_def)

lemma extends_refl [simp]: "extends_active h h"
  by (auto simp: extends_active_def)

lemma extends_trans: "extends_active h1 h2 \<Longrightarrow> extends_active h2 h3 \<Longrightarrow> extends_active h1 h3"
  unfolding extends_active_def by (metis le_trans less_le_trans not_le)

lemma binding_count_fresh:
  assumes "\<forall>s \<in> set ss. addrs_below n (binding_policies s)" "n \<le> a"
  shows "binding_count a ss = 0"
proof -
  have "addrs_below n ps \<Longrightarrow> policy_count_at a ps = 0" for ps
    using assms(2) by (induction ps) (auto simp: addrs_below_def)
  with assms(1) show ?thesis by (induction ss) auto
qed

lemma active_inv_step:
  assumes inv: "active_inv m" and ext: "extends_active (m_heap m) (m_heap m')"
    and ss: "m_sessions m' = m_sessions m"
    and rt: "addrs_below (length (m_heap m')) (rn_policies (m_runtime m'))"
    and st: "\<forall>(k, a) \<in> set (m_states m'). a < length (m_heap m')"
  shows "active_inv m'"
proof -
  have below: "\<forall>s \<in> set (m_sessions m). addrs_below (length (m_heap m)) (binding_policies s)"
    using inv by (simp add: active_inv_def)
  have "ps_Active (m_heap m' ! a) = of_nat (binding_count a (m_sessions m))" if "a < length (m_heap m')" for a
  proof (cases "a < length (m_heap m)")
    case True
    with inv ext show ?thesis by (simp add: active_inv_def extends_active_def)
  next
    case False
    with binding_count_fresh [OF below, of a] ext that show ?thesis by (simp add: extends_active_def)
  qed
  moreover have "\<forall>s \<in> set (m_sessions m). addrs_below (length (m_heap m')) (binding_policies s)"
    using below ext by (auto simp: addrs_below_def extends_active_def) (meson less_le_trans)
  ultimately show ?thesis using ss rt st by (simp add: active_inv_def)
qed

subsection \<open>Binding and releasing\<close>

lemma bind_loop_active:
  assumes "addrs_below (length h) ps" "bind_loop lib flow now ps h = (ms, h')"
  shows "length h' = length h \<and> set ms \<subseteq> set ps
    \<and> (\<forall>a < length h. ps_Active (h' ! a) = ps_Active (h ! a) + of_nat (policy_count_at a ms))"
  using assms
proof (induction ps arbitrary: h ms h')
  case (Cons p ps)
  let ?match = "policyMatches (pol_spec p) flow (CanonicalRule lib (fl_RuleType flow) (fl_RulePayload flow) (fl_RuleTarget flow))"
  show ?case
  proof (cases "p_Enabled (pol_spec p) \<and> ?match")
    case False
    with Cons.IH [of h ms h'] Cons.prems show ?thesis by (auto simp: addrs_below_def split: if_splits)
  next
    case True
    let ?h = "hmap (pol_state p) (bind_state p now) h"
    obtain ns k where nk: "bind_loop lib flow now ps ?h = (ns, k)" by (cases "bind_loop lib flow now ps ?h")
    with True Cons.prems(2) have r: "ms = p # ns" "h' = k" by simp_all
    have "addrs_below (length ?h) ps" using Cons.prems(1) by (simp add: addrs_below_def)
    from Cons.IH [OF this nk] have ih: "length k = length h" "set ns \<subseteq> set ps"
      "\<And>a. a < length h \<Longrightarrow> ps_Active (k ! a) = ps_Active (?h ! a) + of_nat (policy_count_at a ns)"
      by simp_all
    have "ps_Active (bind_state p now s) = ps_Active s + 1" for s
      by (simp add: bind_state_def Let_def)
    with ih show ?thesis by (auto simp: r hmap_nth)
  qed
qed simp

lemma bindSession_active:
  assumes "addrs_below (length h) (rn_policies rt)" "bindSession lib rt flow now h = (b, h')"
  shows "length h' = length h \<and> sb_runtime b = rn_id rt \<and> set (sb_policies b) \<subseteq> set (rn_policies rt)
    \<and> (\<forall>a < length h. ps_Active (h' ! a) = ps_Active (h ! a) + of_nat (policy_count_at a (sb_policies b)))"
proof (cases "rn_config rt = None")
  case True
  with assms show ?thesis by (auto simp: bindSession_def)
next
  case False
  obtain ms k where mk: "bind_loop lib flow now (rn_policies rt) h = (ms, k)"
    by (cases "bind_loop lib flow now (rn_policies rt) h")
  from False assms(2) mk have "sb_policies b = ms" "h' = k" "sb_runtime b = rn_id rt"
    by (auto simp: bindSession_def Let_def split: list.splits)
  with bind_loop_active [OF assms(1) mk] show ?thesis by simp
qed

lemma release_loop_active:
  "length (release_loop ps h) = length h
   \<and> (\<forall>a < length h. ps_Active (release_loop ps h ! a) = ps_Active (h ! a) - of_nat (policy_count_at a ps))"
proof (induction ps arbitrary: h)
  case (Cons p ps)
  have "release_loop (p # ps) h = release_loop ps (hmap (pol_state p) (\<lambda>s. s\<lparr>ps_Active := ps_Active s - 1\<rparr>) h)"
    by (simp add: release_loop_def)
  with Cons [of "hmap (pol_state p) (\<lambda>s. s\<lparr>ps_Active := ps_Active s - 1\<rparr>) h"] show ?case
    by (auto simp: hmap_nth)
qed (simp add: release_loop_def)

lemma release_active:
  "length (releaseSessionBinding b h) = length h
   \<and> (\<forall>a < length h. ps_Active (releaseSessionBinding b h ! a)
        = ps_Active (h ! a) - of_nat (policy_count_at a (case b of None \<Rightarrow> [] | Some b \<Rightarrow> sb_policies b)))"
  using release_loop_active by (auto simp: releaseSessionBinding_def split: option.splits)

subsection \<open>Session operations keep the invariant\<close>

lemma Open_inv:
  assumes inv: "active_inv m" and op: "Open env flow now m = (i, m')"
  shows "active_inv m'"
proof -
  obtain b h where bh: "bindSession (env_lib env) (m_runtime m) flow now (m_heap m) = (b, h)"
    by (cases "bindSession (env_lib env) (m_runtime m) flow now (m_heap m)")
  have rt: "addrs_below (length (m_heap m)) (rn_policies (m_runtime m))" using inv by (simp add: active_inv_def)
  note a = bindSession_active [OF rt bh]
  then have b: "addrs_below (length h) (sb_policies b)" using rt by (auto simp: addrs_below_def)
  show ?thesis
  proof (cases "sb_policies b = []")
    case True
    with op bh have "m' = m\<lparr>m_heap := h\<rparr>" by (simp add: Open_def Let_def)
    with inv a True show ?thesis by (auto simp: active_inv_def addrs_below_def)
  next
    case False
    with op bh have m': "m_heap m' = h" "m_runtime m' = m_runtime m" "m_states m' = m_states m"
      "m_sessions m' = m_sessions m @ [\<lparr>ss_flow = flow, ss_binding = Some b, ss_closed = False\<rparr>]"
      by (auto simp: Open_def Let_def)
    with inv a b show ?thesis by (auto simp: active_inv_def binding_policies_def)
  qed
qed

lemma rebind_inv:
  assumes inv: "active_inv m" and i: "i < length (m_sessions m)" "\<not> ss_closed (m_sessions m ! i)"
    and rb: "rebind env i now m = (b, m')"
  shows "active_inv m' \<and> m_runtime m' = m_runtime m \<and> length (m_sessions m') = length (m_sessions m)
    \<and> sb_runtime b = rn_id (m_runtime m) \<and> addrs_below (length (m_heap m')) (sb_policies b)
    \<and> set (sb_policies b) \<subseteq> set (rn_policies (m_runtime m))"
proof -
  let ?s = "m_sessions m ! i"
  obtain h where bh: "bindSession (env_lib env) (m_runtime m) (ss_flow ?s) now (m_heap m) = (b, h)"
    using rb by (auto simp: rebind_def Let_def split: prod.splits)
  let ?h = "releaseSessionBinding (ss_binding ?s) h" and ?s' = "?s\<lparr>ss_binding := Some b\<rparr>"
  have m': "m_heap m' = ?h" "m_sessions m' = (m_sessions m)[i := ?s']" "m_runtime m' = m_runtime m" "m_states m' = m_states m"
    using rb bh by (auto simp: rebind_def Let_def)
  have rt: "addrs_below (length (m_heap m)) (rn_policies (m_runtime m))" using inv by (simp add: active_inv_def)
  note a = bindSession_active [OF rt bh] and r = release_active [of "ss_binding ?s" h]
  have b: "addrs_below (length (m_heap m)) (sb_policies b)" using a rt by (auto simp: addrs_below_def)
  have old: "binding_policies ?s = (case ss_binding ?s of None \<Rightarrow> [] | Some b \<Rightarrow> sb_policies b)"
    and new: "binding_policies ?s' = sb_policies b" using i(2) by (simp_all add: binding_policies_def)
  have "ps_Active (?h ! c) = of_nat (binding_count c ((m_sessions m)[i := ?s']))" if "c < length (m_heap m)" for c
    using that a r inv binding_count_update_word [OF i(1), of c ?s'] by (simp add: old new active_inv_def)
  moreover have "\<forall>s \<in> set ((m_sessions m)[i := ?s']). addrs_below (length (m_heap m)) (binding_policies s)"
    using inv b new by (auto simp: active_inv_def dest!: set_update_subset_insert [THEN subsetD])
  ultimately show ?thesis
    using inv a r b m' by (auto simp: active_inv_def)
qed

lemma currentBinding_inv:
  assumes inv: "active_inv m" and i: "i < length (m_sessions m)"
    and cb: "currentBinding env i now m = (b, m')"
  shows "active_inv m' \<and> m_runtime m' = m_runtime m \<and> length (m_sessions m') = length (m_sessions m)"
proof (cases "ss_closed (m_sessions m ! i)")
  case True
  with cb inv show ?thesis by (simp add: currentBinding_def)
next
  case False
  obtain c k where "rebind env i now m = (c, k)" by (cases "rebind env i now m")
  with rebind_inv [OF inv i False this] cb False inv show ?thesis
    by (auto simp: currentBinding_def Let_def split: option.splits if_splits)
qed

lemma Close_inv:
  assumes inv: "active_inv m" and i: "i < length (m_sessions m)"
  shows "active_inv (Session_Close i m)"
proof (cases "ss_closed (m_sessions m ! i)")
  case True
  with inv show ?thesis by (simp add: Session_Close_def)
next
  case False
  let ?s = "m_sessions m ! i"
  let ?s' = "?s\<lparr>ss_closed := True, ss_binding := None\<rparr>"
  have old: "binding_policies ?s = (case ss_binding ?s of None \<Rightarrow> [] | Some b \<Rightarrow> sb_policies b)"
    and new: "binding_policies ?s' = []" using False by (simp_all add: binding_policies_def)
  note r = release_active [of "ss_binding ?s" "m_heap m"]
  have "ps_Active (releaseSessionBinding (ss_binding ?s) (m_heap m) ! c) = of_nat (binding_count c ((m_sessions m)[i := ?s']))"
    if "c < length (m_heap m)" for c
    using that r inv binding_count_update_word [OF i, of c ?s'] by (simp add: old new active_inv_def)
  moreover have "\<forall>s \<in> set ((m_sessions m)[i := ?s']). addrs_below (length (m_heap m)) (binding_policies s)"
    using inv new by (auto simp: active_inv_def addrs_below_def dest!: set_update_subset_insert [THEN subsetD])
  ultimately show ?thesis
    using inv r False by (auto simp: active_inv_def Session_Close_def Let_def)
qed

subsection \<open>Recording, waiting and status keep it\<close>

lemma heap_update_inv:
  assumes "active_inv m" "same_active (m_heap m) (m_heap m')" "m_sessions m' = m_sessions m"
    "m_runtime m' = m_runtime m" "set (m_states m') \<subseteq> set (m_states m)"
  shows "active_inv m'"
proof (rule active_inv_step [OF assms(1) same_extends [OF assms(2)] assms(3)])
  have len: "length (m_heap m') = length (m_heap m)" using assms(2) by (simp add: same_active_def)
  show "addrs_below (length (m_heap m')) (rn_policies (m_runtime m'))"
    using assms(1, 4) len by (simp add: active_inv_def)
  show "\<forall>(k, a) \<in> set (m_states m'). a < length (m_heap m')"
    using assms(1, 5) len unfolding active_inv_def by fastforce
qed

lemma Record_inv:
  assumes inv: "active_inv m" and i: "i < length (m_sessions m)"
  shows "active_inv (Record env i d b now m)"
proof (cases "sint b \<le> 0")
  case True
  with inv show ?thesis by (simp add: Record_def)
next
  case False
  obtain c k where cb: "currentBinding env i now m = (c, k)" by (cases "currentBinding env i now m")
  with currentBinding_inv [OF inv i] have k: "active_inv k" by blast
  show ?thesis
  proof (cases c)
    case None
    with False cb k show ?thesis by (simp add: Record_def)
  next
    case (Some s)
    with False cb have "same_active (m_heap k) (m_heap (Record env i d b now m))"
      "m_sessions (Record env i d b now m) = m_sessions k" "m_runtime (Record env i d b now m) = m_runtime k"
      "m_states (Record env i d b now m) = m_states k"
      using record_loop_active [of "m_heap k" d b now "sb_policies s"]
      by (simp_all add: Record_def Let_def case_prod_unfold)
    with k show ?thesis by (auto intro: heap_update_inv)
  qed
qed

lemma Wait_inv:
  assumes inv: "active_inv m" and i: "i < length (m_sessions m)"
  shows "active_inv (snd (Wait env w i d b now m))"
proof -
  obtain c k where cb: "currentBinding env i now m = (c, k)" by (cases "currentBinding env i now m")
  with currentBinding_inv [OF inv i] have k: "active_inv k" by blast
  have "active_inv (k\<lparr>m_heap := snd (wait_loop w d b now ps (m_heap k))\<rparr>)" for ps
    using wait_loop_active by (intro heap_update_inv [OF k]) simp_all
  with inv cb k show ?thesis by (simp add: Wait_def Let_def case_prod_unfold split: option.split)
qed

lemma AllowPacket_inv:
  assumes inv: "active_inv m" and i: "i < length (m_sessions m)"
  shows "active_inv (snd (AllowPacket env w i d b now m))"
proof -
  obtain c k where cb: "currentBinding env i now m = (c, k)" by (cases "currentBinding env i now m")
  with currentBinding_inv [OF inv i] have k: "active_inv k" by blast
  have "active_inv (k\<lparr>m_heap := snd (allow_loop w d b now ps (m_heap k))\<rparr>)" for ps
    using allow_loop_active by (intro heap_update_inv [OF k]) simp_all
  with inv cb k show ?thesis by (simp add: AllowPacket_def Let_def case_prod_unfold split: option.split)
qed

lemma portal_ids_active: "same_active h (snd (portal_ids now ps h))"
proof (induction ps arbitrary: h)
  case (Cons p ps)
  from Cons.IH [of "refresh_over now p h"] refresh_over_active [of h now p] show ?case
    by (auto simp: Let_def case_prod_unfold intro: same_active_trans)
qed simp

lemma PortalURL_inv:
  assumes inv: "active_inv m" and i: "i < length (m_sessions m)"
  shows "active_inv (snd (PortalURL env plib i now m))"
proof -
  obtain c k where cb: "currentBinding env i now m = (c, k)" by (cases "currentBinding env i now m")
  with currentBinding_inv [OF inv i] have k: "active_inv k" by blast
  have "active_inv (k\<lparr>m_heap := snd (portal_ids now ps (m_heap k))\<rparr>)" for ps
    using portal_ids_active by (intro heap_update_inv [OF k]) simp_all
  with inv cb k show ?thesis by (simp add: PortalURL_def Let_def case_prod_unfold split: option.split)
qed

lemma Status_inv: "active_inv m \<Longrightarrow> active_inv (snd (Manager_Status env now m))"
  using status_loop_active
  by (auto simp: Manager_Status_def Let_def case_prod_unfold intro: heap_update_inv)

lemma servePortal_inv: "active_inv m \<Longrightarrow> active_inv (snd (servePortal env plib now query m))"
  using Status_inv [of m env now] by (auto simp: servePortal_def Let_def case_prod_unfold split: option.split)

subsection \<open>Flushing keeps it\<close>

text \<open>A flush touches neither the heap nor the sessions nor the runtime, and only removes states.\<close>

definition flush_frame :: "Manager \<Rightarrow> Manager \<Rightarrow> bool" where
  "flush_frame m m' \<longleftrightarrow> m_heap m' = m_heap m \<and> m_sessions m' = m_sessions m \<and> m_runtime m' = m_runtime m
     \<and> set (m_states m') \<subseteq> set (m_states m) \<and> m_revision m' = m_revision m \<and> m_portal m' = m_portal m
     \<and> m_flusher m' = m_flusher m"

lemma flush_frame_trans: "flush_frame m1 m2 \<Longrightarrow> flush_frame m2 m3 \<Longrightarrow> flush_frame m1 m3"
  by (auto simp: flush_frame_def)

text \<open>One turn of the trimming loop, by what it does.\<close>

lemma trim_cases:
  assumes "trimReportsToStoreLimitLocked env cp m = (m', e)"
  obtains "dropOldestReportSeries (m_reports m) = None" "m' = m" "e = Some (StoreErr ErrStoreLimit)"
  | rs where "dropOldestReportSeries (m_reports m) = Some rs" "m_store m = None" "m' = m\<lparr>m_reports := rs\<rparr>" "e \<noteq> None"
  | rs st k f where "dropOldestReportSeries (m_reports m) = Some rs" "m_store m = Some st"
      "save_manager env cp st (m\<lparr>m_reports := rs\<rparr>) = (k, f)" "m' = k" "e \<noteq> None"
  | rs st k f s where "dropOldestReportSeries (m_reports m) = Some rs" "m_store m = Some st"
      "save_manager env cp st (m\<lparr>m_reports := rs\<rparr>) = (k, f)" "f = None \<or> f = Some ErrStoreLimit"
      "env_compact env (the (m_store k)) = Inr s" "m' = m\<lparr>m_reports := rs, m_store := Some s\<rparr>"
  | rs s where "dropOldestReportSeries (m_reports m) = Some rs" "m_store m \<noteq> None"
      "trimReportsToStoreLimitLocked env cp (m\<lparr>m_reports := rs, m_store := Some s\<rparr>) = (m', e)"
  using assms
  by (subst (asm) trimReportsToStoreLimitLocked.simps)
     (auto simp: Let_def split: option.splits prod.splits if_splits sum.splits)

lemma trim_frame:
  "trimReportsToStoreLimitLocked env cp m = (m', e) \<Longrightarrow> flush_frame m m'"
proof (induction "length (m_reports m)" arbitrary: m rule: less_induct)
  case less
  show ?case
    using less.prems
  proof (cases rule: trim_cases)
    case (3 rs st k f)
    then show ?thesis by (auto simp: save_manager_def Let_def flush_frame_def split: prod.splits)
  next
    case (5 rs s)
    from less.hyps [OF _ 5(3)] dropOldest_shorter [OF 5(1)] show ?thesis by (simp add: flush_frame_def)
  qed (auto simp: flush_frame_def)
qed

lemma flush_cases:
  assumes fl: "flushLocked env now m = (m', e)" and s: "m_store m = Some s" "m_dirty m"
  obtains m2 e2 m3 where "save_manager env (Unix now) s (rollupAndPruneLocked now (m\<lparr>m_dirty := False\<rparr>)) = (m2, e2)"
    "(if e2 = Some ErrStoreLimit then trimReportsToStoreLimitLocked env (Unix now) m2
      else (m2, map_option StoreErr e2)) = (m3, e)"
    "flush_frame (rollupAndPruneLocked now (m\<lparr>m_dirty := False\<rparr>)) m3"
    "m' = (if e = None then m3\<lparr>m_lastCheckpoint := Unix now\<rparr> else m3\<lparr>m_dirty := True\<rparr>)"
proof -
  let ?m1 = "rollupAndPruneLocked now (m\<lparr>m_dirty := False\<rparr>)"
  obtain m2 e2 where sv: "save_manager env (Unix now) s ?m1 = (m2, e2)" by (cases "save_manager env (Unix now) s ?m1")
  obtain m3 e3 where t: "(if e2 = Some ErrStoreLimit then trimReportsToStoreLimitLocked env (Unix now) m2
      else (m2, map_option StoreErr e2)) = (m3, e3)" by (meson surj_pair)
  have "flush_frame ?m1 m2"
    using sv by (auto simp: save_manager_def Let_def flush_frame_def split: prod.splits)
  moreover have "flush_frame m2 m3"
    using t trim_frame by (fastforce simp: flush_frame_def split: if_splits)
  ultimately have "flush_frame ?m1 m3" by (rule flush_frame_trans)
  moreover have "e = e3" "m' = (if e = None then m3\<lparr>m_lastCheckpoint := Unix now\<rparr> else m3\<lparr>m_dirty := True\<rparr>)"
    using fl s sv t by (auto simp: flushLocked_def Let_def split: if_splits)
  ultimately show thesis using that sv t by simp
qed

lemma flush_frame_flushLocked:
  assumes "flushLocked env now m = (m', e)"
  shows "flush_frame m m'"
proof (cases "m_store m = None \<or> \<not> m_dirty m")
  case True
  with assms show ?thesis by (auto simp: flushLocked_def flush_frame_def split: option.splits)
next
  case False
  then obtain s where "m_store m = Some s" "m_dirty m" by auto
  from assms this show ?thesis
  proof (cases rule: flush_cases)
    case (1 m2 e2 m3)
    have "flush_frame m (rollupAndPruneLocked now (m\<lparr>m_dirty := False\<rparr>))"
      by (auto simp: flush_frame_def rollupAndPruneLocked_def cleanup_states_def Let_def split: option.splits)
    from flush_frame_trans [OF this 1(3)] 1(4) show ?thesis by (simp add: flush_frame_def)
  qed
qed

lemma flush_inv:
  assumes "active_inv m" "flushLocked env now m = (m', e)"
  shows "active_inv m'"
  using flush_frame_flushLocked [OF assms(2)] by (intro heap_update_inv [OF assms(1)]) (auto simp: flush_frame_def)

lemma Reset_inv:
  assumes "active_inv m" "Reset env ident now m = (m', e)"
  shows "active_inv m'"
proof (cases "find (\<lambda>p. p_ID (pol_spec p) = ident) (rn_policies (m_runtime m))")
  case None
  with assms show ?thesis by (simp add: Reset_def)
next
  case (Some p)
  let ?m = "m\<lparr>m_heap := hmap (pol_state p) (reset_state now) (m_heap m), m_dirty := True\<rparr>"
  have "same_active (m_heap m) (m_heap ?m)" by (simp add: same_active_hmap reset_state_def)
  then have "active_inv ?m" by (intro heap_update_inv [OF assms(1)]) simp_all
  with assms(2) Some show ?thesis by (auto simp: Reset_def intro: flush_inv)
qed

subsection \<open>Changing the configuration keeps it\<close>

lemma load_active:
  assumes "Load lib db = Inr (states, reports, cp)"
  shows "\<forall>s \<in> snd ` set states. ps_Active s = 0"
proof -
  from assms have "foldR (load_policy lib) [] (db_policies db) = Inr states"
    by (auto simp: Load_def Let_def bindR_eq_Inr)
  then show ?thesis
  proof (rule foldR_invariant)
    fix st x st' assume "load_policy lib st x = Inr st'" and h: "\<forall>s \<in> snd ` set st. ps_Active s = 0"
    then obtain p where "st' = mset' (pp_ID p) (restore_policy p) st"
      by (auto simp: load_policy_def bindR_eq_Inr)
    moreover have "ps_Active (restore_policy p) = 0" for p by (simp add: restore_policy_def)
    ultimately show "\<forall>s \<in> snd ` set st'. ps_Active s = 0"
      using h by (auto dest!: set_mset')
  qed simp
qed

definition stage_ok :: "heap \<Rightarrow> policy_stage \<Rightarrow> bool" where
  "stage_ok h g \<longleftrightarrow> extends_active h (pg_heap g) \<and> (\<forall>(k, a) \<in> set (pg_states g). a < length (pg_heap g))
     \<and> addrs_below (length (pg_heap g)) (pg_policies g)"

lemma extends_append: "\<forall>s \<in> set ss. ps_Active s = 0 \<Longrightarrow> extends_active h (h @ ss)"
  by (auto simp: extends_active_def nth_append)

lemma mget_set: "mget m k = Some v \<Longrightarrow> (k, v) \<in> set m"
  by (simp add: map_of_SomeD)

lemma stage_state_ok:
  assumes ok: "stage_ok h g" and st: "stage_state lib now g spec = (a, g')"
  shows "stage_ok h g' \<and> a < length (pg_heap g') \<and> pg_policies g' = pg_policies g \<and> pg_touched g' = pg_touched g"
proof -
  let ?n = "length (pg_heap g)"
  have fresh: "stage_ok h (g\<lparr>pg_heap := pg_heap g @ [new_state i c k t], pg_states := mset' i ?n (pg_states g)\<rparr>)" for i c k t
  proof -
    have "extends_active (pg_heap g) (pg_heap g @ [new_state i c k t])"
      by (rule extends_append) (simp add: new_state_def)
    moreover have "b < Suc ?n" if "(j, b) \<in> set (mset' i ?n (pg_states g))" for j b
      using set_mset' [OF that] ok by (fastforce simp: stage_ok_def)
    moreover have "addrs_below (Suc ?n) (pg_policies g)" using ok by (auto simp: stage_ok_def addrs_below_def less_Suc_eq)
    ultimately show ?thesis using ok by (auto simp: stage_ok_def intro: extends_trans)
  qed
  show ?thesis
  proof (cases "mget (pg_states g) (p_ID spec)")
    case None
    with st fresh show ?thesis by (auto simp: stage_state_def Let_def)
  next
    case (Some b)
    from mget_set [OF Some] ok have "b < ?n" by (auto simp: stage_ok_def)
    with st Some fresh ok show ?thesis by (auto simp: stage_state_def Let_def split: if_splits)
  qed
qed

lemma stage_policy_ok:
  assumes "stage_ok h g"
  shows "stage_ok h (stage_policy lib now g spec)"
proof -
  obtain a k where st: "stage_state lib now g spec = (a, k)" by (cases "stage_state lib now g spec")
  note k = stage_state_ok [OF assms st]
  obtain p s where np: "newRuntimePolicy spec a (pg_heap k ! a) = (p, s)"
    by (cases "newRuntimePolicy spec a (pg_heap k ! a)")
  note p = newRuntimePolicy_active [OF np]
  have "same_active (pg_heap k) ((pg_heap k)[a := s])"
    using p k by (auto simp: same_active_def nth_list_update)
  then have "extends_active h ((pg_heap k)[a := s])"
    using k by (auto simp: stage_ok_def intro: extends_trans same_extends)
  with k p st np show ?thesis
    by (auto simp: stage_policy_def stage_ok_def addrs_below_def)
qed

lemma stage_fold_ok: "stage_ok h g \<Longrightarrow> stage_ok h (foldl (stage_policy lib now) g ps)"
  by (induction ps arbitrary: g) (auto intro: stage_policy_ok)

lemma stage_source_ok:
  assumes inv: "active_inv m" and src: "stage_source env config m = Inr (h, states, reports, store, cp, reuse)"
  shows "stage_ok (m_heap m) \<lparr>pg_heap = h, pg_states = states, pg_policies = [], pg_touched = []\<rparr>"
proof (cases "h = m_heap m \<and> states = m_states m")
  case True
  with inv show ?thesis by (auto simp: stage_ok_def active_inv_def addrs_below_def)
next
  case False
  with src obtain db ld rep c where l: "Load (env_store env) db = Inr (ld, rep, c)" "h = m_heap m @ map snd ld"
    "states = zip (map fst ld) [length (m_heap m) ..< length (m_heap m) + length ld]"
    by (auto simp: stage_source_def Let_def split: if_splits sum.splits option.splits prod.splits)
  have "extends_active (m_heap m) h"
    using load_active [OF l(1)] by (auto simp: l(2) intro!: extends_append)
  with l(2,3) show ?thesis by (auto simp: stage_ok_def addrs_below_def dest!: set_zip_rightD)
qed

lemma cleanup_subset: "set (cleanup_states r now h states) \<subseteq> set states"
  by (auto simp: cleanup_states_def Let_def)

lemma prepare_ok:
  assumes inv: "active_inv m" and pr: "prepareConfiguration env cp now m = (h, r)"
  shows "extends_active (m_heap m) h
    \<and> (\<forall>stage. r = Inr stage \<longrightarrow> addrs_below (length h) (rn_policies (sg_runtime stage))
         \<and> (\<forall>(k, a) \<in> set (sg_states stage). a < length h))"
proof (cases "case cp of Some c \<Rightarrow> if c_Enabled c then Some c else None | None \<Rightarrow> None")
  case None
  with pr show ?thesis by (auto simp: prepareConfiguration_def empty_runtime_def addrs_below_def)
next
  case (Some config)
  show ?thesis
  proof (cases "stage_source env config m")
    case (Inl e)
    with Some pr show ?thesis by (auto simp: prepareConfiguration_def)
  next
    case (Inr t)
    obtain h0 st rep so cpt re where t: "t = (h0, st, rep, so, cpt, re)" by (cases t)
    define g where "g = foldl (stage_policy (env_lib env) (Unix now))
      \<lparr>pg_heap = h0, pg_states = st, pg_policies = [], pg_touched = []\<rparr> (c_Policies config)"
    have g: "stage_ok (m_heap m) g"
      unfolding g_def by (rule stage_fold_ok) (rule stage_source_ok [OF inv Inr [unfolded t]])
    have hg: "h = pg_heap g"
      using pr Some Inr t by (auto simp: prepareConfiguration_def Let_def g_def split: sum.splits)
    have "addrs_below (length h) (rn_policies (sg_runtime stage)) \<and> set (sg_states stage) \<subseteq> set (pg_states g)"
      if "r = Inr stage" for stage
      using that pr Some Inr t g hg cleanup_subset
      by (fastforce simp: prepareConfiguration_def Let_def g_def [symmetric] stage_ok_def split: sum.splits)
    with g hg show ?thesis by (fastforce simp: stage_ok_def)
  qed
qed

lemma configure_inv:
  assumes inv: "active_inv m" and cf: "configure env cp now m = (m', e)"
  shows "active_inv m'"
proof -
  obtain h r where pr: "prepareConfiguration env cp now m = (h, r)" by (cases "prepareConfiguration env cp now m")
  note ok = prepare_ok [OF inv pr]
  have len: "length (m_heap m) \<le> length h" using ok by (simp add: extends_active_def)
  have grow: "active_inv (m\<lparr>m_heap := h\<rparr>)"
  proof (rule active_inv_step [OF inv])
    show "addrs_below (length (m_heap (m\<lparr>m_heap := h\<rparr>))) (rn_policies (m_runtime (m\<lparr>m_heap := h\<rparr>)))"
      using inv len by (auto simp: active_inv_def addrs_below_def dest: less_le_trans)
    show "\<forall>(k, a) \<in> set (m_states (m\<lparr>m_heap := h\<rparr>)). a < length (m_heap (m\<lparr>m_heap := h\<rparr>))"
      using inv len by (auto simp: active_inv_def dest: less_le_trans)
  qed (use ok in simp_all)
  show ?thesis
  proof (cases r)
    case (Inl e')
    with cf pr grow show ?thesis by (auto simp: configure_def)
  next
    case (Inr stage)
    let ?m1 = "stopFlusher (m\<lparr>m_heap := h\<rparr>)"
    obtain m2 e2 where fl: "flushLocked env now ?m1 = (m2, e2)" by (cases "flushLocked env now ?m1")
    have "active_inv ?m1" using grow by (simp add: active_inv_def stopFlusher_def)
    from flush_inv [OF this fl] have m2: "active_inv m2" .
    have h2: "m_heap m2 = h" using flush_frame_flushLocked [OF fl] by (simp add: flush_frame_def stopFlusher_def)
    show ?thesis
    proof (cases e2)
      case (Some x)
      with cf pr Inr fl m2 show ?thesis
        by (auto simp: configure_def Let_def active_inv_def startFlusher_def split: if_splits)
    next
      case None
      with cf pr Inr fl have m': "m' = commit_stage now stage (stage_reports_now now ?m1 stage) m2"
        by (simp add: configure_def Let_def)
      let ?h = "touch (Unix now) (sg_touched stage) h"
      have "same_active h ?h" by (rule touch_active)
      moreover have "m_heap m' = ?h" "m_sessions m' = m_sessions m2" "rn_policies (m_runtime m') = rn_policies (sg_runtime stage)"
        "m_states m' = sg_states stage"
        unfolding m' using h2 by (auto simp: commit_stage_def Let_def startFlusher_def split: option.split)
      ultimately show ?thesis
        using ok Inr h2 by (intro active_inv_step [OF m2]) (auto simp: same_active_def intro: same_extends)
    qed
  qed
qed

lemma Manager_Close_inv:
  assumes inv: "active_inv m" and cl: "Manager_Close env now m = (m', e)"
  shows "active_inv m'"
proof -
  let ?m = "(stopFlusher m)\<lparr>m_portal := None\<rparr>"
  obtain m2 e2 where fl: "flushLocked env now ?m = (m2, e2)" by (cases "flushLocked env now ?m")
  have "active_inv ?m" using inv by (simp add: active_inv_def stopFlusher_def)
  from flush_inv [OF this fl] cl fl show ?thesis
    by (auto simp: Manager_Close_def active_inv_def empty_runtime_def addrs_below_def split: if_splits)
qed

lemma flusher_inv: "active_inv m \<Longrightarrow> active_inv (flusher_step env now m)"
  using flush_inv [of "m\<lparr>m_wake := False\<rparr>" env now]
  by (cases "flushLocked env now (m\<lparr>m_wake := False\<rparr>)") (auto simp: flusher_step_def active_inv_def)

subsection \<open>The manager as a transition system\<close>

text \<open>
  The steps of the manager. The first group is what connections and the background flusher do; the
  second changes the configuration. Each step is one critical section of the code, so any
  interleaving of connections is a sequence of steps.
\<close>

inductive data_step :: "tc_env \<Rightarrow> Manager \<Rightarrow> Manager \<Rightarrow> bool" for env where
  step_open: "Open env flow now m = (i, m') \<Longrightarrow> data_step env m m'"
| step_record: "i < length (m_sessions m) \<Longrightarrow> data_step env m (Record env i d bytes now m)"
| step_wait: "i < length (m_sessions m) \<Longrightarrow> data_step env m (snd (Wait env waitN i d n now m))"
| step_allow: "i < length (m_sessions m) \<Longrightarrow> data_step env m (snd (AllowPacket env reserveN i d n now m))"
| step_close: "i < length (m_sessions m) \<Longrightarrow> data_step env m (Session_Close i m)"
| step_status: "data_step env m (snd (Manager_Status env now m))"
| step_reset: "Reset env ident now m = (m', e) \<Longrightarrow> data_step env m m'"
| step_flush: "flushLocked env now m = (m', e) \<Longrightarrow> data_step env m m'"
| step_flusher: "data_step env m (flusher_step env now m)"
| step_link: "i < length (m_sessions m) \<Longrightarrow> data_step env m (snd (PortalURL env plib i now m))"
| step_portal: "data_step env m (snd (servePortal env plib now query m))"

inductive config_step :: "tc_env \<Rightarrow> Manager \<Rightarrow> Manager \<Rightarrow> bool" for env where
  step_configure: "configure env cp now m = (m', e) \<Longrightarrow> config_step env m m'"
| step_configure_at: "ConfigureAtRevision env cp r now m = (m', e) \<Longrightarrow> config_step env m m'"
| step_shutdown: "Manager_Close env now m = (m', e) \<Longrightarrow> config_step env m m'"

definition tc_step :: "tc_env \<Rightarrow> Manager \<Rightarrow> Manager \<Rightarrow> bool" where
  "tc_step env m m' \<longleftrightarrow> data_step env m m' \<or> config_step env m m'"

definition tc_reachable :: "tc_env \<Rightarrow> Manager \<Rightarrow> bool" where
  "tc_reachable env m \<longleftrightarrow> (tc_step env)\<^sup>*\<^sup>* NewManager m"

inductive_cases data_stepE: "data_step env m m'"
inductive_cases config_stepE: "config_step env m m'"

lemma data_step_inv: "data_step env m m' \<Longrightarrow> active_inv m \<Longrightarrow> active_inv m'"
  by (induction rule: data_step.induct)
     (auto intro: Open_inv Record_inv Wait_inv AllowPacket_inv Close_inv Status_inv Reset_inv flush_inv flusher_inv PortalURL_inv servePortal_inv)

lemma config_step_inv: "config_step env m m' \<Longrightarrow> active_inv m \<Longrightarrow> active_inv m'"
  by (induction rule: config_step.induct)
     (auto simp: ConfigureAtRevision_def intro: configure_inv Manager_Close_inv split: if_splits)

lemma NewManager_inv: "active_inv NewManager"
  by (simp add: active_inv_def NewManager_def addrs_below_def)

lemma reachable_inv:
  assumes "tc_reachable env m"
  shows "active_inv m"
  using assms unfolding tc_reachable_def
  by (induction rule: rtranclp_induct) (auto simp: tc_step_def NewManager_inv intro: data_step_inv config_step_inv)

lemma reachable_step: "tc_reachable env m \<Longrightarrow> tc_step env m m' \<Longrightarrow> tc_reachable env m'"
  by (simp add: tc_reachable_def rtranclp.rtrancl_into_rtrancl)

lemma reachable_new: "tc_reachable env NewManager"
  by (simp add: tc_reachable_def)

subsection \<open>A small installation\<close>

definition demo_policy :: Policy where
  "demo_policy = \<lparr>p_ID = ''global'', p_Name = ''global'', p_Kind = PolicyGlobal, p_Enabled = True,
     p_UploadBPS = 0, p_DownloadBPS = 0, p_Quota = zero_quota, p_MAC = [], p_SourceCIDRs = [],
     p_Rule = zero_rule, p_Target = zero_target\<rparr>"

definition demo_config :: Config where
  "demo_config = \<lparr>c_Enabled = True, c_StorePath = ''traffic-control.db'', c_requestedStore = ''traffic-control.db'',
     c_CheckpointInterval = 10 * Minute, c_MaxStoreSize = 67108864, c_Portal = \<lparr>pc_Listen = [], pc_URL = []\<rparr>,
     c_Reports = \<lparr>r_Enabled = False, r_HourlyRetention = DefaultHourlyRetention, r_DailyRetention = DefaultDailyRetention,
       r_MonthlyRetention = DefaultMonthlyRetention, r_OrphanRetention = DefaultOrphanRetention\<rparr>,
     c_Policies = [demo_policy]\<rparr>"

definition demo_env :: tc_env where
  "demo_env = \<lparr>env_lib = sample_lib, env_store = sample_store_lib, env_open = (\<lambda>_ _. Inr sample_store),
     env_compact = Inr, env_listen = (\<lambda>_. None)\<rparr>"

definition demo_flow :: Flow where
  "demo_flow = \<lparr>fl_SourceIP = InvalidAddr, fl_RuleType = [], fl_RulePayload = [], fl_RuleTarget = [], fl_Chains = []\<rparr>"

definition demo_runtime_policy :: runtimePolicy where
  "demo_runtime_policy = fst (newRuntimePolicy demo_policy 0 sample_state)"

definition demo_manager :: Manager where
  "demo_manager = fst (configure demo_env (Some demo_config) 0 NewManager)"

lemma demo_manager_facts:
  "m_revision demo_manager = 1" "length (m_heap demo_manager) = 1" "m_sessions demo_manager = []"
  "rn_policies (m_runtime demo_manager) = [demo_runtime_policy]" "rn_config (m_runtime demo_manager) = Some demo_config"
  "configure demo_env (Some demo_config) 0 NewManager = (demo_manager, None)"
proof -
  have trim: "TrimSpace [] = []" by code_simp
  have "let (m, e) = configure demo_env (Some demo_config) 0 NewManager in
     m_revision m = 1 \<and> length (m_heap m) = 1 \<and> m_sessions m = [] \<and> rn_policies (m_runtime m) = [demo_runtime_policy]
     \<and> rn_config (m_runtime m) = Some demo_config \<and> e = None"
    by (simp add: configure_def prepareConfiguration_def stage_source_def NewManager_def demo_env_def Load_def
      sample_store_def stage_policy_def stage_state_def stage_portal_def demo_config_def trim Let_def
      newRuntimePolicy_def demo_policy_def flushLocked_def stopFlusher_def commit_stage_def demo_runtime_policy_def
      startFlusher_def touch_def hmap_def zero_quota_def stage_reports_now_def stage_store_now_def empty_runtime_def
      limitStagedReports_def new_state_def)
  then show "m_revision demo_manager = 1" "length (m_heap demo_manager) = 1" "m_sessions demo_manager = []"
  "rn_policies (m_runtime demo_manager) = [demo_runtime_policy]" "rn_config (m_runtime demo_manager) = Some demo_config"
  "configure demo_env (Some demo_config) 0 NewManager = (demo_manager, None)"
    by (auto simp: demo_manager_def split: prod.splits)
qed

subsection \<open>Sessions\<close>

text \<open>
  C1. The number of open sessions is right. In every state the manager can reach, by any interleaving
  of connections opening, transferring, closing, status queries, resets, flushes and changes of the
  configuration, including failing ones, the session counter of each policy state is the number of
  times an open session is bound to it, and the policies of the running configuration refer to
  states that exist.
\<close>

theorem session_count:
  assumes "tc_reachable env m"
  shows "addrs_below (length (m_heap m)) (rn_policies (m_runtime m))
    \<and> list_all (\<lambda>a. ps_Active (m_heap m ! a) = of_nat (binding_count a (m_sessions m))) [0..<length (m_heap m)]"
  using reachable_inv [OF assms] by (auto simp: active_inv_def list_all_iff)

definition demo_open :: Manager where
  "demo_open = snd (Open demo_env demo_flow 0 demo_manager)"

lemma demo_binding:
  "bindSession (env_lib demo_env) (m_runtime demo_manager) demo_flow 0 (m_heap demo_manager)
    = (\<lparr>sb_runtime = rn_id (m_runtime demo_manager), sb_policies = [demo_runtime_policy],
        sb_dimensions = [''global:global''], sb_reportKeys = []\<rparr>,
       hmap 0 (bind_state demo_runtime_policy 0) (m_heap demo_manager))"
  by (simp add: bindSession_def demo_manager_facts reports_enabled_def demo_config_def)
     (simp add: demo_runtime_policy_def newRuntimePolicy_def demo_policy_def zero_quota_def policyMatches_def)

lemma demo_open_facts:
  "Open demo_env demo_flow 0 demo_manager = (Some 0, demo_open)"
  "m_sessions demo_open = [\<lparr>ss_flow = demo_flow, ss_binding = Some \<lparr>sb_runtime = rn_id (m_runtime demo_manager),
      sb_policies = [demo_runtime_policy], sb_dimensions = [''global:global''], sb_reportKeys = []\<rparr>, ss_closed = False\<rparr>]"
  "length (m_heap demo_open) = 1" "m_runtime demo_open = m_runtime demo_manager"
  by (simp_all add: demo_open_def Open_def demo_binding demo_manager_facts)

lemma demo_reachable: "tc_reachable demo_env demo_manager" "tc_reachable demo_env demo_open"
proof -
  show *: "tc_reachable demo_env demo_manager"
    by (rule reachable_step [OF reachable_new])
       (auto simp: tc_step_def intro: step_configure [OF demo_manager_facts(6)])
  show "tc_reachable demo_env demo_open"
    by (rule reachable_step [OF *]) (auto simp: tc_step_def intro: step_open [OF demo_open_facts(1)])
qed

lemma demo_policy_facts [simp]:
  "pol_state demo_runtime_policy = 0" "pol_spec demo_runtime_policy = demo_policy"
  by (simp_all add: demo_runtime_policy_def newRuntimePolicy_def Let_def)

theorem session_count_witness:
  "tc_reachable demo_env demo_open \<and> ps_Active (m_heap demo_open ! 0) = 1"
  using session_count [OF demo_reachable(2)] demo_reachable(2)
  by (simp add: demo_open_facts binding_policies_def)

lemma bind_loop_policies:
  "fst (bind_loop lib flow now ps h) = filter (\<lambda>p. p_Enabled (pol_spec p) \<and> policyMatches (pol_spec p) flow
     (CanonicalRule lib (fl_RuleType flow) (fl_RulePayload flow) (fl_RuleTarget flow))) ps"
  by (induction ps arbitrary: h) (simp_all add: Let_def case_prod_unfold)

lemma bindSession_policies:
  "sb_policies (fst (bindSession lib rt flow now h)) = (if rn_config rt = None then []
     else filter (\<lambda>p. p_Enabled (pol_spec p) \<and> policyMatches (pol_spec p) flow
       (CanonicalRule lib (fl_RuleType flow) (fl_RulePayload flow) (fl_RuleTarget flow))) (rn_policies rt))"
  using bind_loop_policies [of lib flow now "rn_policies rt" h]
  by (auto simp: bindSession_def Let_def case_prod_unfold split: list.splits)

text \<open>
  C30. A session is bound to exactly the policies that are enabled and match it, in the order of the
  configuration, and every state it is bound to counts it; when there is none, no session is opened.
\<close>

theorem Open_binds_matching:
  assumes op: "Open env flow now m = (r, m')" and config: "rn_config (m_runtime m) = Some c"
  shows "let ms = filter (\<lambda>p. p_Enabled (pol_spec p) \<and> policyMatches (pol_spec p) flow
             (CanonicalRule (env_lib env) (fl_RuleType flow) (fl_RulePayload flow) (fl_RuleTarget flow)))
             (rn_policies (m_runtime m))
    in if ms = [] then r = None \<and> m_sessions m' = m_sessions m
       else r = Some (length (m_sessions m)) \<and> length (m_sessions m') = Suc (length (m_sessions m))
         \<and> binding_policies (m_sessions m' ! length (m_sessions m)) = ms"
proof -
  obtain b h where bh: "bindSession (env_lib env) (m_runtime m) flow now (m_heap m) = (b, h)"
    by (cases "bindSession (env_lib env) (m_runtime m) flow now (m_heap m)")
  with bindSession_policies [of "env_lib env" "m_runtime m" flow now "m_heap m"] config
  have "sb_policies b = filter (\<lambda>p. p_Enabled (pol_spec p) \<and> policyMatches (pol_spec p) flow
      (CanonicalRule (env_lib env) (fl_RuleType flow) (fl_RulePayload flow) (fl_RuleTarget flow))) (rn_policies (m_runtime m))"
    by simp
  with op bh show ?thesis
    by (auto simp: Open_def Let_def binding_policies_def nth_append split: if_splits)
qed

theorem Open_binds_matching_witness:
  "length (m_sessions demo_open) = 1 \<and> binding_policies (m_sessions demo_open ! 0) = [demo_runtime_policy]"
  using Open_binds_matching [OF demo_open_facts(1) demo_manager_facts(5)]
  by (simp add: demo_manager_facts demo_policy_def policyMatches_def Let_def)

lemma wait_chunks_sum: "0 < burst \<Longrightarrow> sum_list (wait_chunks burst bytes) = max 0 bytes"
proof (induction burst bytes rule: wait_chunks.induct)
  case (1 burst bytes)
  then show ?case by (subst wait_chunks.simps) (auto simp: Let_def split: if_splits)
qed

lemma wait_chunks_bound: "list_all (\<lambda>c. 0 < c \<and> c \<le> burst) (wait_chunks burst bytes)"
proof (induction burst bytes rule: wait_chunks.induct)
  case (1 burst bytes)
  then show ?case by (subst wait_chunks.simps) (auto simp: Let_def)
qed

lemma wait_chunks_length: "0 < burst \<Longrightarrow> int (length (wait_chunks burst bytes)) = (max 0 bytes + burst - 1) div burst"
proof (induction burst bytes rule: wait_chunks.induct)
  case (1 burst bytes)
  show ?case
  proof (cases "0 < bytes")
    case False
    with 1 show ?thesis by (subst wait_chunks.simps) auto
  next
    case pos: True
    show ?thesis
    proof (cases "bytes > burst")
      case True
      have "(bytes + burst - 1) div burst = 1 + (bytes - burst + burst - 1) div burst"
        using 1(2) div_add_self2 [of burst "bytes - 1"] by (simp add: algebra_simps)
      with 1 pos True show ?thesis by (subst wait_chunks.simps) (auto simp: Let_def)
    next
      case False
      have "(bytes + burst - 1) div burst = 1 + (bytes - 1) div burst"
        using 1(2) div_add_self2 [of burst "bytes - 1"] by (simp add: algebra_simps)
      with pos False 1(2) have "(bytes + burst - 1) div burst = 1" by (simp add: div_pos_pos_trivial)
      with pos False 1(2) show ?thesis by (subst wait_chunks.simps) (simp add: Let_def wait_chunks.simps)
    qed
  qed
qed

text \<open>
  A limiter is asked for all the bytes and never for more than its burst. The pieces that
  \<^verbatim>\<open>waitLimiter\<close> asks for add up to the size of the transfer, each is positive and at most the burst,
  so the limiter never refuses a request as too large; the loop ends for every size, after as many
  pieces as are needed.
\<close>

theorem wait_chunks_exact:
  assumes "0 < burst" "0 < bytes"
  shows "sum_list (wait_chunks burst bytes) = bytes \<and> list_all (\<lambda>c. 0 < c \<and> c \<le> burst) (wait_chunks burst bytes)
    \<and> int (length (wait_chunks burst bytes)) = (bytes + burst - 1) div burst"
  using assms wait_chunks_sum [of burst bytes] wait_chunks_bound [of burst bytes] wait_chunks_length [of burst bytes]
  by simp

theorem wait_chunks_exact_witness:
  "sum_list (wait_chunks 64 150) = 150 \<and> length (wait_chunks 64 150) = 3"
  using wait_chunks_exact [of 64 150] by simp

end
