(* ===== verification/TC_Lifecycle.thy ===== *)
theory TC_Lifecycle
  imports TC_Sessions
begin

section \<open>Traffic control: recording, configuration and durability\<close>

text \<open>
  What the operations of the manager achieve: traffic is charged once, a change of the configuration
  is all or nothing, keeps the usage of the policies that stay and cannot be lost to another client,
  and a successful flush is durable. The last property shows where the clean-up of orphans removes
  the state of a policy that is still configured.
\<close>

subsection \<open>Recording\<close>

lemma record_loop_other:
  "a \<notin> pol_state ` set ps \<Longrightarrow> snd (record_loop d b now ps h) ! a = h ! a"
  by (induction ps arbitrary: h) (simp_all add: Let_def case_prod_unfold)

lemma record_loop_once:
  assumes "distinct (map pol_state ps)" "p \<in> set ps" "pol_state p < length h"
  shows "snd (record_loop d b now ps h) ! pol_state p = fst (policy_record p d b now (h ! pol_state p))"
  using assms
proof (induction ps arbitrary: h)
  case (Cons q ps)
  let ?s = "fst (policy_record q d b now (h ! pol_state q))"
  have step: "snd (record_loop d b now (q # ps) h) = snd (record_loop d b now ps (h[pol_state q := ?s]))"
    by (simp add: Let_def case_prod_unfold)
  show ?case
  proof (cases "p = q")
    case True
    with Cons.prems have "pol_state p \<notin> pol_state ` set ps" by auto
    from record_loop_other [OF this, of d b now "h[pol_state q := ?s]"] True Cons.prems(3) show ?thesis
      by (simp only: step) simp
  next
    case False
    with Cons.prems have "p \<in> set ps" "pol_state p \<noteq> pol_state q" by (auto simp: image_iff)
    with Cons.IH [of "h[pol_state q := ?s]"] Cons.prems show ?thesis by (simp only: step) simp
  qed
qed simp

lemma record_crossed:
  assumes "distinct (map pol_state ps)"
  shows "fst (record_loop d b now ps h) \<longleftrightarrow> list_ex (\<lambda>p. snd (policy_record p d b now (h ! pol_state p))) ps"
  using assms
proof (induction ps arbitrary: h)
  case (Cons p ps)
  let ?h = "h[pol_state p := fst (policy_record p d b now (h ! pol_state p))]"
  have "list_ex (\<lambda>q. snd (policy_record q d b now (?h ! pol_state q))) ps
      = list_ex (\<lambda>q. snd (policy_record q d b now (h ! pol_state q))) ps"
    using Cons.prems by (auto simp: list_ex_iff image_iff)
  with Cons.IH [of ?h] Cons.prems show ?case by (simp add: Let_def case_prod_unfold)
qed simp

lemma Record_loop:
  assumes "currentBinding env i now m = (Some b, k)" "0 < sint bytes"
  shows "m_heap (Record env i d bytes now m) = snd (record_loop d bytes now (sb_policies b) (m_heap k))"
    "m_dirty (Record env i d bytes now m)"
    "fst (record_loop d bytes now (sb_policies b) (m_heap k)) \<Longrightarrow> m_flusher k \<noteq> None
       \<Longrightarrow> m_wake (Record env i d bytes now m)"
  using assms by (auto simp: Record_def Let_def case_prod_unfold)

text \<open>
  C2. Traffic is charged once to each policy of the session and to nobody else. Recording a transfer
  updates the state of every policy the session is bound to by exactly one call of \<^verbatim>\<open>record\<close>, leaves
  every other state untouched, marks the manager dirty, and wakes the flusher when a quota was crossed.
\<close>

theorem Record_exactly_once:
  assumes "currentBinding env i now m = (Some b, k)" "0 < sint bytes"
    and "distinct (map pol_state (sb_policies b))" "addrs_below (length (m_heap k)) (sb_policies b)"
  shows "list_all (\<lambda>p. m_heap (Record env i d bytes now m) ! pol_state p
            = fst (policy_record p d bytes now (m_heap k ! pol_state p))) (sb_policies b)
    \<and> (\<forall>a. a \<notin> pol_state ` set (sb_policies b) \<longrightarrow> m_heap (Record env i d bytes now m) ! a = m_heap k ! a)
    \<and> m_dirty (Record env i d bytes now m)
    \<and> (list_ex (\<lambda>p. snd (policy_record p d bytes now (m_heap k ! pol_state p))) (sb_policies b)
        \<and> m_flusher k \<noteq> None \<longrightarrow> m_wake (Record env i d bytes now m))"
  using Record_loop [OF assms(1,2), of d] record_loop_once [OF assms(3)] record_crossed [OF assms(3)] assms(4)
  by (auto simp: list_all_iff addrs_below_def record_loop_other)

lemma demo_current:
  "currentBinding demo_env 0 5 demo_open = (Some \<lparr>sb_runtime = rn_id (m_runtime demo_manager),
      sb_policies = [demo_runtime_policy], sb_dimensions = [''global:global''], sb_reportKeys = []\<rparr>, demo_open)"
  by (simp add: currentBinding_def demo_open_facts)

theorem Record_exactly_once_witness:
  "m_heap (Record demo_env 0 Upload 10 5 demo_open) ! 0
     = fst (policy_record demo_runtime_policy Upload 10 5 (m_heap demo_open ! 0))
   \<and> m_dirty (Record demo_env 0 Upload 10 5 demo_open)"
  using Record_exactly_once [OF demo_current, of 10 Upload]
  by (simp add: demo_open_facts addrs_below_def)

subsection \<open>Configurations\<close>

lemma stage_policy_specs:
  "map pol_spec (pg_policies (foldl (stage_policy lib now) g ps)) = map pol_spec (pg_policies g) @ ps"
proof (induction ps arbitrary: g)
  case (Cons p ps)
  have "map pol_spec (pg_policies (stage_policy lib now g p)) = map pol_spec (pg_policies g) @ [p]"
    by (auto simp: stage_policy_def stage_state_def newRuntimePolicy_def Let_def split: option.splits)
  with Cons show ?case by simp
qed simp

definition enabled_config :: "Config option \<Rightarrow> Config option" where
  "enabled_config cp = (case cp of Some c \<Rightarrow> if c_Enabled c then Some c else None | None \<Rightarrow> None)"

lemma prepare_runtime:
  assumes "prepareConfiguration env cp now m = (h, Inr stage)"
  shows "rn_id (sg_runtime stage) = Suc (rn_id (m_runtime m)) \<and> rn_config (sg_runtime stage) = enabled_config cp
    \<and> sg_config stage = enabled_config cp
    \<and> map pol_spec (rn_policies (sg_runtime stage)) = (case enabled_config cp of None \<Rightarrow> [] | Some c \<Rightarrow> c_Policies c)"
  using assms
  by (auto simp: prepareConfiguration_def Let_def enabled_config_def empty_runtime_def stage_policy_specs
      split: option.splits sum.splits prod.splits if_splits)

lemma configure_cases:
  assumes "configure env cp now m = (m', e)"
  obtains (prepare) h x where "prepareConfiguration env cp now m = (h, Inl x)" "e = Some x" "m' = m\<lparr>m_heap := h\<rparr>"
  | (flush) h stage m2 x where "prepareConfiguration env cp now m = (h, Inr stage)"
      "flushLocked env now (stopFlusher (m\<lparr>m_heap := h\<rparr>)) = (m2, Some x)" "e = Some x"
      "m' = (case rn_config (m_runtime m) of None \<Rightarrow> m2
              | Some c \<Rightarrow> if c_CheckpointInterval c > 0 then startFlusher (c_CheckpointInterval c) m2 else m2)"
  | (commit) h stage m2 where "prepareConfiguration env cp now m = (h, Inr stage)"
      "flushLocked env now (stopFlusher (m\<lparr>m_heap := h\<rparr>)) = (m2, None)" "e = None"
      "m' = commit_stage now stage (stage_reports_now now (stopFlusher (m\<lparr>m_heap := h\<rparr>)) stage) m2"
  using assms that
  by (auto simp: configure_def Let_def split: prod.splits sum.splits if_splits option.splits)

text \<open>
  Staging keeps every state that exists: what building a runtime policy may rewrite is the cached sum
  of its buckets.
\<close>

definition same_usage :: "heap \<Rightarrow> heap \<Rightarrow> bool" where
  "same_usage h h' \<longleftrightarrow> length h \<le> length h'
     \<and> (\<forall>a < length h. h' ! a = (h ! a)\<lparr>ps_rolling := ps_rolling (h' ! a)\<rparr>)"

lemma same_usage_refl [simp]: "same_usage h h"
  by (simp add: same_usage_def)

lemma same_usage_trans:
  assumes "same_usage h1 h2" "same_usage h2 h3"
  shows "same_usage h1 h3"
proof -
  have "h3 ! a = (h1 ! a)\<lparr>ps_rolling := ps_rolling (h3 ! a)\<rparr>" if a: "a < length h1" for a
  proof -
    obtain r where r: "h2 ! a = (h1 ! a)\<lparr>ps_rolling := r\<rparr>" using assms(1) a by (auto simp: same_usage_def)
    have "h3 ! a = (h2 ! a)\<lparr>ps_rolling := ps_rolling (h3 ! a)\<rparr>" using assms a by (simp add: same_usage_def)
    then show ?thesis by (simp add: r)
  qed
  with assms show ?thesis by (simp add: same_usage_def)
qed

lemma same_usage_append: "same_usage h (h @ ss)"
  by (auto simp: same_usage_def nth_append)

lemma same_usage_update: "same_usage h (h[a := (h ! a)\<lparr>ps_rolling := r\<rparr>])"
  by (cases "a < length h") (auto simp: same_usage_def nth_list_update)

lemma stage_policy_usage: "same_usage (pg_heap g) (pg_heap (stage_policy lib now g spec))"
proof -
  obtain a k where st: "stage_state lib now g spec = (a, k)" by (cases "stage_state lib now g spec")
  have k: "same_usage (pg_heap g) (pg_heap k)"
    using st by (auto simp: stage_state_def Let_def same_usage_append split: option.splits if_splits)
  have "snd (newRuntimePolicy spec a s) = s\<lparr>ps_rolling := if 0 < q_Window (p_Quota spec)
      then sumBuckets (ps_Buckets s) else ps_rolling s\<rparr>" for s
    by (simp add: newRuntimePolicy_def Let_def)
  then have "same_usage (pg_heap k) ((pg_heap k)[a := snd (newRuntimePolicy spec a (pg_heap k ! a))])"
    by (simp only: same_usage_update)
  with k st show ?thesis by (auto simp: stage_policy_def case_prod_unfold Let_def intro: same_usage_trans)
qed

lemma stage_fold_usage: "same_usage (pg_heap g) (pg_heap (foldl (stage_policy lib now) g ps))"
  by (induction ps arbitrary: g) (auto intro: same_usage_trans stage_policy_usage)

lemma prepare_usage:
  assumes "prepareConfiguration env cp now m = (h, r)"
  shows "same_usage (m_heap m) h"
proof (cases "enabled_config cp")
  case None
  with assms show ?thesis by (auto simp: prepareConfiguration_def enabled_config_def)
next
  case (Some config)
  show ?thesis
  proof (cases "stage_source env config m")
    case (Inl e)
    with Some assms show ?thesis by (auto simp: prepareConfiguration_def enabled_config_def)
  next
    case (Inr t)
    obtain h0 st rep so cpt re where t: "t = (h0, st, rep, so, cpt, re)" by (cases t)
    have "same_usage (m_heap m) h0"
      using Inr t same_usage_append
      by (auto simp: stage_source_def Let_def split: if_splits sum.splits option.splits prod.splits)
    moreover have "same_usage h0 h"
      using stage_fold_usage [of "\<lparr>pg_heap = h0, pg_states = st, pg_policies = [], pg_touched = []\<rparr>"
          "env_lib env" "Unix now" "c_Policies config"] assms Some Inr t
      by (auto simp: prepareConfiguration_def Let_def enabled_config_def split: sum.splits)
    ultimately show ?thesis by (rule same_usage_trans)
  qed
qed

text \<open>The flusher runs exactly while there is a configuration, at its interval.\<close>

definition flusher_ok :: "Manager \<Rightarrow> bool" where
  "flusher_ok m \<longleftrightarrow> (case rn_config (m_runtime m) of None \<Rightarrow> m_flusher m = None
     | Some c \<Rightarrow> m_flusher m = Some (c_CheckpointInterval c) \<and> 0 < c_CheckpointInterval c)"


lemma demo_flusher: "flusher_ok NewManager"
  by (simp add: flusher_ok_def NewManager_def)


subsection \<open>The optimistic lock\<close>

lemma currentBinding_revision: "m_revision (snd (currentBinding env i now m)) = m_revision m"
  by (auto simp: currentBinding_def rebind_def Let_def case_prod_unfold split: option.split)

lemma data_step_revision: "data_step env m m' \<Longrightarrow> m_revision m' = m_revision m"
proof (induction rule: data_step.induct)
  case (step_open flow now m i m')
  then show ?case by (auto simp: Open_def Let_def case_prod_unfold split: if_splits)
next
  case (step_record i m d bytes now)
  then show ?case using currentBinding_revision [of env i now m]
    by (auto simp: Record_def Let_def case_prod_unfold split: prod.splits option.splits)
next
  case (step_wait i m waitN d n now)
  then show ?case using currentBinding_revision [of env i now m]
    by (auto simp: Wait_def Let_def case_prod_unfold split: prod.splits option.splits)
next
  case (step_allow i m reserveN d n now)
  then show ?case using currentBinding_revision [of env i now m]
    by (auto simp: AllowPacket_def Let_def case_prod_unfold split: prod.splits option.splits)
next
  case (step_reset ident now m m' e)
  then show ?case
    by (auto simp: Reset_def flush_frame_def split: option.splits dest!: flush_frame_flushLocked)
next
  case (step_flush now m m' e)
  from flush_frame_flushLocked [OF this] show ?case by (simp add: flush_frame_def)
next
  case (step_flusher m now)
  then show ?case
    using flush_frame_flushLocked [of env now "m\<lparr>m_wake := False\<rparr>"]
    by (cases "flushLocked env now (m\<lparr>m_wake := False\<rparr>)") (auto simp: flusher_step_def flush_frame_def)
next
  case (step_link i m plib now)
  then show ?case using currentBinding_revision [of env i now m]
    by (auto simp: PortalURL_def Let_def case_prod_unfold split: prod.splits option.splits)
next
  case (step_portal plib now query m)
  then show ?case
    by (auto simp: servePortal_def Manager_Status_def Let_def case_prod_unfold split: option.splits)
qed (simp_all add: Session_Close_def Manager_Status_def Let_def case_prod_unfold)

lemma data_steps_revision: "(data_step env)\<^sup>*\<^sup>* m m' \<Longrightarrow> m_revision m' = m_revision m"
  by (induction rule: rtranclp_induct) (simp_all add: data_step_revision)

lemma configure_revision:
  assumes "configure env cp now m = (m', e)"
  shows "m_revision m' = (if e = None then m_revision m + 1 else m_revision m)"
  using assms
proof (cases rule: configure_cases)
  case (flush h stage m2 x)
  from flush_frame_flushLocked [OF flush(2)] flush(3,4) show ?thesis
    by (auto simp: flush_frame_def stopFlusher_def startFlusher_def split: option.splits)
next
  case (commit h stage m2)
  from flush_frame_flushLocked [OF commit(2)] commit(3,4) show ?thesis
    by (auto simp: flush_frame_def stopFlusher_def startFlusher_def commit_stage_def Let_def split: option.splits)
qed simp

text \<open>
  C22. No update is lost. Two clients that read the same revision cannot both change the
  configuration: once the first has succeeded, the other is refused with a revision conflict and
  changes nothing, no matter what the connections did in between.
\<close>

theorem no_lost_update:
  assumes first: "ConfigureAtRevision env c1 r t1 m = (m1, None)"
    and between: "(data_step env)\<^sup>*\<^sup>* m1 m2"
  shows "ConfigureAtRevision env c2 r t2 m2 = (m2, Some RevisionConflict)"
proof -
  have "configure env c1 t1 m = (m1, None)" and r: "m_revision m = r"
    using first by (auto simp: ConfigureAtRevision_def split: if_splits)
  from configure_revision [OF this(1)] data_steps_revision [OF between] r have "m_revision m2 = r + 1" by simp
  then show ?thesis by (simp add: ConfigureAtRevision_def)
qed

theorem no_lost_update_witness:
  "ConfigureAtRevision demo_env None 0 9 demo_open = (demo_open, Some RevisionConflict)"
proof (rule no_lost_update)
  show "ConfigureAtRevision demo_env (Some demo_config) 0 0 NewManager = (demo_manager, None)"
    using demo_manager_facts(6) by (simp add: ConfigureAtRevision_def) (simp add: NewManager_def)
  show "(data_step demo_env)\<^sup>*\<^sup>* demo_manager demo_open"
    by (rule r_into_rtranclp) (rule step_open [OF demo_open_facts(1)])
qed

subsection \<open>Policies keep their usage\<close>

definition same_but_rolling :: "policyState \<Rightarrow> policyState \<Rightarrow> bool" where
  "same_but_rolling s t \<longleftrightarrow> s = t\<lparr>ps_rolling := ps_rolling s\<rparr>"

lemma same_but_rolling_refl [simp]: "same_but_rolling s s"
  by (simp add: same_but_rolling_def)

lemma same_but_rolling_trans:
  assumes "same_but_rolling s t" "same_but_rolling t u"
  shows "same_but_rolling s u"
proof -
  obtain r where t: "t = u\<lparr>ps_rolling := r\<rparr>" using assms(2) by (auto simp: same_but_rolling_def)
  have "s = t\<lparr>ps_rolling := ps_rolling s\<rparr>" using assms(1) by (simp add: same_but_rolling_def)
  then show ?thesis by (simp add: same_but_rolling_def t)
qed

lemma same_but_rolling_fields:
  assumes "same_but_rolling s t"
  shows "ps_Identity s = ps_Identity t" "ps_Generation s = ps_Generation t" "ps_Counters s = ps_Counters t"
proof -
  obtain r where "s = t\<lparr>ps_rolling := r\<rparr>" using assms by (auto simp: same_but_rolling_def)
  then show "ps_Identity s = ps_Identity t" "ps_Generation s = ps_Generation t" "ps_Counters s = ps_Counters t"
    by simp_all
qed

lemma same_usage_nth: "same_usage h h' \<Longrightarrow> a < length h \<Longrightarrow> same_but_rolling (h' ! a) (h ! a)"
  by (simp add: same_usage_def same_but_rolling_def)

text \<open>
  The state a policy starts from: the filed one when it has the policy's identity, an empty one of
  the next generation when it has another, and an empty one of the first generation when there is none.
\<close>

definition expected_state :: "tc_lib \<Rightarrow> int \<Rightarrow> heap \<Rightarrow> (string, nat) gomap \<Rightarrow> Policy \<Rightarrow> policyState" where
  "expected_state lib now h states spec =
     (let identity = policyIdentity lib spec in
      case mget states (p_ID spec) of
        None \<Rightarrow> new_state (p_ID spec) identity 1 now
      | Some b \<Rightarrow> if ps_Identity (h ! b) = identity then h ! b
                  else new_state (p_ID spec) identity (ps_Generation (h ! b) + 1) now)"

definition staged :: "policy_stage \<Rightarrow> Policy \<Rightarrow> policyState \<Rightarrow> bool" where
  "staged g spec s \<longleftrightarrow> (\<exists>p \<in> set (pg_policies g). pol_spec p = spec \<and> pol_state p \<in> set (pg_touched g)
     \<and> pol_state p < length (pg_heap g) \<and> same_but_rolling (pg_heap g ! pol_state p) s)"

lemma stage_policy_staged:
  assumes "\<forall>(k, a) \<in> set (pg_states g). a < length (pg_heap g)"
  shows "staged (stage_policy lib now g spec) spec (expected_state lib now (pg_heap g) (pg_states g) spec)"
proof -
  obtain a k where st: "stage_state lib now g spec = (a, k)" by (cases "stage_state lib now g spec")
  have a: "a < length (pg_heap k) \<and> pg_heap k ! a = expected_state lib now (pg_heap g) (pg_states g) spec"
    using st assms mget_set [of "pg_states g" "p_ID spec"]
    by (auto simp: stage_state_def expected_state_def Let_def split: option.splits if_splits)
  obtain p s where np: "newRuntimePolicy spec a (pg_heap k ! a) = (p, s)"
    by (cases "newRuntimePolicy spec a (pg_heap k ! a)")
  then have "pol_spec p = spec" "pol_state p = a" "same_but_rolling s (pg_heap k ! a)"
    by (auto simp: newRuntimePolicy_def Let_def same_but_rolling_def)
  with a st np show ?thesis by (auto simp: staged_def stage_policy_def Let_def)
qed

lemma stage_policy_grows:
  "set (pg_policies g) \<subseteq> set (pg_policies (stage_policy lib now g q))"
  "set (pg_touched g) \<subseteq> set (pg_touched (stage_policy lib now g q))"
  by (auto simp: stage_policy_def stage_state_def Let_def case_prod_unfold split: option.splits)

lemma staged_mono:
  assumes "staged g spec s"
  shows "staged (stage_policy lib now g q) spec s"
proof -
  obtain p where p: "p \<in> set (pg_policies g)" "pol_spec p = spec" "pol_state p \<in> set (pg_touched g)"
    "pol_state p < length (pg_heap g)" "same_but_rolling (pg_heap g ! pol_state p) s"
    using assms by (auto simp: staged_def)
  have u: "same_usage (pg_heap g) (pg_heap (stage_policy lib now g q))" by (rule stage_policy_usage)
  from same_but_rolling_trans [OF same_usage_nth [OF u p(4)] p(5)] p u stage_policy_grows [of g lib now q]
  show ?thesis by (auto simp: staged_def same_usage_def intro!: bexI [of _ p])
qed

lemma staged_fold_mono: "staged g spec s \<Longrightarrow> staged (foldl (stage_policy lib now) g ps) spec s"
  by (induction ps arbitrary: g) (simp_all add: staged_mono)

lemma staged_weaken: "staged g spec s \<Longrightarrow> same_but_rolling s t \<Longrightarrow> staged g spec t"
  by (auto simp: staged_def intro: same_but_rolling_trans)

lemma stage_policy_mget:
  assumes "p_ID q \<noteq> k"
  shows "mget (pg_states (stage_policy lib now g q)) k = mget (pg_states g) k"
  using assms by (auto simp: stage_policy_def stage_state_def Let_def case_prod_unfold gm.lookup_update split: option.splits)

lemma stage_fold_staged:
  assumes "stage_ok h0 g" "distinct (map p_ID ps)" "spec \<in> set ps"
  shows "staged (foldl (stage_policy lib now) g ps) spec (expected_state lib now (pg_heap g) (pg_states g) spec)"
  using assms
proof (induction ps arbitrary: g)
  case (Cons q ps)
  let ?g = "stage_policy lib now g q"
  have states: "\<forall>(k, a) \<in> set (pg_states g). a < length (pg_heap g)" using Cons.prems(1) by (simp add: stage_ok_def)
  show ?case
  proof (cases "spec = q")
    case True
    with staged_fold_mono [OF stage_policy_staged [OF states, of lib now spec]] show ?thesis by simp
  next
    case False
    with Cons.prems have sp: "spec \<in> set ps" "p_ID q \<noteq> p_ID spec" by (auto simp: image_iff)
    have "same_but_rolling (expected_state lib now (pg_heap ?g) (pg_states ?g) spec)
        (expected_state lib now (pg_heap g) (pg_states g) spec)"
    proof (cases "mget (pg_states g) (p_ID spec)")
      case None
      with stage_policy_mget [OF sp(2)] show ?thesis by (simp add: expected_state_def Let_def)
    next
      case (Some b)
      from mget_set [OF Some] states have "b < length (pg_heap g)" by auto
      from same_usage_nth [OF stage_policy_usage this] have "same_but_rolling (pg_heap ?g ! b) (pg_heap g ! b)" .
      with Some stage_policy_mget [OF sp(2), of lib now g] same_but_rolling_fields [OF this] show ?thesis
        by (simp add: expected_state_def Let_def)
    qed
    moreover have "staged (foldl (stage_policy lib now) ?g ps) spec (expected_state lib now (pg_heap ?g) (pg_states ?g) spec)"
      using Cons.prems sp by (intro Cons.IH stage_policy_ok) auto
    ultimately show ?thesis by (auto intro: staged_weaken)
  qed
qed simp

lemma touch_nth:
  "a < length h \<Longrightarrow> touch now as h ! a = (if a \<in> set as then (h ! a)\<lparr>ps_LastSeen := now\<rparr> else h ! a)"
proof (induction as arbitrary: h)
  case (Cons b as)
  from Cons.IH [of "hmap b (\<lambda>s. s\<lparr>ps_LastSeen := now\<rparr>) h"] Cons.prems show ?case
    by (simp add: touch_def hmap_nth)
qed (simp add: touch_def)

lemma prepare_staged:
  assumes inv: "active_inv m" and pr: "prepareConfiguration env (Some c) now m = (h, Inr stage)" and en: "c_Enabled c"
    and src: "stage_source env c m = Inr (h0, states, reports, store, cp, reuse)"
    and spec: "distinct (map p_ID (c_Policies c))" "spec \<in> set (c_Policies c)"
  obtains p where "p \<in> set (rn_policies (sg_runtime stage))" "pol_spec p = spec" "pol_state p \<in> set (sg_touched stage)"
    "pol_state p < length h" "same_but_rolling (h ! pol_state p) (expected_state (env_lib env) (Unix now) h0 states spec)"
proof -
  let ?g = "\<lparr>pg_heap = h0, pg_states = states, pg_policies = [], pg_touched = []\<rparr>"
  let ?f = "foldl (stage_policy (env_lib env) (Unix now)) ?g (c_Policies c)"
  have "staged ?f spec (expected_state (env_lib env) (Unix now) h0 states spec)"
    using stage_fold_staged [OF stage_source_ok [OF inv src] spec] by simp
  moreover have "h = pg_heap ?f" "rn_policies (sg_runtime stage) = pg_policies ?f" "sg_touched stage = pg_touched ?f"
    using pr en src by (auto simp: prepareConfiguration_def Let_def split: sum.splits)
  ultimately show thesis using that by (auto simp: staged_def)
qed

text \<open>
  C21. A change of the configuration keeps the usage of the policies that stay. After it has
  succeeded, every policy of the new configuration runs on the state filed under its name, with all
  counters, buckets and the over-quota flag, if that state has the policy's identity; if the identity
  differs it starts empty with the next generation, and a policy without a state starts empty with
  the first. Only the cached sum is recomputed and the date of last sight is set.
\<close>

theorem configure_keeps_usage:
  assumes inv: "tc_reachable env m" and cf: "configure env (Some c) now m = (m', None)" and en: "c_Enabled c"
    and src: "stage_source env c m = Inr (h0, states, reports, store, cp, reuse)"
    and spec: "distinct (map p_ID (c_Policies c))" "spec \<in> set (c_Policies c)"
  shows "list_ex (\<lambda>p. pol_spec p = spec \<and> same_but_rolling (m_heap m' ! pol_state p)
     ((expected_state (env_lib env) (Unix now) h0 states spec)\<lparr>ps_LastSeen := Unix now\<rparr>)) (rn_policies (m_runtime m'))"
  using cf
proof (cases rule: configure_cases)
  case (commit h stage m2)
  obtain p where p: "p \<in> set (rn_policies (sg_runtime stage))" "pol_spec p = spec" "pol_state p \<in> set (sg_touched stage)"
    "pol_state p < length h" "same_but_rolling (h ! pol_state p) (expected_state (env_lib env) (Unix now) h0 states spec)"
    using prepare_staged [OF reachable_inv [OF inv] commit(1) en src spec] .
  from flush_frame_flushLocked [OF commit(2)] have "m_heap m2 = h" by (simp add: flush_frame_def stopFlusher_def)
  with commit(4) have m': "m_heap m' = touch (Unix now) (sg_touched stage) h"
    "rn_policies (m_runtime m') = rn_policies (sg_runtime stage)"
    by (auto simp: commit_stage_def Let_def startFlusher_def split: option.splits)
  obtain r where "h ! pol_state p = (expected_state (env_lib env) (Unix now) h0 states spec)\<lparr>ps_rolling := r\<rparr>"
    using p(5) by (auto simp: same_but_rolling_def)
  with p m' show ?thesis
    by (auto simp: list_ex_iff touch_nth same_but_rolling_def intro!: bexI [of _ p])
qed simp_all

theorem configure_keeps_usage_witness:
  "list_ex (\<lambda>p. pol_spec p = demo_policy \<and> same_but_rolling (m_heap demo_manager ! pol_state p)
     ((new_state ''global'' (policyIdentity sample_lib demo_policy) 1 0)\<lparr>ps_LastSeen := 0\<rparr>))
     (rn_policies (m_runtime demo_manager))"
proof -
  have src: "stage_source demo_env demo_config NewManager = Inr ([], [], [], sample_store, 0, False)"
    by (simp add: stage_source_def demo_env_def NewManager_def Load_def sample_store_def)
  have "p_ID demo_policy = ''global''" by (simp add: demo_policy_def)
  with configure_keeps_usage [OF reachable_new demo_manager_facts(6) _ src, of demo_policy]
  show ?thesis by (simp add: demo_config_def expected_state_def Let_def Unix_def demo_env_def)
qed

subsection \<open>Flushing\<close>

lemma Save_committed:
  assumes "Save lib states reports cp s = (s', e)" "e = None \<or> e = Some ErrStoreLimit"
  shows "\<exists>db. st_db s' = saved_db lib states reports cp db"
  using assms by (auto simp: Save_def Let_def split: if_splits)

text \<open>The database holds the states and reports of the manager.\<close>

definition saved :: "tc_env \<Rightarrow> int \<Rightarrow> Manager \<Rightarrow> bool" where
  "saved env cp m \<longleftrightarrow> (\<exists>s db. m_store m = Some s
     \<and> st_db s = saved_db (env_store env) (deref_states (m_heap m) (m_states m)) (m_reports m) cp db)"

definition compact_ok :: "tc_env \<Rightarrow> bool" where
  "compact_ok env \<longleftrightarrow> (\<forall>s s'. env_compact env s = Inr s' \<longrightarrow> st_db s' = st_db s)"

lemma save_manager_saved:
  assumes "save_manager env cp s m = (m', e)" "e = None \<or> e = Some ErrStoreLimit"
  shows "saved env cp m'"
proof -
  obtain s' where "Save (env_store env) (deref_states (m_heap m) (m_states m)) (m_reports m) cp s = (s', e)"
    "m' = m\<lparr>m_store := Some s'\<rparr>" using assms(1) by (auto simp: save_manager_def Let_def split: prod.splits)
  with Save_committed [OF this(1) assms(2)] show ?thesis by (auto simp: saved_def)
qed

lemma trim_saved:
  assumes "compact_ok env"
  shows "trimReportsToStoreLimitLocked env cp m = (m', None) \<Longrightarrow> saved env cp m' \<and> m_dirty m' = m_dirty m"
proof (induction "length (m_reports m)" arbitrary: m rule: less_induct)
  case less
  show ?case
    using less.prems
  proof (cases rule: trim_cases)
    case (4 rs st k f s)
    from save_manager_saved [OF 4(3,4)] obtain s' db where "m_store k = Some s'"
      "st_db s' = saved_db (env_store env) (deref_states (m_heap k) (m_states k)) (m_reports k) cp db"
      by (auto simp: saved_def)
    moreover have "m_heap k = m_heap m" "m_states k = m_states m" "m_reports k = rs"
      using 4(3) by (auto simp: save_manager_def Let_def split: prod.splits)
    moreover have "st_db s = st_db (the (m_store k))" using 4(5) assms by (simp add: compact_ok_def)
    ultimately show ?thesis using 4(6) by (auto simp: saved_def)
  next
    case (5 rs s)
    from less.hyps [OF _ 5(3)] dropOldest_shorter [OF 5(1)] show ?thesis by simp
  qed auto
qed

lemma flush_saved:
  assumes comp: "compact_ok env" and fl: "flushLocked env now m = (m', None)"
    and s: "m_store m = Some s" "m_dirty m"
  shows "saved env (Unix now) m' \<and> \<not> m_dirty m' \<and> m_lastCheckpoint m' = Unix now"
  using fl s
proof (cases rule: flush_cases)
  case (1 m2 e2 m3)
  have d: "\<not> m_dirty m2" using 1(1) by (auto simp: save_manager_def rollupAndPruneLocked_def Let_def split: prod.splits option.splits)
  have "saved env (Unix now) m3 \<and> \<not> m_dirty m3"
  proof (cases "e2 = Some ErrStoreLimit")
    case True
    with 1(2) trim_saved [OF comp, of "Unix now" m2 m3] d show ?thesis by simp
  next
    case False
    with 1(2) have "e2 = None" "m3 = m2" by auto
    with save_manager_saved [OF 1(1)] d show ?thesis by simp
  qed
  with 1(4) show ?thesis by (simp add: saved_def)
qed


definition demo_dirty :: Manager where
  "demo_dirty = NewManager\<lparr>m_heap := [sample_state], m_states := [(''phone'', 0)],
     m_reports := [(''global:global'', sample_series)], m_store := Some sample_store, m_dirty := True\<rparr>"

lemma demo_flush:
  "flushLocked demo_env 0 demo_dirty = (demo_dirty\<lparr>m_dirty := False, m_lastCheckpoint := 0, m_store :=
     Some (fst (Save sample_store_lib [(''phone'', sample_state)] [(''global:global'', sample_series)] 0 sample_store))\<rparr>, None)"
proof -
  have "snd (Save sample_store_lib [(''phone'', sample_state)] [(''global:global'', sample_series)] 0 sample_store) = None"
    by (simp add: Save_def sample_store_lib_def sample_store_def Let_def)
  then show ?thesis
    by (simp add: flushLocked_def demo_dirty_def NewManager_def rollupAndPruneLocked_def save_manager_def
        deref_states_def demo_env_def Unix_def Let_def case_prod_unfold)
qed


subsection \<open>Idle policies\<close>

text \<open>
  C40. Flushing forgets idle policies of the running configuration. When no session is bound to a
  configured policy and its state was last seen before the orphan retention, a flush removes the state
  from the states that are saved although the policy still runs on it: what it records from then on is
  not saved, and the next change of the configuration finds no state and starts the policy, with its
  quota, from zero.
\<close>

theorem idle_policy_forgotten:
  assumes fl: "flushLocked env now m = (m', e)" and s: "m_store m = Some s" "m_dirty m"
    and c: "rn_config (m_runtime m) = Some c" and p: "p \<in> set (rn_policies (m_runtime m))"
    and filed: "mkeys_ok (m_states m)" "mget (m_states m) (p_ID (pol_spec p)) = Some (pol_state p)"
    and idle: "orphan (Unix now - r_OrphanRetention (c_Reports c) sdiv Second) (m_heap m ! pol_state p)"
  shows "p \<in> set (rn_policies (m_runtime m')) \<and> m_heap m' ! pol_state p = m_heap m ! pol_state p
    \<and> mget (m_states m') (p_ID (pol_spec p)) = None"
  using fl s
proof (cases rule: flush_cases)
  case (1 m2 e2 m3)
  let ?m1 = "rollupAndPruneLocked now (m\<lparr>m_dirty := False\<rparr>)"
  have "m_heap ?m1 = m_heap m" "m_runtime ?m1 = m_runtime m"
    "m_states ?m1 = cleanup_states (r_OrphanRetention (c_Reports c)) (Unix now) (m_heap m) (m_states m)"
    using c by (simp_all add: rollupAndPruneLocked_def)
  moreover have "m_heap m' = m_heap m3" "m_runtime m' = m_runtime m3" "m_states m' = m_states m3" using 1(4) by simp_all
  ultimately have m': "m_heap m' = m_heap m" "m_runtime m' = m_runtime m"
    "set (m_states m') \<subseteq> set (cleanup_states (r_OrphanRetention (c_Reports c)) (Unix now) (m_heap m) (m_states m))"
    using 1(3) by (simp_all add: flush_frame_def)
  have "a = pol_state p" if "(p_ID (pol_spec p), a) \<in> set (m_states m)" for a
    using that filed by (metis eq_key_imp_eq_value map_of_SomeD)
  with m'(3) idle have "p_ID (pol_spec p) \<notin> fst ` set (m_states m')"
    by (auto simp: cleanup_states_def Let_def)
  then have "mget (m_states m') (p_ID (pol_spec p)) = None" by (simp add: map_of_eq_None_iff)
  with m' p show ?thesis by simp
qed

definition demo_idle :: Manager where
  "demo_idle = demo_dirty\<lparr>m_heap := [sample_state\<lparr>ps_ID := ''global'', ps_LastSeen := 1\<rparr>], m_states := [(''global'', 0)],
     m_runtime := \<lparr>rn_id = 1, rn_config = Some demo_config, rn_policies = [demo_runtime_policy], rn_generation = 1\<rparr>\<rparr>"

theorem idle_policy_forgotten_witness:
  "let m = fst (flushLocked demo_env (400 * 86400 * Second) demo_idle) in
     rn_policies (m_runtime m) = rn_policies (m_runtime demo_idle) \<and> mget (m_states m) ''global'' = None"
proof -
  let ?r = "flushLocked demo_env (400 * 86400 * Second) demo_idle"
  have eq: "?r = (fst ?r, snd ?r)" by simp
  have idle: "orphan (Unix (400 * 86400 * Second) - r_OrphanRetention (c_Reports demo_config) sdiv Second)
      (m_heap demo_idle ! pol_state demo_runtime_policy)"
    by (simp add: orphan_def demo_idle_def sample_state_def Unix_def demo_config_def) code_simp
  have "rn_policies (m_runtime (fst ?r)) = rn_policies (m_runtime demo_idle)"
    using flush_frame_flushLocked [OF eq] by (simp add: flush_frame_def)
  moreover have "mget (m_states (fst ?r)) ''global'' = None"
    using idle_policy_forgotten [OF eq, of sample_store demo_config demo_runtime_policy] idle
    by (simp add: demo_idle_def demo_dirty_def demo_policy_def)
  ultimately show ?thesis by (simp only: Let_def simp_thms)
qed

end
