(* ===== verification/Utils_UUID.thy ===== *)
theory Utils_UUID
  imports Go_Bytes
begin

section \<open>UUIDs of names\<close>

text \<open>
  \<^verbatim>\<open>UUIDMap\<close> and \<^verbatim>\<open>NewUUIDV5\<close> of \<^verbatim>\<open>common/utils/uuid.go\<close>: a text that is a UUID stands for itself and
  every other text for a hash. A UUID is a string of sixteen bytes. Parsing a UUID, setting the
  version and the variant bits and printing are functions of the UUID library and SHA-1 is one of the
  standard library; they are fields of \<open>uuid_lib\<close>.
\<close>

record uuid_lib =
  ul_FromString :: "string \<Rightarrow> string option"
  ul_Sha1 :: "string \<Rightarrow> string"
  ul_SetVersion :: "nat \<Rightarrow> string \<Rightarrow> string"
  ul_SetVariant :: "string \<Rightarrow> string"
  ul_String :: "string \<Rightarrow> string"

definition uuid_Nil :: string where
  "uuid_Nil = replicate 16 (byte 0)"

text \<open>Go's \<^verbatim>\<open>copy(dst, src)\<close> overwrites a prefix of the destination.\<close>

definition go_copy :: "string \<Rightarrow> string \<Rightarrow> string" where
  "go_copy dst src = take (length dst) src @ drop (length src) dst"

lemma length_go_copy [simp]: "length (go_copy dst src) = length dst"
  by (simp add: go_copy_def)

definition NewUUIDV5 :: "uuid_lib \<Rightarrow> string \<Rightarrow> string \<Rightarrow> string" where
  "NewUUIDV5 lib ns nam = ul_SetVariant lib (ul_SetVersion lib 5 (go_copy uuid_Nil (ul_Sha1 lib (ns @ nam))))"

definition UUIDMap :: "uuid_lib \<Rightarrow> string \<Rightarrow> string" where
  "UUIDMap lib str = (case ul_FromString lib str of None \<Rightarrow> NewUUIDV5 lib uuid_Nil str | Some u \<Rightarrow> u)"

definition demo_uuid_lib :: uuid_lib where
  "demo_uuid_lib = \<lparr>ul_FromString = (\<lambda>s. if length s = 16 then Some s else None), ul_Sha1 = (\<lambda>s. take 20 (s @ replicate 20 (byte 0))),
     ul_SetVersion = (\<lambda>v u. u[6 := byte (16 * v)]), ul_SetVariant = (\<lambda>u. u[8 := byte 128]), ul_String = (\<lambda>u. u)\<rparr>"

end
