(* ===== verification/Aster_Store.thy ===== *)
theory Aster_Store
  imports Utils_UUID
begin

section \<open>Aster: the store\<close>

text \<open>
  \<^verbatim>\<open>component/aster/store.go\<close>, and the validation of a store from \<^verbatim>\<open>manager.go\<close>: the users of the managed
  listeners, kept in a file and a backup. Each file is replaced atomically by a rename; which of the two is
  written first depends on where the committed store was read from. Locking the file, preparing its
  directory and checking permissions are outcomes the environment decides. Cloning a store is the
  identity on values.
\<close>

subsection \<open>Data\<close>

record aster_user =
  u_ID :: string
  u_Inbound :: string
  u_Protocol :: string
  u_Name :: string
  u_UUID :: string
  u_Password :: string
  u_Flow :: string
  u_Enabled :: bool
  u_UploadBytes :: int64
  u_DownloadBytes :: int64
  u_TrafficGeneration :: "64 word"
  u_CreatedAt :: int64
  u_UpdatedAt :: int64

record ListenerState =
  ls_ID :: string
  ls_Name :: string
  ls_Protocol :: string
  ls_Users :: "aster_user list"
  ls_Revision :: int64
  ls_AppliedRevision :: int64

record aster_store =
  as_Version :: int
  as_Generation :: "64 word"
  as_Listeners :: "(string, ListenerState) gomap"
  as_Subscriptions :: "(string, string) gomap"

datatype aster_err =
    ErrDisabled
  | ErrNotFound
  | ErrConflict
  | ErrInvalid
  | UnsupportedVersion
  | NotExist
  | StoreIO
  | StoreTooLarge
  | DecodeStore
  | LoadFailed "aster_err option" "aster_err option"

text \<open>
  The libraries: lower case of Unicode, the UUID library, unpadded URL-safe base64 and
  the JSON codec. A JSON document with a \<^verbatim>\<open>null\<close> listener or user, which the code decodes and then
  refuses to validate, counts as one that cannot be decoded.
\<close>

record aster_lib =
  li_lower :: "string \<Rightarrow> string"
  li_uuid :: uuid_lib
  li_DecodeString :: "string \<Rightarrow> string option"
  li_EncodeToString :: "string \<Rightarrow> string"
  li_Marshal :: "aster_store \<Rightarrow> string"
  li_Unmarshal :: "string \<Rightarrow> aster_store option"

definition aster_storeVersion :: int where "aster_storeVersion = 1"
definition aster_maxStoreSize :: nat where "aster_maxStoreSize = 16777216"

definition newStore :: aster_store where
  "newStore = \<lparr>as_Version = aster_storeVersion, as_Generation = 0, as_Listeners = [], as_Subscriptions = []\<rparr>"

subsection \<open>Validation\<close>

definition validSubscriptionToken :: "aster_lib \<Rightarrow> string \<Rightarrow> bool" where
  "validSubscriptionToken lib token \<longleftrightarrow>
     (case li_DecodeString lib token of None \<Rightarrow> False
      | Some decoded \<Rightarrow> length decoded = 32 \<and> li_EncodeToString lib decoded = token)"

definition userCredentialKey :: "aster_lib \<Rightarrow> aster_user \<Rightarrow> aster_err + string" where
  "userCredentialKey lib user =
     (if u_Protocol user = ''vless'' then
        if u_UUID user = [] \<or> u_Password user \<noteq> [] then Inl ErrInvalid
        else if u_Flow user \<noteq> [] \<and> u_Flow user \<noteq> ''xtls-rprx-vision'' then Inl ErrInvalid
        else Inr (ul_String (li_uuid lib) (UUIDMap (li_uuid lib) (u_UUID user)))
      else if u_Protocol user = ''anytls'' then
        if u_Password user = [] \<or> u_UUID user \<noteq> [] \<or> u_Flow user \<noteq> [] then Inl ErrInvalid
        else Inr (u_Password user)
      else Inl ErrInvalid)"

text \<open>What the loops of \<^verbatim>\<open>validateStore\<close> carry along: all user IDs and tokens, and the names and credentials of the listener.\<close>

record valid_acc =
  va_userIDs :: "string list"
  va_tokens :: "string list"
  va_names :: "string list"
  va_credentials :: "string list"

definition user_shape_ok :: "ListenerState \<Rightarrow> string \<Rightarrow> aster_user \<Rightarrow> bool" where
  "user_shape_ok state inbound user \<longleftrightarrow>
     u_ID user \<noteq> [] \<and> u_Inbound user = inbound \<and> u_Protocol user = ls_Protocol state
   \<and> TrimSpace (u_Name user) \<noteq> [] \<and> TrimSpace (u_Name user) = u_Name user \<and> length (u_Name user) \<le> 256"

definition user_meta_ok :: "aster_user \<Rightarrow> bool" where
  "user_meta_ok user \<longleftrightarrow> u_TrafficGeneration user \<noteq> 0 \<and> 0 \<le> sint (u_UploadBytes user) \<and> 0 \<le> sint (u_DownloadBytes user)
   \<and> 0 < sint (u_CreatedAt user) \<and> sint (u_CreatedAt user) \<le> sint (u_UpdatedAt user)"

definition validate_user :: "aster_lib \<Rightarrow> aster_store \<Rightarrow> string \<Rightarrow> ListenerState \<Rightarrow> valid_acc \<Rightarrow> aster_user \<Rightarrow> aster_err + valid_acc" where
  "validate_user lib store inbound state acc user =
     (if \<not> user_shape_ok state inbound user then Inl ErrInvalid
      else if u_ID user \<in> set (va_userIDs acc) then Inl ErrInvalid
      else if li_lower lib (u_Name user) \<in> set (va_names acc) then Inl ErrInvalid
      else bindR (userCredentialKey lib user) (\<lambda>credential.
        if credential \<in> set (va_credentials acc) then Inl ErrInvalid
        else if \<not> user_meta_ok user then Inl ErrInvalid
        else let token = (case mget (as_Subscriptions store) (u_ID user) of Some t \<Rightarrow> t | None \<Rightarrow> []) in
          if \<not> validSubscriptionToken lib token then Inl ErrInvalid
          else if token \<in> set (va_tokens acc) then Inl ErrInvalid
          else Inr \<lparr>va_userIDs = u_ID user # va_userIDs acc, va_tokens = token # va_tokens acc,
                    va_names = li_lower lib (u_Name user) # va_names acc, va_credentials = credential # va_credentials acc\<rparr>))"

definition listener_shape_ok :: "string \<Rightarrow> ListenerState \<Rightarrow> bool" where
  "listener_shape_ok inbound state \<longleftrightarrow> ls_ID state \<noteq> [] \<and> ls_Name state = inbound \<and> ls_Protocol state \<noteq> []
   \<and> 0 < sint (ls_Revision state) \<and> 0 \<le> sint (ls_AppliedRevision state)
   \<and> sint (ls_AppliedRevision state) \<le> sint (ls_Revision state)"

definition validate_listener :: "aster_lib \<Rightarrow> aster_store \<Rightarrow> valid_acc \<Rightarrow> string \<times> ListenerState \<Rightarrow> aster_err + valid_acc" where
  "validate_listener lib store acc entry =
     (let (inbound, state) = entry in
      if \<not> listener_shape_ok inbound state then Inl ErrInvalid
      else foldR (validate_user lib store inbound state) (acc\<lparr>va_names := [], va_credentials := []\<rparr>) (ls_Users state))"

definition validateStore :: "aster_lib \<Rightarrow> aster_store \<Rightarrow> aster_err + unit" where
  "validateStore lib store =
     (if as_Version store \<noteq> aster_storeVersion then Inl ErrInvalid
      else if as_Generation store = - 1 then Inl ErrInvalid
      else bindR (foldR (validate_listener lib store)
             \<lparr>va_userIDs = [], va_tokens = [], va_names = [], va_credentials = []\<rparr> (as_Listeners store)) (\<lambda>acc.
        if list_all (\<lambda>(userID, _). userID \<in> set (va_userIDs acc)) (as_Subscriptions store) then Inr () else Inl ErrInvalid))"

subsection \<open>What validation means\<close>

definition all_users :: "aster_store \<Rightarrow> aster_user list" where
  "all_users store = concat (map (\<lambda>(_, state). ls_Users state) (as_Listeners store))"

definition token_of :: "aster_store \<Rightarrow> aster_user \<Rightarrow> string" where
  "token_of store user = (case mget (as_Subscriptions store) (u_ID user) of Some t \<Rightarrow> t | None \<Rightarrow> [])"

definition credential_of :: "aster_lib \<Rightarrow> aster_user \<Rightarrow> string option" where
  "credential_of lib user = (case userCredentialKey lib user of Inl _ \<Rightarrow> None | Inr c \<Rightarrow> Some c)"

definition user_ok :: "aster_lib \<Rightarrow> aster_store \<Rightarrow> string \<Rightarrow> ListenerState \<Rightarrow> aster_user \<Rightarrow> bool" where
  "user_ok lib store inbound state user \<longleftrightarrow> user_shape_ok state inbound user \<and> credential_of lib user \<noteq> None
     \<and> user_meta_ok user \<and> validSubscriptionToken lib (token_of store user)"

definition listener_ok :: "aster_lib \<Rightarrow> aster_store \<Rightarrow> string \<Rightarrow> ListenerState \<Rightarrow> bool" where
  "listener_ok lib store inbound state \<longleftrightarrow> listener_shape_ok inbound state
     \<and> (\<forall>user \<in> set (ls_Users state). user_ok lib store inbound state user)
     \<and> distinct (map (\<lambda>u. li_lower lib (u_Name u)) (ls_Users state))
     \<and> distinct (map (credential_of lib) (ls_Users state))"

definition store_ok :: "aster_lib \<Rightarrow> aster_store \<Rightarrow> bool" where
  "store_ok lib store \<longleftrightarrow> as_Version store = aster_storeVersion \<and> as_Generation store \<noteq> - 1
     \<and> (\<forall>(inbound, state) \<in> set (as_Listeners store). listener_ok lib store inbound state)
     \<and> distinct (map u_ID (all_users store)) \<and> distinct (map (token_of store) (all_users store))
     \<and> (\<forall>(userID, _) \<in> set (as_Subscriptions store). userID \<in> u_ID ` set (all_users store))"

lemma credential_of_Some: "credential_of lib user = Some c \<longleftrightarrow> userCredentialKey lib user = Inr c"
  by (auto simp: credential_of_def split: sum.splits)

lemma validate_user_iff:
  "validate_user lib store inbound state acc user = Inr acc' \<longleftrightarrow>
     user_ok lib store inbound state user \<and> u_ID user \<notin> set (va_userIDs acc)
   \<and> li_lower lib (u_Name user) \<notin> set (va_names acc) \<and> token_of store user \<notin> set (va_tokens acc)
   \<and> the (credential_of lib user) \<notin> set (va_credentials acc)
   \<and> acc' = \<lparr>va_userIDs = u_ID user # va_userIDs acc, va_tokens = token_of store user # va_tokens acc,
       va_names = li_lower lib (u_Name user) # va_names acc, va_credentials = the (credential_of lib user) # va_credentials acc\<rparr>"
  by (auto simp: validate_user_def user_ok_def token_of_def [symmetric] bindR_eq_Inr credential_of_def Let_def
      split: sum.splits)

definition fresh :: "('a \<Rightarrow> 'b) \<Rightarrow> 'a list \<Rightarrow> 'b list \<Rightarrow> bool" where
  "fresh f xs seen \<longleftrightarrow> distinct (map f xs) \<and> (\<forall>x \<in> set xs. f x \<notin> set seen)"

lemma fresh_simps: "fresh f [] seen" "fresh f (x # xs) seen \<longleftrightarrow> f x \<notin> set seen \<and> fresh f xs (f x # seen)"
  by (auto simp: fresh_def image_iff eq_commute)

lemma fresh_append: "fresh f (xs @ ys) seen \<longleftrightarrow> fresh f xs seen \<and> fresh f ys (rev (map f xs) @ seen)"
  by (induction xs arbitrary: seen) (simp_all add: fresh_simps)

lemma validate_users_iff:
  "foldR (validate_user lib store inbound state) acc users = Inr acc' \<longleftrightarrow>
     list_all (user_ok lib store inbound state) users
   \<and> fresh u_ID users (va_userIDs acc) \<and> fresh (\<lambda>u. li_lower lib (u_Name u)) users (va_names acc)
   \<and> fresh (token_of store) users (va_tokens acc) \<and> fresh (\<lambda>u. the (credential_of lib u)) users (va_credentials acc)
   \<and> acc' = \<lparr>va_userIDs = rev (map u_ID users) @ va_userIDs acc, va_tokens = rev (map (token_of store) users) @ va_tokens acc,
       va_names = rev (map (\<lambda>u. li_lower lib (u_Name u)) users) @ va_names acc,
       va_credentials = rev (map (\<lambda>u. the (credential_of lib u)) users) @ va_credentials acc\<rparr>"
proof (induction users arbitrary: acc)
  case (Cons user users)
  show ?case by (simp add: bindR_eq_Inr validate_user_iff Cons fresh_simps) (rule iffI; elim conjE; intro conjI; assumption)
qed (auto simp: fresh_simps)

lemma validate_listener_iff:
  "validate_listener lib store acc (inbound, state) = Inr acc' \<longleftrightarrow>
     listener_ok lib store inbound state \<and> fresh u_ID (ls_Users state) (va_userIDs acc)
   \<and> fresh (token_of store) (ls_Users state) (va_tokens acc)
   \<and> acc' = \<lparr>va_userIDs = rev (map u_ID (ls_Users state)) @ va_userIDs acc,
       va_tokens = rev (map (token_of store) (ls_Users state)) @ va_tokens acc,
       va_names = rev (map (\<lambda>u. li_lower lib (u_Name u)) (ls_Users state)),
       va_credentials = rev (map (\<lambda>u. the (credential_of lib u)) (ls_Users state))\<rparr>"
proof -
  have "distinct (map (credential_of lib) us) \<longleftrightarrow> distinct (map (\<lambda>u. the (credential_of lib u)) us)"
    if "list_all (user_ok lib store inbound state) us" for us
    using that by (auto simp: user_ok_def list_all_iff distinct_map inj_on_def option.the_def split: option.splits)
  then show ?thesis
    by (auto simp: validate_listener_def validate_users_iff listener_ok_def fresh_def list_all_iff)
qed

lemma validate_listeners_iff:
  "(\<exists>acc'. foldR (validate_listener lib store) acc ls = Inr acc' \<and> P (va_userIDs acc')) \<longleftrightarrow>
     list_all (\<lambda>(inbound, state). listener_ok lib store inbound state) ls
   \<and> fresh u_ID (concat (map (\<lambda>(_, state). ls_Users state) ls)) (va_userIDs acc)
   \<and> fresh (token_of store) (concat (map (\<lambda>(_, state). ls_Users state) ls)) (va_tokens acc)
   \<and> P (rev (map u_ID (concat (map (\<lambda>(_, state). ls_Users state) ls))) @ va_userIDs acc)"
proof (induction ls arbitrary: acc)
  case (Cons l ls)
  obtain inbound state where l: "l = (inbound, state)" by (cases l)
  show ?case
    by (simp add: l bindR_eq_Inr validate_listener_iff fresh_append Cons) (rule iffI; elim conjE; intro conjI; assumption)
qed (simp add: fresh_simps)

lemma validateStore_iff: "validateStore lib store = Inr () \<longleftrightarrow> store_ok lib store"
proof -
  have "validateStore lib store = Inr () \<longleftrightarrow> as_Version store = aster_storeVersion \<and> as_Generation store \<noteq> - 1 \<and>
      (\<exists>acc. foldR (validate_listener lib store) \<lparr>va_userIDs = [], va_tokens = [], va_names = [], va_credentials = []\<rparr> (as_Listeners store) = Inr acc
        \<and> list_all (\<lambda>(userID, _). userID \<in> set (va_userIDs acc)) (as_Subscriptions store))"
    by (auto simp: validateStore_def bindR_eq_Inr)
  also have "\<dots> \<longleftrightarrow> store_ok lib store"
    by (simp only: validate_listeners_iff [of _ _ _ _ "\<lambda>ids. list_all (\<lambda>(userID, _). userID \<in> set ids) (as_Subscriptions store)"])
       (auto simp: store_ok_def fresh_def all_users_def list_all_iff)
  finally show ?thesis .
qed

subsection \<open>Reading\<close>

text \<open>
  A file: absent, present but refused or unreadable (no regular file, insecure permissions, an I/O
  error), or with contents.
\<close>

datatype store_file = Missing | Unreadable | Contents string

definition readStore :: "aster_lib \<Rightarrow> store_file \<Rightarrow> aster_err + aster_store" where
  "readStore lib file =
     (case file of
        Missing \<Rightarrow> Inl NotExist
      | Unreadable \<Rightarrow> Inl StoreIO
      | Contents data \<Rightarrow>
          if length data > aster_maxStoreSize then Inl StoreTooLarge
          else (case li_Unmarshal lib data of
                  None \<Rightarrow> Inl DecodeStore
                | Some store \<Rightarrow> if as_Version store \<noteq> aster_storeVersion then Inl UnsupportedVersion else Inr store))"

definition readValidatedStore :: "aster_lib \<Rightarrow> store_file \<Rightarrow> aster_err + aster_store" where
  "readValidatedStore lib file = bindR (readStore lib file) (\<lambda>store. bindR (validateStore lib store) (\<lambda>_. Inr store))"

text \<open>The file, its backup and the temporary file that belongs to each.\<close>

record store_slot =
  sl_file :: store_file
  sl_tmp :: store_file

record store_disk =
  dk_primary :: store_slot
  dk_backup :: store_slot

definition err_of :: "'e + 'a \<Rightarrow> 'e option" where
  "err_of r = (case r of Inl e \<Rightarrow> Some e | Inr _ \<Rightarrow> None)"

definition loadStore :: "aster_lib \<Rightarrow> store_disk \<Rightarrow> aster_err + aster_store \<times> bool" where
  "loadStore lib disk =
     (let primary = readValidatedStore lib (sl_file (dk_primary disk)); backup = readValidatedStore lib (sl_file (dk_backup disk));
          failed = Inl (LoadFailed (err_of primary) (err_of backup)) in
      if primary = Inl UnsupportedVersion \<or> backup = Inl UnsupportedVersion then failed
      else (case (primary, backup) of
        (Inr p, Inr b) \<Rightarrow> if as_Generation b > as_Generation p then Inr (b, True) else Inr (p, False)
      | (Inr p, Inl _) \<Rightarrow> Inr (p, False)
      | (Inl _, Inr b) \<Rightarrow> Inr (b, True)
      | (Inl e, Inl e') \<Rightarrow> if e = NotExist \<and> e' = NotExist then Inr (newStore, False) else failed))"

subsection \<open>Writing\<close>

text \<open>
  The calls of \<^verbatim>\<open>writeStoreFile\<close> that may fail; what a failed write leaves in the temporary file is some
  prefix of the data. The model yields every state of the slot on the way, the last one being the
  result, so that a crash at any point can be considered.
\<close>

datatype write_call = RemoveTmp | CreateTmp | SecureTmp | WriteTmp | SyncTmp | CloseTmp | ReplaceFile | Cleanup

record write_env =
  we_fails :: "write_call \<Rightarrow> bool"
  we_partial :: nat

definition give_up :: "write_env \<Rightarrow> store_slot list \<Rightarrow> store_slot list \<times> bool" where
  "give_up env trace = (if we_fails env Cleanup then trace else trace @ [(last trace)\<lparr>sl_tmp := Missing\<rparr>], False)"

definition writeStoreFile :: "write_env \<Rightarrow> string \<Rightarrow> store_slot \<Rightarrow> store_slot list \<times> bool" where
  "writeStoreFile env data slot =
     (let removed = slot\<lparr>sl_tmp := Missing\<rparr>;
          created = slot\<lparr>sl_tmp := Contents []\<rparr>;
          partly = slot\<lparr>sl_tmp := Contents (take (we_partial env) data)\<rparr>;
          written = slot\<lparr>sl_tmp := Contents data\<rparr> in
      if we_fails env RemoveTmp then give_up env [slot]
      else if we_fails env CreateTmp then give_up env [slot, removed]
      else if we_fails env SecureTmp then give_up env [slot, removed, created]
      else if we_fails env WriteTmp then give_up env [slot, removed, created, partly]
      else if we_fails env SyncTmp \<or> we_fails env CloseTmp \<or> we_fails env ReplaceFile
        then give_up env [slot, removed, created, partly, written]
      else ([slot, removed, created, partly, written, \<lparr>sl_file = Contents data, sl_tmp = Missing\<rparr>], True))"

record save_env =
  se_prepared :: bool
  se_locked :: bool
  se_first :: write_env
  se_second :: write_env

text \<open>The two files in the order in which they are written: the one that is not the committed store comes first.\<close>

definition put_first :: "bool \<Rightarrow> store_slot \<Rightarrow> store_disk \<Rightarrow> store_disk" where
  "put_first recovered slot d = (if recovered then d\<lparr>dk_primary := slot\<rparr> else d\<lparr>dk_backup := slot\<rparr>)"

definition put_second :: "bool \<Rightarrow> store_slot \<Rightarrow> store_disk \<Rightarrow> store_disk" where
  "put_second recovered slot d = (if recovered then d\<lparr>dk_backup := slot\<rparr> else d\<lparr>dk_primary := slot\<rparr>)"

text \<open>The states of the disk on the way, and the store with its new generation or the error.\<close>

definition write_both :: "save_env \<Rightarrow> bool \<Rightarrow> string \<Rightarrow> store_disk \<Rightarrow> store_disk list \<times> bool" where
  "write_both env recovered data disk =
     (let (trace1, ok) = writeStoreFile (se_first env) data (if recovered then dk_primary disk else dk_backup disk);
          disks1 = map (\<lambda>slot. put_first recovered slot disk) trace1 in
      if \<not> ok then (disks1, False)
      else let (trace2, _) = writeStoreFile (se_second env) data (if recovered then dk_backup disk else dk_primary disk)
           in (disks1 @ map (\<lambda>slot. put_second recovered slot (last disks1)) trace2, True))"

definition candidate_of :: "aster_store \<Rightarrow> aster_store" where
  "candidate_of store = store\<lparr>as_Generation := as_Generation store + 1\<rparr>"

definition store_bytes :: "aster_lib \<Rightarrow> aster_store \<Rightarrow> string" where
  "store_bytes lib store = li_Marshal lib store @ [byte 10]"

definition saveStoreLocked :: "aster_lib \<Rightarrow> save_env \<Rightarrow> store_disk \<Rightarrow> aster_store \<Rightarrow> store_disk list \<times> (aster_err + aster_store)" where
  "saveStoreLocked lib env disk store =
     (case loadStore lib disk of
        Inl e \<Rightarrow> ([disk], Inl e)
      | Inr (committed, recovered) \<Rightarrow>
          if as_Generation committed \<noteq> as_Generation store then ([disk], Inl ErrConflict)
          else if as_Generation store = - 1 then ([disk], Inl ErrConflict)
          else (case validateStore lib (candidate_of store) of
             Inl e \<Rightarrow> ([disk], Inl e)
           | Inr _ \<Rightarrow>
               if length (store_bytes lib (candidate_of store)) > aster_maxStoreSize then ([disk], Inl StoreTooLarge)
               else let (disks, ok) = write_both env recovered (store_bytes lib (candidate_of store)) disk
                    in (disks, if ok then Inr (candidate_of store) else Inl StoreIO)))"

definition saveStore :: "aster_lib \<Rightarrow> save_env \<Rightarrow> store_disk \<Rightarrow> aster_store \<Rightarrow> store_disk list \<times> (aster_err + aster_store)" where
  "saveStore lib env disk store =
     (if \<not> se_prepared env then ([disk], Inl StoreIO)
      else if \<not> se_locked env then ([disk], Inl StoreIO)
      else saveStoreLocked lib env disk store)"

subsection \<open>Crash safety\<close>

lemma writeStoreFile_states:
  assumes "writeStoreFile env data slot = (trace, ok)"
  shows "trace \<noteq> []" "\<forall>s \<in> set trace. sl_file s = sl_file slot \<or> ok \<and> sl_file s = Contents data"
    "sl_file (last trace) = (if ok then Contents data else sl_file slot)"
  using assms by (auto simp: writeStoreFile_def give_up_def Let_def split: if_splits)

lemma readValidated_written:
  assumes "store_ok lib store" "length (store_bytes lib store) \<le> aster_maxStoreSize"
    "li_Unmarshal lib (store_bytes lib store) = Some store"
  shows "readValidatedStore lib (Contents (store_bytes lib store)) = Inr store"
  using assms validateStore_iff [of lib store] by (simp add: readValidatedStore_def readStore_def store_ok_def)

lemma load_after_both:
  assumes "readValidatedStore lib (sl_file (dk_primary d)) = Inr store" "readValidatedStore lib (sl_file (dk_backup d)) = Inr store"
  shows "loadStore lib d = Inr (store, False)"
  using assms by (simp add: loadStore_def)

lemma load_files:
  "sl_file (dk_primary d) = sl_file (dk_primary d') \<Longrightarrow> sl_file (dk_backup d) = sl_file (dk_backup d') \<Longrightarrow> loadStore lib d = loadStore lib d'"
  by (simp add: loadStore_def)

lemma load_put_old:
  assumes "sl_file s = sl_file (if recovered then dk_primary disk else dk_backup disk)"
  shows "loadStore lib (put_first recovered s disk) = loadStore lib disk"
  using assms by (intro load_files) (auto simp: put_first_def)

lemma load_put_first:
  assumes "loadStore lib disk = Inr (committed, recovered)" "as_Generation committed < as_Generation store"
    "readValidatedStore lib (sl_file s) = Inr store"
  shows "\<exists>r. loadStore lib (put_first recovered s disk) = Inr (store, r)"
  using assms by (auto simp: loadStore_def Let_def put_first_def split: sum.splits if_splits)

lemma load_put_second:
  assumes load: "loadStore lib disk = Inr (committed, recovered)" "as_Generation committed < as_Generation store"
    and new: "readValidatedStore lib (sl_file s1) = Inr store"
    and s2: "sl_file s2 = sl_file (if recovered then dk_backup disk else dk_primary disk) \<or> sl_file s2 = sl_file s1"
  shows "\<exists>r. loadStore lib (put_second recovered s2 (put_first recovered s1 disk)) = Inr (store, r)"
proof (cases "sl_file s2 = sl_file s1")
  case True
  with new have "loadStore lib (put_second recovered s2 (put_first recovered s1 disk)) = Inr (store, False)"
    by (intro load_after_both) (auto simp: put_first_def put_second_def)
  then show ?thesis ..
next
  case False
  with s2 have "loadStore lib (put_second recovered s2 (put_first recovered s1 disk)) = loadStore lib (put_first recovered s1 disk)"
    by (intro load_files) (auto simp: put_first_def put_second_def)
  with load_put_first [OF load new] show ?thesis by simp
qed

lemma write_both_split:
  assumes "write_both env recovered data disk = (disks, ok)"
  obtains t1 t2 where "t1 \<noteq> []" "t2 \<noteq> []"
    "\<forall>s \<in> set t1. sl_file s = sl_file (if recovered then dk_primary disk else dk_backup disk) \<or> ok \<and> sl_file s = Contents data"
    "sl_file (last t1) = (if ok then Contents data else sl_file (if recovered then dk_primary disk else dk_backup disk))"
    "\<forall>s \<in> set t2. sl_file s = sl_file (if recovered then dk_backup disk else dk_primary disk) \<or> sl_file s = Contents data"
    "disks = map (\<lambda>s. put_first recovered s disk) t1
       @ (if ok then map (\<lambda>s. put_second recovered s (put_first recovered (last t1) disk)) t2 else [])"
proof -
  obtain t1 ok1 where w1: "writeStoreFile (se_first env) data (if recovered then dk_primary disk else dk_backup disk) = (t1, ok1)" by fastforce
  obtain t2 ok2 where w2: "writeStoreFile (se_second env) data (if recovered then dk_backup disk else dk_primary disk) = (t2, ok2)" by fastforce
  note s1 = writeStoreFile_states [OF w1] and s2 = writeStoreFile_states [OF w2]
  have "ok = ok1" "disks = map (\<lambda>s. put_first recovered s disk) t1
       @ (if ok then map (\<lambda>s. put_second recovered s (put_first recovered (last t1) disk)) t2 else [])"
    using assms w1 w2 s1(1) by (auto simp: write_both_def Let_def last_map split: if_splits)
  then show ?thesis using s1 s2(1,2) by (intro that [of t1 t2]) blast+
qed

lemma write_both_loads:
  assumes load: "loadStore lib disk = Inr (committed, recovered)"
    and gen: "as_Generation committed < as_Generation store"
    and new: "readValidatedStore lib (Contents data) = Inr store"
    and w: "write_both env recovered data disk = (disks, ok)"
  shows "disks \<noteq> []" "\<forall>d \<in> set disks. loadStore lib d = Inr (committed, recovered) \<or> ok \<and> (\<exists>r. loadStore lib d = Inr (store, r))"
    "if ok then \<exists>r. loadStore lib (last disks) = Inr (store, r) else loadStore lib (last disks) = Inr (committed, recovered)"
proof -
  obtain t1 t2 where t: "t1 \<noteq> []" "t2 \<noteq> []"
    and t1: "\<forall>s \<in> set t1. sl_file s = sl_file (if recovered then dk_primary disk else dk_backup disk) \<or> ok \<and> sl_file s = Contents data"
    and last1: "sl_file (last t1) = (if ok then Contents data else sl_file (if recovered then dk_primary disk else dk_backup disk))"
    and t2: "\<forall>s \<in> set t2. sl_file s = sl_file (if recovered then dk_backup disk else dk_primary disk) \<or> sl_file s = Contents data"
    and disks: "disks = map (\<lambda>s. put_first recovered s disk) t1
       @ (if ok then map (\<lambda>s. put_second recovered s (put_first recovered (last t1) disk)) t2 else [])"
    by (rule write_both_split [OF w])
  let ?P = "\<lambda>d. loadStore lib d = Inr (committed, recovered) \<or> ok \<and> (\<exists>r. loadStore lib d = Inr (store, r))"
  have first: "?P (put_first recovered s disk)" if "s \<in> set t1" for s
    using t1 that load_put_old [of s recovered disk lib] load_put_first [OF load gen, of s] load new by metis
  have second: "\<exists>r. loadStore lib (put_second recovered s (put_first recovered (last t1) disk)) = Inr (store, r)"
    if ok "s \<in> set t2" for s
    using t2 that last1 new by (intro load_put_second [OF load gen]) auto
  show "disks \<noteq> []" using t by (simp add: disks)
  show "\<forall>d \<in> set disks. ?P d" using first second by (auto simp: disks split: if_splits)
  show "if ok then \<exists>r. loadStore lib (last disks) = Inr (store, r) else loadStore lib (last disks) = Inr (committed, recovered)"
  proof (cases ok)
    case True
    with second [of "last t2"] t show ?thesis by (simp add: disks last_map)
  next
    case False
    with load_put_old [of "last t1"] last1 t load show ?thesis by (simp add: disks last_map)
  qed
qed

subsection \<open>Properties\<close>

text \<open>
  C12. \<^verbatim>\<open>validateStore\<close> accepts exactly the well-formed stores: every listener and every user has valid
  fields, user IDs and subscription tokens are unique over the whole store, names (up to case) and
  credentials are unique within their listener, every user has a token of 32 bytes and no token belongs to
  somebody who does not exist.
\<close>

theorem validateStore_exact: "validateStore lib store = Inr () \<longleftrightarrow> store_ok lib store"
  by (rule validateStore_iff)

lemma saveStoreLocked_safe:
  assumes load: "loadStore lib disk = Inr (committed, recovered)"
    and codec: "li_Unmarshal lib (store_bytes lib (candidate_of store)) = Some (candidate_of store)"
    and save: "saveStoreLocked lib env disk store = (disks, result)"
  shows "(\<forall>d \<in> set disks. \<exists>r. loadStore lib d = Inr (committed, r) \<or> loadStore lib d = Inr (candidate_of store, r))
    \<and> (case result of
         Inl _ \<Rightarrow> loadStore lib (last disks) = Inr (committed, recovered)
       | Inr store' \<Rightarrow> store' = candidate_of store \<and> store_ok lib store' \<and> (\<exists>r. loadStore lib (last disks) = Inr (store', r))
           \<and> unat (as_Generation store') = unat (as_Generation committed) + 1)
    \<and> (as_Generation store \<noteq> as_Generation committed \<longrightarrow> disks = [disk])"
proof (cases "\<exists>e. disks = [disk] \<and> result = Inl e")
  case True
  with load show ?thesis by auto
next
  case False
  then obtain ok where ok: "store_ok lib (candidate_of store)" "length (store_bytes lib (candidate_of store)) \<le> aster_maxStoreSize"
      "as_Generation committed = as_Generation store" "as_Generation store \<noteq> - 1"
      "write_both env recovered (store_bytes lib (candidate_of store)) disk = (disks, ok)"
      "result = (if ok then Inr (candidate_of store) else Inl StoreIO)"
    using save load validateStore_iff [of lib "candidate_of store"]
    by (auto simp: saveStoreLocked_def split: if_splits sum.splits prod.splits)
  have gen: "unat (as_Generation (candidate_of store)) = unat (as_Generation committed) + 1"
    using ok(3,4) by (simp add: candidate_of_def unatSuc add.commute) (metis add.commute unatSuc add_eq_0_iff Suc_eq_plus1)
  then have lt: "as_Generation committed < as_Generation (candidate_of store)" by (simp add: word_less_nat_alt)
  note w = write_both_loads [OF load lt readValidated_written [OF ok(1,2) codec] ok(5)]
  show ?thesis using w(2,3) ok(1,3,6) gen by (auto split: if_splits)
qed

text \<open>
  C5. Saving the store is safe against crashes and against other writers. Whichever call of
  \<^verbatim>\<open>saveStore\<close> fails and wherever the process dies in between, what is on disk loads, as either the
  store committed before or the whole new one. When it reports success the new store is what loads and
  its generation is the next one; when it reports an error the old one is still there. A store that was
  not derived from the committed generation is never written.
\<close>

theorem save_crash_safe:
  assumes load: "loadStore lib disk = Inr (committed, recovered)"
    and codec: "li_Unmarshal lib (store_bytes lib (candidate_of store)) = Some (candidate_of store)"
    and save: "saveStore lib env disk store = (disks, result)"
  shows "(\<forall>d \<in> set disks. \<exists>r. loadStore lib d = Inr (committed, r) \<or> loadStore lib d = Inr (candidate_of store, r))
    \<and> (case result of
         Inl _ \<Rightarrow> loadStore lib (last disks) = Inr (committed, recovered)
       | Inr store' \<Rightarrow> store' = candidate_of store \<and> (\<exists>r. loadStore lib (last disks) = Inr (store', r))
           \<and> unat (as_Generation store') = unat (as_Generation committed) + 1)
    \<and> (as_Generation store \<noteq> as_Generation committed \<longrightarrow> disks = [disk])"
proof (cases "se_prepared env \<and> se_locked env")
  case True
  with save have "saveStoreLocked lib env disk store = (disks, result)" by (simp add: saveStore_def)
  from saveStoreLocked_safe [OF load codec this] show ?thesis by (auto split: sum.splits)
next
  case False
  with save load show ?thesis by (auto simp: saveStore_def split: if_splits)
qed

definition demo_store_lib :: aster_lib where
  "demo_store_lib = \<lparr>li_lower = id, li_uuid = demo_uuid_lib, li_DecodeString = Some, li_EncodeToString = id,
     li_Marshal = (\<lambda>s. [byte (unat (as_Generation s))]),
     li_Unmarshal = (\<lambda>d. if length d = 2 then Some (newStore\<lparr>as_Generation := word_of_nat (of_char (hd d))\<rparr>) else None)\<rparr>"

definition no_failure :: write_env where
  "no_failure = \<lparr>we_fails = (\<lambda>_. False), we_partial = 1\<rparr>"

definition demo_save :: save_env where
  "demo_save = \<lparr>se_prepared = True, se_locked = True, se_first = no_failure,
     se_second = \<lparr>we_fails = (\<lambda>c. c = SyncTmp), we_partial = 0\<rparr>\<rparr>"

definition empty_disk :: store_disk where
  "empty_disk = \<lparr>dk_primary = \<lparr>sl_file = Missing, sl_tmp = Missing\<rparr>, dk_backup = \<lparr>sl_file = Missing, sl_tmp = Missing\<rparr>\<rparr>"

lemma demo_save_result: "snd (saveStore demo_store_lib demo_save empty_disk newStore) = Inr (candidate_of newStore)"
  by (simp add: saveStore_def saveStoreLocked_def demo_save_def demo_store_lib_def empty_disk_def loadStore_def readValidatedStore_def
      readStore_def newStore_def candidate_of_def validateStore_def aster_storeVersion_def store_bytes_def aster_maxStoreSize_def
      write_both_def writeStoreFile_def no_failure_def give_up_def)

theorem save_crash_safe_witness:
  "let (disks, result) = saveStore demo_store_lib demo_save empty_disk newStore in
     (\<forall>d \<in> set disks. \<exists>r. loadStore demo_store_lib d = Inr (newStore, r) \<or> loadStore demo_store_lib d = Inr (candidate_of newStore, r))
   \<and> (\<exists>r. loadStore demo_store_lib (last disks) = Inr (candidate_of newStore, r))"
proof -
  obtain disks result where s: "saveStore demo_store_lib demo_save empty_disk newStore = (disks, result)" by fastforce
  have l: "loadStore demo_store_lib empty_disk = Inr (newStore, False)"
    by (simp add: loadStore_def empty_disk_def readValidatedStore_def readStore_def)
  have "li_Unmarshal demo_store_lib (store_bytes demo_store_lib (candidate_of newStore)) = Some (candidate_of newStore)"
    by (simp add: demo_store_lib_def store_bytes_def candidate_of_def newStore_def)
  from save_crash_safe [OF l this s] demo_save_result s show ?thesis by auto
qed

end
