(* ===== verification/Vless_Wire.thy ===== *)
theory Vless_Wire
  imports Utils_UUID
begin

section \<open>VLESS: the wire format\<close>

text \<open>
  \<^verbatim>\<open>transport/vless\<close> and the reading side of \<^verbatim>\<open>listener/sing_vless/service.go\<close>: addons, the request
  header, the response header and the framing of packets, for the client and for the server. Streams
  are lists of bytes; reading returns what is left. The protobuf decoder of the server, the address
  serializer of the sing library and the UUID library are fields of \<open>vless_lib\<close>.
\<close>

subsection \<open>Variable-length numbers\<close>

function appendUvarint :: "string \<Rightarrow> nat \<Rightarrow> string" where
  "appendUvarint dst x = (if x \<ge> 128 then appendUvarint (dst @ [byte (x mod 128 + 128)]) (x div 128) else dst @ [byte x])"
  by pat_completeness auto
termination by (relation "measure snd") auto

declare appendUvarint.simps [simp del]

datatype vless_err =
    ShortRead
  | VarintOverflow
  | MakesliceLen
  | UnknownTag nat
  | AddonsTooLong
  | UnexpectedResponseVersion
  | PacketTooLarge nat
  | ShortBuffer
  | UnknownVersion nat
  | AddonsUnmarshal
  | AddressError
  | UnknownUUID string
  | FlowMismatch string string
  | UnknownFlow string
  | CredentialsChanged
  | DuplicateUUID string
  | ListsDiffer
  | NetClosed
  | VisionError

text \<open>\<^verbatim>\<open>binary.ReadUvarint\<close>: at most ten bytes, and the tenth contributes one bit.\<close>

fun read_uvarint :: "nat \<Rightarrow> nat \<Rightarrow> string \<Rightarrow> vless_err + nat \<times> string" where
  "read_uvarint i x [] = Inl ShortRead"
| "read_uvarint i x (c # s) =
     (let b = of_char c :: nat in
      if i \<ge> 10 then Inl VarintOverflow
      else if b < 128 then (if i = 9 \<and> b > 1 then Inl VarintOverflow else Inr (x + b * 2 ^ (7 * i), s))
      else read_uvarint (Suc i) (x + (b mod 128) * 2 ^ (7 * i)) s)"

definition ReadUvarint :: "string \<Rightarrow> vless_err + nat \<times> string" where
  "ReadUvarint s = read_uvarint 0 0 s"

lemma appendUvarint_prefix: "appendUvarint dst x = dst @ appendUvarint [] x"
proof (induction x arbitrary: dst rule: less_induct)
  case (less x)
  show ?case
  proof (cases "x \<ge> 128")
    case True
    then have "x div 128 < x" by simp
    from less [OF this, of "dst @ [byte (x mod 128 + 128)]"] less [OF this, of "[byte (x mod 128 + 128)]"] True
    show ?thesis by (subst (1 2) appendUvarint.simps) simp
  qed (simp add: appendUvarint.simps)
qed

lemma uvarint_step: "x \<ge> 128 \<Longrightarrow> appendUvarint [] x = byte (x mod 128 + 128) # appendUvarint [] (x div 128)"
  by (subst appendUvarint.simps, subst appendUvarint_prefix) simp

lemma uvarint_last: "x < 128 \<Longrightarrow> appendUvarint [] x = [byte x]"
  by (simp add: appendUvarint.simps)

lemma read_uvarint_append:
  "x * 2 ^ (7 * i) < 2 ^ 64 \<Longrightarrow> 0 < x \<or> i < 9 \<Longrightarrow> i \<le> 9
    \<Longrightarrow> read_uvarint i acc (appendUvarint [] x @ s) = Inr (acc + x * 2 ^ (7 * i), s)"
proof (induction x arbitrary: i acc rule: less_induct)
  case (less x)
  show ?case
  proof (cases "x \<ge> 128")
    case False
    have "x \<le> 1" if "i = 9"
      using less.prems(1) that by simp
    with False less.prems show ?thesis by (auto simp: uvarint_last)
  next
    case True
    let ?y = "x div 128"
    have i: "i < 9" using less.prems(1) True
    proof (rule_tac ccontr)
      assume "\<not> i < 9"
      with less.prems have "i = 9" by simp
      with less.prems(1) True show False by simp
    qed
    have x: "x = ?y * 128 + x mod 128" by simp
    have pow: "(2::nat) ^ (7 * Suc i) = 128 * 2 ^ (7 * i)" by (simp add: power_add)
    have "?y * 2 ^ (7 * Suc i) \<le> x * 2 ^ (7 * i)" unfolding pow using x by (simp add: mult.assoc [symmetric])
    with less.prems(1) have "?y * 2 ^ (7 * Suc i) < 2 ^ 64" by linarith
    moreover have "0 < ?y" using True by simp
    ultimately have ih: "read_uvarint (Suc i) (acc + (x mod 128) * 2 ^ (7 * i)) (appendUvarint [] ?y @ s)
        = Inr (acc + (x mod 128) * 2 ^ (7 * i) + ?y * 2 ^ (7 * Suc i), s)"
      using less.IH [of ?y "Suc i"] True i by simp
    have "acc + (x mod 128) * 2 ^ (7 * i) + ?y * 2 ^ (7 * Suc i) = acc + x * 2 ^ (7 * i)"
      unfolding pow by (subst (3) x) (simp only: distrib_right mult.assoc add.assoc add.commute add.left_commute)
    with ih True i show ?thesis by (simp add: uvarint_step Let_def)
  qed
qed

lemma ReadUvarint_append: "x < 2 ^ 64 \<Longrightarrow> ReadUvarint (appendUvarint [] x @ s) = Inr (x, s)"
  using read_uvarint_append [of x 0 0 s] by (simp add: ReadUvarint_def)

lemma ReadUvarint_shorter: "ReadUvarint s = Inr (x, r) \<Longrightarrow> length r < length s"
proof -
  have "read_uvarint i a s = Inr (x, r) \<Longrightarrow> length r < length s" for i a
    by (induction i a s rule: read_uvarint.induct) (auto simp: Let_def split: if_splits)
  then show "ReadUvarint s = Inr (x, r) \<Longrightarrow> length r < length s" by (simp add: ReadUvarint_def)
qed

subsection \<open>Addons\<close>

record Addons =
  ad_Flow :: string
  ad_Seed :: string

definition appendField :: "nat \<Rightarrow> string \<Rightarrow> string \<Rightarrow> string" where
  "appendField number bytes dst =
     (if length bytes > 0 then appendUvarint (appendUvarint dst (number * 8 + 2)) (length bytes) @ bytes else dst)"

definition appendAddons :: "string \<Rightarrow> Addons option \<Rightarrow> string" where
  "appendAddons dst addons =
     (case addons of None \<Rightarrow> dst | Some a \<Rightarrow> appendField 2 (ad_Seed a) (appendField 1 (ad_Flow a) dst))"

definition WriteAddons :: "Addons option \<Rightarrow> string" where
  "WriteAddons addons = appendAddons [] addons"

text \<open>
  One field of the message. A length-delimited field is read into a slice of the announced length,
  and allocating it panics above the largest size the runtime supports, which is \<open>maxAlloc\<close>.
\<close>

definition read_field :: "nat \<Rightarrow> Addons \<Rightarrow> string \<Rightarrow> vless_err + Addons \<times> string" where
  "read_field maxAlloc addons s =
     bindR (ReadUvarint s) (\<lambda>(tag, s).
       let number = tag div 8 mod 4294967296; typ = tag mod 8;
           skip = (\<lambda>n. case ReadFull n s of None \<Rightarrow> Inl ShortRead | Some (_, s) \<Rightarrow> Inr (addons, s)) in
       if typ = 0 then bindR (ReadUvarint s) (\<lambda>(_, s). Inr (addons, s))
       else if typ = 5 then skip 4
       else if typ = 1 then skip 8
       else if typ = 2 then
         bindR (ReadUvarint s) (\<lambda>(bytesLen, s).
           if bytesLen > maxAlloc then Inl MakesliceLen
           else (case ReadFull bytesLen s of
               None \<Rightarrow> Inl ShortRead
             | Some (bytesData, s) \<Rightarrow>
                 Inr (if number = 1 then addons\<lparr>ad_Flow := bytesData\<rparr>
                      else if number = 2 then addons\<lparr>ad_Seed := bytesData\<rparr> else addons, s)))
       else Inl (UnknownTag tag))"

lemma ReadFull_length: "ReadFull n s = Some (a, b) \<Longrightarrow> length b \<le> length s"
  by (auto simp: ReadFull_def split: if_splits)

lemma read_field_shorter:
  assumes "read_field maxAlloc addons s = Inr (a, r)"
  shows "length r < length s"
proof -
  obtain tag s1 where t: "ReadUvarint s = Inr (tag, s1)" using assms by (auto simp: read_field_def bindR_eq_Inr)
  from ReadUvarint_shorter [OF this] assms t show ?thesis
    by (auto simp: read_field_def Let_def bindR_eq_Inr split: if_splits option.splits
        dest!: ReadUvarint_shorter ReadFull_length)
qed

function read_addons :: "nat \<Rightarrow> Addons \<Rightarrow> string \<Rightarrow> vless_err + Addons" where
  "read_addons maxAlloc addons s =
     (if s = [] then Inr addons
      else (case read_field maxAlloc addons s of Inl e \<Rightarrow> Inl e | Inr (addons, s) \<Rightarrow> read_addons maxAlloc addons s))"
  by pat_completeness auto
termination
  by (relation "measure (\<lambda>(m, a, s). length s)") (auto dest: read_field_shorter)

declare read_addons.simps [simp del]

definition ReadAddons :: "nat \<Rightarrow> string \<Rightarrow> vless_err + Addons" where
  "ReadAddons maxAlloc data = read_addons maxAlloc \<lparr>ad_Flow = [], ad_Seed = []\<rparr> data"

lemma appendField_append:
  "appendField n b dst = dst @ appendField n b []"
  by (simp add: appendField_def appendUvarint_prefix [of dst] appendUvarint_prefix [of "dst @ s" for s])
     (metis append.assoc appendUvarint_prefix)

lemma read_field_append:
  assumes "n = 1 \<or> n = 2" "length b \<noteq> 0" "length b \<le> maxAlloc" "length b < 2 ^ 64"
  shows "read_field maxAlloc a (appendField n b [] @ s)
    = Inr (if n = 1 then a\<lparr>ad_Flow := b\<rparr> else a\<lparr>ad_Seed := b\<rparr>, s)"
proof -
  have eq: "appendField n b [] @ s = appendUvarint [] (n * 8 + 2) @ appendUvarint [] (length b) @ b @ s"
    using assms(2) by (simp add: appendField_def) (metis append.assoc appendUvarint_prefix)
  have "ReadUvarint (appendField n b [] @ s) = Inr (n * 8 + 2, appendUvarint [] (length b) @ b @ s)"
    unfolding eq by (rule ReadUvarint_append) (use assms(1) in auto)
  moreover have "(n * 8 + 2) mod 8 = 2" "(n * 8 + 2) div 8 mod 4294967296 = n" using assms(1) by auto
  ultimately show ?thesis
    using assms by (auto simp: read_field_def ReadUvarint_append ReadFull_append)
qed

lemma read_addons_field:
  assumes "n = 1 \<or> n = 2" "length b \<le> maxAlloc" "length b < 2 ^ 64"
  shows "read_addons maxAlloc a (appendField n b [] @ s)
    = read_addons maxAlloc (if b = [] then a else if n = 1 then a\<lparr>ad_Flow := b\<rparr> else a\<lparr>ad_Seed := b\<rparr>) s"
proof (cases "b = []")
  case True
  then show ?thesis by (simp add: appendField_def)
next
  case False
  then have ne: "appendField n b [] \<noteq> []" by (simp add: appendField_def)
  from read_field_append [OF assms(1) _ assms(2,3), of a s] False ne show ?thesis
    by (subst read_addons.simps) simp
qed

lemma ReadAddons_WriteAddons:
  assumes "length (ad_Flow a) \<le> maxAlloc" "length (ad_Seed a) \<le> maxAlloc"
    "length (ad_Flow a) < 2 ^ 64" "length (ad_Seed a) < 2 ^ 64"
  shows "ReadAddons maxAlloc (WriteAddons (Some a)) = Inr a"
proof -
  have w: "WriteAddons (Some a) = appendField 1 (ad_Flow a) [] @ appendField 2 (ad_Seed a) [] @ []"
    using appendField_append [of 2 "ad_Seed a" "appendField 1 (ad_Flow a) []"]
    by (simp add: WriteAddons_def appendAddons_def)
  show ?thesis
    unfolding w ReadAddons_def
      read_addons_field [of 1, OF disjI1 [OF refl] assms(1,3)] read_addons_field [of 2, OF disjI2 [OF refl] assms(2,4)]
    by (simp add: read_addons.simps)
qed

subsection \<open>The client\<close>

definition Version :: nat where "Version = 0"
definition CommandTCP :: nat where "CommandTCP = 1"
definition CommandUDP :: nat where "CommandUDP = 2"
definition CommandMux :: nat where "CommandMux = 3"
definition XRV :: string where "XRV = ''xtls-rprx-vision''"

record DstAddr =
  da_UDP :: bool
  da_AddrType :: nat
  da_Addr :: string
  da_Port :: nat
  da_Mux :: bool

text \<open>The bytes written to the connection below are collected in \<open>vc_out\<close>.\<close>

record Conn =
  vc_dst :: DstAddr
  vc_id :: string
  vc_addons :: "Addons option"
  vc_received :: bool
  vc_sent :: bool
  vc_out :: string

definition request_bytes :: "Conn \<Rightarrow> string \<Rightarrow> string \<Rightarrow> string" where
  "request_bytes vc addonsBytes p =
     [byte Version] @ vc_id vc @ [byte (length addonsBytes)] @ addonsBytes
     @ (if da_Mux (vc_dst vc) then [byte CommandMux]
        else [byte (if da_UDP (vc_dst vc) then CommandUDP else CommandTCP)]
          @ PutUint16 (da_Port (vc_dst vc)) @ [byte (da_AddrType (vc_dst vc))] @ da_Addr (vc_dst vc))
     @ p"

definition sendRequest :: "string \<Rightarrow> Conn \<Rightarrow> vless_err + Conn" where
  "sendRequest p vc =
     (let addonsBytes = appendAddons [] (vc_addons vc) in
      if length addonsBytes > 255 then Inl AddonsTooLong
      else Inr (vc\<lparr>vc_out := vc_out vc @ request_bytes vc addonsBytes p\<rparr>))"

definition Conn_Write :: "string \<Rightarrow> Conn \<Rightarrow> vless_err + Conn" where
  "Conn_Write p vc =
     (if \<not> vc_sent vc then bindR (sendRequest p vc) (\<lambda>vc. Inr (vc\<lparr>vc_sent := True\<rparr>))
      else Inr (vc\<lparr>vc_out := vc_out vc @ p\<rparr>))"

definition recvResponse :: "string \<Rightarrow> vless_err + string" where
  "recvResponse s =
     (case ReadFull 2 s of
        None \<Rightarrow> Inl ShortRead
      | Some (buffer, s) \<Rightarrow>
          if of_char (buffer ! 0) \<noteq> Version then Inl UnexpectedResponseVersion
          else let len = of_char (buffer ! 1) in
            if len \<noteq> 0 then (case ReadFull len s of None \<Rightarrow> Inl ShortRead | Some (_, s) \<Rightarrow> Inr s) else Inr s)"

text \<open>Reading hands out what follows the response header; \<open>s\<close> is what the connection below delivers.\<close>

definition Conn_Read :: "string \<Rightarrow> Conn \<Rightarrow> vless_err + string \<times> Conn" where
  "Conn_Read s vc =
     (if \<not> vc_received vc then bindR (recvResponse s) (\<lambda>s. Inr (s, vc\<lparr>vc_received := True\<rparr>)) else Inr (s, vc))"

subsection \<open>The server\<close>

text \<open>
  The head of a request. The protobuf library decodes the addons, of which the server uses the flow,
  and the address serializer of the sing library reads the destination.
\<close>

record vless_lib =
  vl_Flow :: "string \<Rightarrow> string option"
  vl_ReadAddrPort :: "string \<Rightarrow> (DstAddr \<times> string) option"
  vl_uuid :: uuid_lib
  vl_vision :: "nat \<Rightarrow> bool"

record vless_request =
  vr_uuid :: string
  vr_flow :: string
  vr_command :: nat
  vr_destination :: "DstAddr option"

definition ReadByte :: "string \<Rightarrow> vless_err + nat \<times> string" where
  "ReadByte s = (case s of [] \<Rightarrow> Inl ShortRead | c # s \<Rightarrow> Inr (of_char c, s))"

definition ReadBytes :: "nat \<Rightarrow> string \<Rightarrow> vless_err + string \<times> string" where
  "ReadBytes n s = (case ReadFull n s of None \<Rightarrow> Inl ShortRead | Some r \<Rightarrow> Inr r)"

definition read_request :: "vless_lib \<Rightarrow> string \<Rightarrow> vless_err + vless_request \<times> string" where
  "read_request lib s =
     bindR (ReadByte s) (\<lambda>(version, s).
     if version \<noteq> Version then Inl (UnknownVersion version)
     else bindR (ReadBytes 16 s) (\<lambda>(uuid, s).
     bindR (ReadByte s) (\<lambda>(addonsLen, s).
     bindR (if addonsLen > 0
            then bindR (ReadBytes addonsLen s) (\<lambda>(b, s).
              case vl_Flow lib b of None \<Rightarrow> Inl AddonsUnmarshal | Some flow \<Rightarrow> Inr (flow, s))
            else Inr ([], s)) (\<lambda>(flow, s).
     bindR (ReadByte s) (\<lambda>(command, s).
     if command \<noteq> CommandMux
     then (case vl_ReadAddrPort lib s of
         None \<Rightarrow> Inl AddressError
       | Some (d, s) \<Rightarrow> Inr (\<lparr>vr_uuid = uuid, vr_flow = flow, vr_command = command, vr_destination = Some d\<rparr>, s))
     else Inr (\<lparr>vr_uuid = uuid, vr_flow = flow, vr_command = command, vr_destination = None\<rparr>, s))))))"

record serverConn =
  sc_responseWritten :: bool
  sc_out :: string

definition serverConn_Write :: "string \<Rightarrow> serverConn \<Rightarrow> serverConn" where
  "serverConn_Write b c =
     (if \<not> sc_responseWritten c
      then c\<lparr>sc_out := sc_out c @ [byte Version, byte 0] @ b, sc_responseWritten := True\<rparr>
      else c\<lparr>sc_out := sc_out c @ b\<rparr>)"

subsection \<open>Packets\<close>

definition WriteTo :: "string \<Rightarrow> string \<Rightarrow> vless_err + string" where
  "WriteTo b out = (if length b > 65535 then Inl (PacketTooLarge (length b)) else Inr (out @ PutUint16 (length b) @ b))"

definition readPacketLength :: "string \<Rightarrow> vless_err + nat \<times> string" where
  "readPacketLength s = bindR (ReadBytes 2 s) (\<lambda>(header, s). Inr (Uint16 header, s))"

text \<open>Reading into a buffer of \<open>cap\<close> bytes: a packet that does not fit is skipped as a whole.\<close>

definition ReadFrom :: "nat \<Rightarrow> string \<Rightarrow> vless_err + string option \<times> string" where
  "ReadFrom cap s =
     bindR (readPacketLength s) (\<lambda>(len, s).
       if cap < len then bindR (ReadBytes len s) (\<lambda>(_, s). Inr (None, s))
       else bindR (ReadBytes len s) (\<lambda>(b, s). Inr (Some b, s)))"

definition WaitReadFrom :: "string \<Rightarrow> vless_err + string \<times> string" where
  "WaitReadFrom s = bindR (readPacketLength s) (\<lambda>(len, s). ReadBytes len s)"

subsection \<open>Properties\<close>

lemma ReadBytes_append: "length a = n \<Longrightarrow> ReadBytes n (a @ b) = Inr (a, b)"
  by (simp add: ReadBytes_def ReadFull_append)

lemma ReadByte_Cons: "ReadByte (byte n # s) = Inr (n mod 256, s)"
  by (simp add: ReadByte_def)

lemma Conn_Write_sent: "vc_sent vc \<Longrightarrow> foldR (\<lambda>vc p. Conn_Write p vc) vc ps = Inr (vc\<lparr>vc_out := vc_out vc @ concat ps\<rparr>)"
  by (induction ps arbitrary: vc) (simp_all add: Conn_Write_def)

lemma serverConn_Write_sent:
  "sc_responseWritten c \<Longrightarrow> sc_out (foldl (\<lambda>c b. serverConn_Write b c) c bs) = sc_out c @ concat bs"
  by (induction bs arbitrary: c) (simp_all add: serverConn_Write_def)

text \<open>What the client writes is what the address serializer reads.\<close>

definition address_ok :: "vless_lib \<Rightarrow> DstAddr \<Rightarrow> bool" where
  "address_ok lib d \<longleftrightarrow> (\<forall>s. vl_ReadAddrPort lib (PutUint16 (da_Port d) @ [byte (da_AddrType d)] @ da_Addr d @ s) = Some (d, s))"

definition addons_flow :: "Addons option \<Rightarrow> string" where
  "addons_flow a = (case a of None \<Rightarrow> [] | Some a \<Rightarrow> ad_Flow a)"

lemma read_request_bytes:
  assumes id: "length (vc_id vc) = 16" and fit: "length ab \<le> 255"
    and flow: "ab \<noteq> [] \<Longrightarrow> vl_Flow lib ab = Some flow" "ab = [] \<Longrightarrow> flow = []"
    and addr: "\<not> da_Mux (vc_dst vc) \<Longrightarrow> address_ok lib (vc_dst vc)"
  shows "read_request lib (request_bytes vc ab p) = Inr (\<lparr>vr_uuid = vc_id vc, vr_flow = flow,
    vr_command = (if da_Mux (vc_dst vc) then CommandMux else if da_UDP (vc_dst vc) then CommandUDP else CommandTCP),
    vr_destination = (if da_Mux (vc_dst vc) then None else Some (vc_dst vc))\<rparr>, p)"
proof -
  have "length ab mod 256 = length ab" using fit by simp
  moreover have "CommandMux mod 256 = CommandMux" "CommandTCP mod 256 = CommandTCP" "CommandUDP mod 256 = CommandUDP"
    "Version mod 256 = Version" "CommandTCP \<noteq> CommandMux" "CommandUDP \<noteq> CommandMux"
    by (simp_all add: CommandMux_def CommandTCP_def CommandUDP_def Version_def)
  ultimately show ?thesis
    using flow addr id
    by (cases "ab = []") (simp_all add: read_request_def request_bytes_def ReadByte_Cons ReadBytes_append address_ok_def)
qed

lemma client_out:
  assumes "\<not> vc_sent vc" "vc_out vc = []" "length (WriteAddons (vc_addons vc)) \<le> 255"
  shows "\<exists>vc'. foldR (\<lambda>vc p. Conn_Write p vc) vc (p # ps) = Inr vc'
    \<and> vc_out vc' = request_bytes vc (WriteAddons (vc_addons vc)) (concat (p # ps))"
proof -
  define vc1 where "vc1 = vc\<lparr>vc_out := request_bytes vc (WriteAddons (vc_addons vc)) p, vc_sent := True\<rparr>"
  have "foldR (\<lambda>vc p. Conn_Write p vc) vc (p # ps) = Inr (vc1\<lparr>vc_out := vc_out vc1 @ concat ps\<rparr>)"
    using assms Conn_Write_sent [of vc1 ps]
    by (simp add: Conn_Write_def sendRequest_def WriteAddons_def vc1_def Let_def)
  moreover have "vc_out vc1 @ concat ps = request_bytes vc (WriteAddons (vc_addons vc)) (p @ concat ps)"
    by (simp add: vc1_def request_bytes_def)
  ultimately show ?thesis by simp
qed

lemma no_addons_no_flow: "WriteAddons a = [] \<Longrightarrow> addons_flow a = []"
  by (auto simp: WriteAddons_def appendAddons_def appendField_def addons_flow_def split: option.splits if_splits)

lemma server_out:
  "sc_out (foldl (\<lambda>c b. serverConn_Write b c) \<lparr>sc_responseWritten = False, sc_out = []\<rparr> (b # bs))
     = [byte Version, byte 0] @ concat (b # bs)"
  using serverConn_Write_sent [of "serverConn_Write b \<lparr>sc_responseWritten = False, sc_out = []\<rparr>" bs]
  by (simp add: serverConn_Write_def)

text \<open>
  C31. Both ends of a VLESS connection agree. Whatever the client writes, in however many pieces,
  the server reads as one request with the client's identifier, flow, command and destination,
  followed by exactly the bytes of the payload; and whatever the server writes back, the client reads
  behind the response header, byte for byte.
\<close>

theorem vless_stream_roundtrip:
  assumes new: "\<not> vc_sent vc" "\<not> vc_received vc" "vc_out vc = []" and id: "length (vc_id vc) = 16"
    and fit: "length (WriteAddons (vc_addons vc)) \<le> 255"
    and flow: "WriteAddons (vc_addons vc) \<noteq> [] \<longrightarrow> vl_Flow lib (WriteAddons (vc_addons vc)) = Some (addons_flow (vc_addons vc))"
    and addr: "\<not> da_Mux (vc_dst vc) \<longrightarrow> address_ok lib (vc_dst vc)"
  shows "\<exists>vc'. foldR (\<lambda>vc p. Conn_Write p vc) vc (p # ps) = Inr vc'
    \<and> read_request lib (vc_out vc') = Inr (\<lparr>vr_uuid = vc_id vc, vr_flow = addons_flow (vc_addons vc),
        vr_command = (if da_Mux (vc_dst vc) then CommandMux else if da_UDP (vc_dst vc) then CommandUDP else CommandTCP),
        vr_destination = (if da_Mux (vc_dst vc) then None else Some (vc_dst vc))\<rparr>, concat (p # ps))
    \<and> Conn_Read (sc_out (foldl (\<lambda>c b. serverConn_Write b c) \<lparr>sc_responseWritten = False, sc_out = []\<rparr> (b # bs))) vc
        = Inr (concat (b # bs), vc\<lparr>vc_received := True\<rparr>)"
proof -
  obtain vc' where w: "foldR (\<lambda>vc p. Conn_Write p vc) vc (p # ps) = Inr vc'"
    "vc_out vc' = request_bytes vc (WriteAddons (vc_addons vc)) (concat (p # ps))"
    using client_out [OF new(1,3) fit] by blast
  from read_request_bytes [OF id fit, where lib = lib and flow = "addons_flow (vc_addons vc)" and p = "concat (p # ps)"]
    no_addons_no_flow flow addr w(2)
  have "read_request lib (vc_out vc') = Inr (\<lparr>vr_uuid = vc_id vc, vr_flow = addons_flow (vc_addons vc),
    vr_command = (if da_Mux (vc_dst vc) then CommandMux else if da_UDP (vc_dst vc) then CommandUDP else CommandTCP),
    vr_destination = (if da_Mux (vc_dst vc) then None else Some (vc_dst vc))\<rparr>, concat (p # ps))" by simp
  with w(1) new show ?thesis
    unfolding server_out by (simp add: Conn_Read_def recvResponse_def ReadFull_def Version_def)
qed

definition demo_dst :: DstAddr where
  "demo_dst = \<lparr>da_UDP = False, da_AddrType = 1, da_Addr = ''abcd'', da_Port = 443, da_Mux = False\<rparr>"

definition demo_conn :: Conn where
  "demo_conn = \<lparr>vc_dst = demo_dst, vc_id = ''0123456789abcdef'',
     vc_addons = Some \<lparr>ad_Flow = XRV, ad_Seed = []\<rparr>, vc_received = False, vc_sent = False, vc_out = []\<rparr>"

text \<open>A library that reads addons with \<^const>\<open>ReadAddons\<close> and IPv4 destinations.\<close>

definition demo_vless_lib :: vless_lib where
  "demo_vless_lib = \<lparr>vl_Flow = (\<lambda>s. case ReadAddons 4096 s of Inl _ \<Rightarrow> None | Inr a \<Rightarrow> Some (ad_Flow a)),
     vl_ReadAddrPort = (\<lambda>s. if length s < 7 then None
       else Some (\<lparr>da_UDP = False, da_AddrType = of_char (s ! 2), da_Addr = take 4 (drop 3 s),
         da_Port = Uint16 (take 2 s), da_Mux = False\<rparr>, drop 7 s)),
     vl_uuid = demo_uuid_lib, vl_vision = (\<lambda>_. True)\<rparr>"

lemma demo_address: "address_ok demo_vless_lib demo_dst"
  by (simp add: address_ok_def demo_vless_lib_def demo_dst_def Uint16_PutUint16 nth_append)

theorem vless_stream_roundtrip_witness:
  "\<exists>vc'. foldR (\<lambda>vc p. Conn_Write p vc) demo_conn [''GET '', ''/''] = Inr vc'
    \<and> read_request demo_vless_lib (vc_out vc') = Inr (\<lparr>vr_uuid = ''0123456789abcdef'', vr_flow = XRV,
        vr_command = CommandTCP, vr_destination = Some demo_dst\<rparr>, ''GET /'')"
proof -
  have "ReadAddons 4096 (WriteAddons (vc_addons demo_conn)) = Inr \<lparr>ad_Flow = XRV, ad_Seed = []\<rparr>"
    by (simp add: demo_conn_def ReadAddons_WriteAddons XRV_def)
  then have "vl_Flow demo_vless_lib (WriteAddons (vc_addons demo_conn)) = Some (addons_flow (vc_addons demo_conn))"
    by (simp add: demo_vless_lib_def addons_flow_def) (simp add: demo_conn_def)
  moreover have "length (WriteAddons (vc_addons demo_conn)) \<le> 255"
    by (simp add: demo_conn_def WriteAddons_def appendAddons_def appendField_def XRV_def appendUvarint.simps)
  ultimately show ?thesis
    using vless_stream_roundtrip [of demo_conn demo_vless_lib "''GET ''" "[''/'']" "''ok''" "[]"] demo_address
    by (auto simp: addons_flow_def) (auto simp: demo_conn_def demo_dst_def)
qed

text \<open>
  Addons survive the trip. What \<^verbatim>\<open>WriteAddons\<close> produces, \<^verbatim>\<open>ReadAddons\<close> reads back field by
  field, for every flow and seed that fit in memory, and reading ends for every input. But the reader
  allocates whatever length a message announces before it looks for the bytes: a message of eleven
  bytes makes it panic.
\<close>

theorem vless_addons_roundtrip:
  assumes "length (ad_Flow a) \<le> maxAlloc" "length (ad_Seed a) \<le> maxAlloc" "maxAlloc < 2 ^ 63"
  shows "ReadAddons maxAlloc (WriteAddons (Some a)) = Inr a
    \<and> ReadAddons maxAlloc (appendUvarint (appendUvarint [] 10) (2 ^ 63)) = Inl MakesliceLen
    \<and> length (appendUvarint (appendUvarint [] 10) (2 ^ 63)) = 11"
proof -
  have "length (ad_Flow a) < 2 ^ 64" "length (ad_Seed a) < 2 ^ 64" using assms by simp_all
  with assms have "ReadAddons maxAlloc (WriteAddons (Some a)) = Inr a" by (intro ReadAddons_WriteAddons)
  moreover have eq: "appendUvarint (appendUvarint [] 10) (2 ^ 63) = appendUvarint [] 10 @ appendUvarint [] (2 ^ 63) @ []"
    by (subst appendUvarint_prefix) simp
  have "ReadUvarint (appendUvarint (appendUvarint [] 10) (2 ^ 63)) = Inr (10, appendUvarint [] (2 ^ 63) @ [])"
    unfolding eq by (rule ReadUvarint_append) simp
  moreover have "ReadUvarint (appendUvarint [] (2 ^ 63) @ []) = Inr (2 ^ 63, [])" by (rule ReadUvarint_append) simp
  ultimately have "read_field maxAlloc \<lparr>ad_Flow = [], ad_Seed = []\<rparr> (appendUvarint (appendUvarint [] 10) (2 ^ 63)) = Inl MakesliceLen"
    using assms(3) by (simp add: read_field_def)
  moreover have "appendUvarint (appendUvarint [] 10) (2 ^ 63) \<noteq> []" unfolding eq by (simp add: appendUvarint.simps)
  ultimately have "ReadAddons maxAlloc (appendUvarint (appendUvarint [] 10) (2 ^ 63)) = Inl MakesliceLen"
    by (simp add: ReadAddons_def read_addons.simps)
  moreover have "length (appendUvarint (appendUvarint [] 10) (2 ^ 63)) = 11"
    unfolding eq by (simp add: uvarint_step uvarint_last)
  ultimately show ?thesis using \<open>ReadAddons maxAlloc (WriteAddons (Some a)) = Inr a\<close> by blast
qed

theorem vless_addons_roundtrip_witness:
  "ReadAddons 4096 (WriteAddons (Some \<lparr>ad_Flow = XRV, ad_Seed = ''seed''\<rparr>)) = Inr \<lparr>ad_Flow = XRV, ad_Seed = ''seed''\<rparr>"
  using vless_addons_roundtrip [of "\<lparr>ad_Flow = XRV, ad_Seed = ''seed''\<rparr>" 4096] by (simp add: XRV_def)

subsection \<open>Packets\<close>

fun read_all :: "nat list \<Rightarrow> string \<Rightarrow> vless_err + string option list \<times> string" where
  "read_all [] s = Inr ([], s)"
| "read_all (cap # caps) s = bindR (ReadFrom cap s) (\<lambda>(r, s). bindR (read_all caps s) (\<lambda>(rs, s). Inr (r # rs, s)))"

definition frame :: "string \<Rightarrow> string" where
  "frame b = PutUint16 (length b) @ b"

lemma WriteTo_frames:
  "list_all (\<lambda>b. length b \<le> 65535) bs \<Longrightarrow> foldR (\<lambda>out b. WriteTo b out) out bs = Inr (out @ concat (map frame bs))"
  by (induction bs arbitrary: out) (simp_all add: WriteTo_def frame_def)

lemma ReadFrom_frame:
  "length b \<le> 65535 \<Longrightarrow> ReadFrom cap (frame b @ s) = Inr (if cap < length b then None else Some b, s)"
  by (simp add: ReadFrom_def readPacketLength_def frame_def ReadBytes_append Uint16_PutUint16)

text \<open>
  C34. Packets keep their borders. Packets of at most 65535 bytes are written as frames from which the
  reader gets the same packets in the same order, into buffers of any size: a packet that is too large
  for the reader's buffer is dropped as a whole and the next one is read correctly. Larger packets are
  refused and nothing is written.
\<close>

theorem vless_packets_roundtrip:
  assumes "list_all (\<lambda>b. length b \<le> 65535) packets" "length caps = length packets"
  shows "\<exists>stream. foldR (\<lambda>out b. WriteTo b out) [] packets = Inr stream
    \<and> read_all caps stream = Inr (map2 (\<lambda>cap b. if cap < length b then None else Some b) caps packets, [])
    \<and> (length big > 65535 \<longrightarrow> WriteTo big stream = Inl (PacketTooLarge (length big)))"
proof -
  have "read_all caps (concat (map frame packets)) = Inr (map2 (\<lambda>cap b. if cap < length b then None else Some b) caps packets, [])"
    using assms(2,1) by (induction caps packets rule: list_induct2) (simp_all add: ReadFrom_frame)
  with WriteTo_frames [OF assms(1), of "[]"] show ?thesis by (simp add: WriteTo_def)
qed

theorem vless_packets_roundtrip_witness:
  "\<exists>stream. foldR (\<lambda>out b. WriteTo b out) [] [''one'', ''three'', []] = Inr stream
    \<and> read_all [8, 4, 8] stream = Inr ([Some ''one'', None, Some []], [])"
proof -
  obtain stream where "foldR (\<lambda>out b. WriteTo b out) [] [''one'', ''three'', []] = Inr stream"
    "read_all [8, 4, 8] stream = Inr (map2 (\<lambda>cap b. if cap < length b then None else Some b) [8, 4, 8] [''one'', ''three'', []], [])"
    using vless_packets_roundtrip [of "[''one'', ''three'', []]" "[8, 4, 8]" "[]"] by fastforce
  then show ?thesis by (intro exI [of _ stream]) (simp del: foldR.simps read_all.simps)
qed

end
