(* ===== verification/Users_Service.thy ===== *)
theory Users_Service
  imports Go_Bytes
begin

section \<open>Listeners: services with users\<close>

text \<open>
  The contract that the VLESS service and the AnyTLS listener share: a table of credentials that can be
  replaced at run time, connections that authenticate against it in two steps, and the promise that
  no connection outlives its credential. It is stated as an interface, and what follows from it is
  proved once.
\<close>

text \<open>
  \<open>installed\<close> is the credential a key stands for, \<open>active\<close> the authenticated connections with the key and
  the credential they were admitted under, \<open>pending\<close> the connections that are still authenticating.
\<close>

locale user_service =
  fixes installed :: "'s \<Rightarrow> 'k \<Rightarrow> 'c option"
    and active :: "'s \<Rightarrow> (nat \<times> 'k \<times> 'c) list"
    and pending :: "'s \<Rightarrow> nat list"
    and shut :: "'s \<Rightarrow> bool"
    and install :: "('k, 'c) gomap \<Rightarrow> 's \<Rightarrow> 's"
    and shutdown :: "'s \<Rightarrow> 's"
    and track :: "nat \<Rightarrow> 's \<Rightarrow> 's"
    and promote :: "nat \<Rightarrow> 'k \<Rightarrow> 'c \<Rightarrow> 's \<Rightarrow> 's option"
    and untrack :: "nat \<Rightarrow> 's \<Rightarrow> 's"
    and finish :: "nat \<Rightarrow> 's \<Rightarrow> 's"
  assumes install_installed: "installed (install u s) = mget u"
    and install_active: "active (install u s) = filter (\<lambda>(i, k, c). mget u k = Some c) (active s)"
    and install_pending: "pending (install u s) = []"
    and install_shut: "shut (install u s) = shut s"
    and shutdown_installed: "installed (shutdown s) k = None"
    and shutdown_active: "active (shutdown s) = []"
    and shutdown_pending: "pending (shutdown s) = []"
    and shutdown_shut: "shut (shutdown s)"
    and track_frame: "installed (track i s) = installed s" "active (track i s) = active s" "shut (track i s) = shut s"
    and track_pending: "pending (track i s) = (if shut s then pending s else pending s @ [i])"
    and promote_iff: "promote i k c s \<noteq> None \<longleftrightarrow> \<not> shut s \<and> i \<in> set (pending s) \<and> installed s k = Some c"
    and promote_active: "promote i k c s = Some s' \<Longrightarrow> active s' = active s @ [(i, k, c)]"
    and promote_frame: "promote i k c s = Some s' \<Longrightarrow> installed s' = installed s \<and> shut s' = shut s
          \<and> pending s' = removeAll i (pending s)"
    and untrack_frame: "installed (untrack i s) = installed s" "active (untrack i s) = active s" "shut (untrack i s) = shut s"
          "pending (untrack i s) = removeAll i (pending s)"
    and finish_frame: "installed (finish i s) = installed s" "pending (finish i s) = pending s" "shut (finish i s) = shut s"
          "active (finish i s) = filter (\<lambda>(j, _). j \<noteq> i) (active s)"
begin

definition authorized :: "'s \<Rightarrow> bool" where
  "authorized s \<longleftrightarrow> (\<forall>(i, k, c) \<in> set (active s). installed s k = Some c)
     \<and> (shut s \<longrightarrow> active s = [] \<and> pending s = [] \<and> (\<forall>k. installed s k = None))"

text \<open>A step, labelled with the connection it accepts.\<close>

inductive service_step :: "nat option \<Rightarrow> 's \<Rightarrow> 's \<Rightarrow> bool" where
  step_install: "\<not> shut s \<Longrightarrow> service_step None s (install u s)"
| step_shutdown: "service_step None s (shutdown s)"
| step_track: "service_step (Some i) s (track i s)"
| step_promote: "promote i k c s = Some s' \<Longrightarrow> service_step None s s'"
| step_untrack: "service_step None s (untrack i s)"
| step_finish: "service_step None s (finish i s)"

lemma authorized_step: "service_step l s s' \<Longrightarrow> authorized s \<Longrightarrow> authorized s'"
proof (induction rule: service_step.induct)
  case (step_promote i k c s s')
  then have "\<not> shut s" "installed s k = Some c" using promote_iff [of i k c s] by auto
  with step_promote promote_active [OF step_promote(1)] promote_frame [OF step_promote(1)] show ?case
    by (auto simp: authorized_def)
qed (auto simp: authorized_def install_installed install_active install_shut shutdown_installed shutdown_active
    shutdown_pending track_frame track_pending untrack_frame finish_frame)

definition service_run :: "nat set \<Rightarrow> 's \<Rightarrow> 's \<Rightarrow> bool" where
  "service_run new = (\<lambda>s s'. \<exists>l. set_option l \<subseteq> new \<and> service_step l s s')\<^sup>*\<^sup>*"

lemma authorized_run: "service_run new s s' \<Longrightarrow> authorized s \<Longrightarrow> authorized s'"
  unfolding service_run_def by (induction rule: rtranclp_induct) (auto intro: authorized_step)

text \<open>An update cuts off every handshake in flight: the connection can only start over.\<close>

definition admitted :: "nat \<Rightarrow> 's \<Rightarrow> bool" where
  "admitted i s \<longleftrightarrow> i \<in> set (pending s) \<or> i \<in> fst ` set (active s)"

lemma not_admitted_step: "service_step l s s' \<Longrightarrow> l \<noteq> Some i \<Longrightarrow> \<not> admitted i s \<Longrightarrow> \<not> admitted i s'"
proof (induction rule: service_step.induct)
  case (step_promote j k c s s')
  then have "j \<in> set (pending s)" using promote_iff [of j k c s] by auto
  with step_promote promote_active [OF step_promote(1)] promote_frame [OF step_promote(1)] show ?case
    by (auto simp: admitted_def)
qed (auto simp: admitted_def install_active install_pending shutdown_active shutdown_pending track_frame track_pending
    untrack_frame finish_frame)

lemma not_admitted_run:
  assumes "service_run new s s'" "i \<notin> new" "\<not> admitted i s"
  shows "\<not> admitted i s'"
  using assms unfolding service_run_def
proof (induction rule: rtranclp_induct)
  case (step y z)
  then obtain l where "set_option l \<subseteq> new" "service_step l y z" by blast
  with step not_admitted_step [of l y z i] show ?case by auto
qed

lemma install_cuts:
  assumes "i \<in> set (pending s)" "i \<notin> fst ` set (active s)"
  shows "\<not> admitted i (install u s)"
  using assms by (auto simp: admitted_def install_active install_pending)

lemma install_survivors:
  "(i, k, c) \<in> set (active (install u s)) \<longleftrightarrow> (i, k, c) \<in> set (active s) \<and> mget u k = Some c"
  by (auto simp: install_active)

end

end
