(* ===== verification/Vless_Service.thy ===== *)
theory Vless_Service
  imports Vless_Wire Users_Service
begin

section \<open>VLESS: the service\<close>

text \<open>
  \<^verbatim>\<open>Service\<close> of \<^verbatim>\<open>listener/sing_vless/service.go\<close>: its user table, the connections that are being
  authenticated and those that were admitted. Connections are numbered. A connection looks up its
  credential without a lock and is admitted later under the lock, so the two moments may see
  different tables.
\<close>

subsection \<open>State\<close>

record userCredential =
  cr_user :: string
  cr_flow :: string

record activeConnection =
  ac_conn :: nat
  ac_uuid :: string
  ac_credential :: userCredential

text \<open>\<open>sv_closedConns\<close> collects the network connections the service has closed.\<close>

record Service =
  sv_users :: "(string, userCredential) gomap"
  sv_closed :: bool
  sv_pending :: "nat list"
  sv_connections :: "activeConnection list"
  sv_closedConns :: "nat list"

definition NewService :: Service where
  "NewService = \<lparr>sv_users = [], sv_closed = False, sv_pending = [], sv_connections = [], sv_closedConns = []\<rparr>"

subsection \<open>Updating and closing\<close>

definition add_user :: "vless_lib \<Rightarrow> (string, userCredential) gomap \<Rightarrow> string \<times> string \<times> string
    \<Rightarrow> vless_err + (string, userCredential) gomap" where
  "add_user lib m x =
     (let (user, uuid, flow) = x; userID = UUIDMap (vl_uuid lib) uuid in
      if mget m userID \<noteq> None then Inl (DuplicateUUID uuid)
      else Inr (mset' userID \<lparr>cr_user = user, cr_flow = flow\<rparr> m))"

definition user_map :: "vless_lib \<Rightarrow> (string \<times> string \<times> string) list \<Rightarrow> vless_err + (string, userCredential) gomap" where
  "user_map lib users = foldR (add_user lib) [] users"

definition removePendingConnectionsLocked :: "Service \<Rightarrow> nat list \<times> Service" where
  "removePendingConnectionsLocked s = (sv_pending s, s\<lparr>sv_pending := []\<rparr>)"

definition still_valid :: "(string, userCredential) gomap \<Rightarrow> activeConnection \<Rightarrow> bool" where
  "still_valid snapshot a \<longleftrightarrow> mget snapshot (ac_uuid a) = Some (ac_credential a)"

definition removeInvalidConnectionsLocked :: "(string, userCredential) gomap \<Rightarrow> Service \<Rightarrow> nat list \<times> Service" where
  "removeInvalidConnectionsLocked snapshot s =
     (map ac_conn (filter (\<lambda>a. \<not> still_valid snapshot a) (sv_connections s)),
      s\<lparr>sv_connections := filter (still_valid snapshot) (sv_connections s)\<rparr>)"

definition closeNetConnections :: "nat list \<Rightarrow> Service \<Rightarrow> Service" where
  "closeNetConnections cs s = s\<lparr>sv_closedConns := sv_closedConns s @ cs\<rparr>"

definition install_users :: "(string, userCredential) gomap \<Rightarrow> Service \<Rightarrow> Service" where
  "install_users snapshot s =
     (let s = s\<lparr>sv_users := snapshot\<rparr>;
          (pend, s) = removePendingConnectionsLocked s;
          (invalid, s) = removeInvalidConnectionsLocked snapshot s
      in closeNetConnections invalid (closeNetConnections pend s))"

definition UpdateUsers :: "vless_lib \<Rightarrow> string list \<Rightarrow> string list \<Rightarrow> string list \<Rightarrow> Service \<Rightarrow> vless_err + Service" where
  "UpdateUsers lib userList uuidList flowList s =
     (if length userList \<noteq> length uuidList \<or> length userList \<noteq> length flowList then Inl ListsDiffer
      else bindR (user_map lib (zip userList (zip uuidList flowList))) (\<lambda>userMap.
        if sv_closed s then Inl NetClosed else Inr (install_users userMap s)))"

definition Service_Close :: "Service \<Rightarrow> Service" where
  "Service_Close s = install_users [] (s\<lparr>sv_closed := True\<rparr>)"

definition CloseConnections :: "Service \<Rightarrow> Service" where
  "CloseConnections s = (let (cs, s) = removeInvalidConnectionsLocked [] s in closeNetConnections cs s)"

subsection \<open>Connections\<close>

definition trackPendingConnection :: "nat \<Rightarrow> Service \<Rightarrow> vless_err + Service" where
  "trackPendingConnection conn s = (if sv_closed s then Inl NetClosed else Inr (s\<lparr>sv_pending := sv_pending s @ [conn]\<rparr>))"

definition untrackPendingConnection :: "nat \<Rightarrow> Service \<Rightarrow> Service" where
  "untrackPendingConnection conn s = s\<lparr>sv_pending := removeAll conn (sv_pending s)\<rparr>"

text \<open>The credential of a request in a snapshot of the users, and the check of its flow.\<close>

definition authenticate :: "vless_lib \<Rightarrow> nat \<Rightarrow> (string, userCredential) gomap \<Rightarrow> vless_request \<Rightarrow> vless_err + userCredential" where
  "authenticate lib conn snapshot req =
     (case mget snapshot (vr_uuid req) of
        None \<Rightarrow> Inl (UnknownUUID (vr_uuid req))
      | Some credential \<Rightarrow>
          if vr_flow req \<noteq> cr_flow credential \<and> vr_flow req \<noteq> [] then Inl (FlowMismatch (cr_flow credential) (vr_flow req))
          else if vr_flow req = XRV then (if vl_vision lib conn then Inr credential else Inl VisionError)
          else if vr_flow req = [] then Inr credential
          else Inl (UnknownFlow (vr_flow req)))"

definition promote :: "nat \<Rightarrow> string \<Rightarrow> userCredential \<Rightarrow> Service \<Rightarrow> Service option" where
  "promote conn uuid credential s =
     (if sv_closed s \<or> conn \<notin> set (sv_pending s) \<or> mget (sv_users s) uuid \<noteq> Some credential then None
      else Some (s\<lparr>sv_pending := removeAll conn (sv_pending s),
             sv_connections := sv_connections s @ [\<lparr>ac_conn = conn, ac_uuid = uuid, ac_credential = credential\<rparr>]\<rparr>))"

text \<open>
  A new connection: the request is read, the credential is looked up in the snapshot current at that
  time, and later, when the lock is taken, the connection is admitted if nothing has changed. The two
  moments see the users \<open>snapshot\<close> and the state \<open>s\<close>.
\<close>

definition newConnection :: "vless_lib \<Rightarrow> nat \<Rightarrow> string \<Rightarrow> (string, userCredential) gomap \<Rightarrow> Service
    \<Rightarrow> (vless_err + vless_request \<times> userCredential \<times> string) \<times> Service" where
  "newConnection lib conn data snapshot s =
     (case bindR (read_request lib data) (\<lambda>(req, rest). bindR (authenticate lib conn snapshot req) (\<lambda>c. Inr (req, c, rest))) of
        Inl e \<Rightarrow> (Inl e, s)
      | Inr (req, credential, rest) \<Rightarrow>
          (case promote conn (vr_uuid req) credential s of
             None \<Rightarrow> (Inl CredentialsChanged, closeNetConnections [conn] s)
           | Some s \<Rightarrow> (Inr (req, credential, rest), s)))"

datatype vless_action = HandleTCP "DstAddr option" | HandleUDP "DstAddr option" | HandleMux | Refuse

definition dispatch :: "vless_request \<Rightarrow> vless_action" where
  "dispatch req =
     (if vr_command req = CommandTCP then HandleTCP (vr_destination req)
      else if vr_command req = CommandUDP then (if vr_flow req = XRV then Refuse else HandleUDP (vr_destination req))
      else if vr_command req = CommandMux then HandleMux
      else Refuse)"

text \<open>The connection ends: it leaves the list of active connections and is closed.\<close>

definition finish_connection :: "nat \<Rightarrow> Service \<Rightarrow> Service" where
  "finish_connection conn s =
     closeNetConnections [conn] (s\<lparr>sv_connections := filter (\<lambda>a. ac_conn a \<noteq> conn) (sv_connections s)\<rparr>)"

lemmas service_defs = install_users_def removePendingConnectionsLocked_def removeInvalidConnectionsLocked_def
  closeNetConnections_def Service_Close_def untrackPendingConnection_def promote_def finish_connection_def

lemma install_users_simps [simp]:
  "sv_users (install_users u s) = u" "sv_pending (install_users u s) = []" "sv_closed (install_users u s) = sv_closed s"
  "sv_connections (install_users u s) = filter (still_valid u) (sv_connections s)"
  "sv_closedConns (install_users u s) = sv_closedConns s @ sv_pending s
     @ map ac_conn (filter (\<lambda>a. \<not> still_valid u a) (sv_connections s))"
  by (simp_all add: service_defs)

definition active_entries :: "Service \<Rightarrow> (nat \<times> string \<times> userCredential) list" where
  "active_entries s = map (\<lambda>a. (ac_conn a, ac_uuid a, ac_credential a)) (sv_connections s)"

interpretation vs: user_service "\<lambda>s. mget (sv_users s)" active_entries sv_pending sv_closed install_users Service_Close
    "\<lambda>i s. case trackPendingConnection i s of Inl _ \<Rightarrow> s | Inr s' \<Rightarrow> s'" promote untrackPendingConnection finish_connection
  by unfold_locales
     (auto simp: service_defs trackPendingConnection_def active_entries_def still_valid_def [abs_def] filter_map comp_def
       case_prod_unfold split: if_splits)

subsection \<open>Properties\<close>

text \<open>The service after any sequence of steps that may accept the connections \<open>new\<close>.\<close>

abbreviation vless_run :: "nat set \<Rightarrow> Service \<Rightarrow> Service \<Rightarrow> bool" where
  "vless_run \<equiv> vs.service_run"

text \<open>
  C8. Nobody stays connected without being a user. In every state the VLESS service can reach, by any
  interleaving of updates of the users with connections that arrive, authenticate and end, each
  connection that has been admitted carries a credential, user and flow included, that the current
  user table holds under the same UUID; once the service is closed there is none.
\<close>

theorem vless_authorized:
  assumes "vless_run new NewService s"
  shows "list_all (still_valid (sv_users s)) (sv_connections s) \<and> (sv_closed s \<longrightarrow> sv_connections s = [] \<and> sv_pending s = [])"
proof -
  have "vs.authorized NewService" by (simp add: vs.authorized_def NewService_def active_entries_def)
  from vs.authorized_run [OF assms this] show ?thesis
    by (auto simp: vs.authorized_def active_entries_def list_all_iff still_valid_def)
qed

definition demo_users :: "(string, userCredential) gomap" where
  "demo_users = [(''0123456789abcdef'', \<lparr>cr_user = ''alice'', cr_flow = XRV\<rparr>)]"

lemma vless_step: "vs.service_step l s s' \<Longrightarrow> set_option l \<subseteq> new \<Longrightarrow> vless_run new s s'"
  unfolding vs.service_run_def by (rule r_into_rtranclp) blast

lemma vless_run_trans: "vless_run new s t \<Longrightarrow> vless_run new t u \<Longrightarrow> vless_run new s u"
  unfolding vs.service_run_def by (rule rtranclp_trans)

definition demo_service :: Service where
  "demo_service = \<lparr>sv_users = demo_users, sv_closed = False, sv_pending = [],
     sv_connections = [\<lparr>ac_conn = 7, ac_uuid = ''0123456789abcdef'', ac_credential = \<lparr>cr_user = ''alice'', cr_flow = XRV\<rparr>\<rparr>],
     sv_closedConns = []\<rparr>"

lemma demo_service_reached: "vless_run {7} NewService demo_service"
proof -
  let ?s1 = "install_users demo_users NewService" and ?s2 = "(install_users demo_users NewService)\<lparr>sv_pending := [7]\<rparr>"
  have "vless_run {7} NewService ?s1" by (rule vless_step [OF vs.step_install]) (simp_all add: NewService_def)
  moreover have "vless_run {7} ?s1 ?s2"
    using vless_step [OF vs.step_track [of 7 ?s1], of "{7}"] by (simp add: trackPendingConnection_def NewService_def)
  moreover have "promote 7 ''0123456789abcdef'' \<lparr>cr_user = ''alice'', cr_flow = XRV\<rparr> ?s2 = Some demo_service"
    by (simp add: promote_def demo_users_def demo_service_def NewService_def install_users_def service_defs)
  then have "vless_run {7} ?s2 demo_service" by (intro vless_step [OF vs.step_promote]) simp_all
  ultimately show ?thesis by (blast intro: vless_run_trans)
qed

theorem vless_authorized_witness:
  "vless_run {7} NewService demo_service \<and> list_all (still_valid demo_users) (sv_connections demo_service)"
  using vless_authorized [OF demo_service_reached] demo_service_reached by (simp add: demo_service_def)


definition demo_waiting :: Service where
  "demo_waiting = demo_service\<lparr>sv_pending := [8]\<rparr>"


lemma authenticate_ok:
  "authenticate lib conn snapshot req = Inr c \<longleftrightarrow> mget snapshot (vr_uuid req) = Some c
     \<and> (vr_flow req = [] \<or> vr_flow req = cr_flow c \<and> vr_flow req = XRV \<and> vl_vision lib conn)"
  by (auto simp: authenticate_def XRV_def split: option.splits if_splits)

lemma authenticate_fails:
  assumes "authenticate lib conn snapshot req = Inl e"
  shows "\<not> (mget snapshot (vr_uuid req) = Some c
    \<and> (vr_flow req = [] \<or> vr_flow req = cr_flow c \<and> vr_flow req = XRV \<and> vl_vision lib conn))"
  using assms authenticate_ok [of lib conn snapshot req c] by auto


definition demo_request :: string where
  "demo_request = request_bytes demo_conn (WriteAddons (vc_addons demo_conn)) ''GET /''"

lemma demo_addons:
  "vl_Flow demo_vless_lib (WriteAddons (vc_addons demo_conn)) = Some XRV"
  "length (WriteAddons (vc_addons demo_conn)) \<le> 255" "WriteAddons (vc_addons demo_conn) \<noteq> []"
proof -
  have "ReadAddons 4096 (WriteAddons (vc_addons demo_conn)) = Inr \<lparr>ad_Flow = XRV, ad_Seed = []\<rparr>"
    by (simp add: demo_conn_def ReadAddons_WriteAddons XRV_def)
  then show "vl_Flow demo_vless_lib (WriteAddons (vc_addons demo_conn)) = Some XRV"
    by (simp add: demo_vless_lib_def)
  show "length (WriteAddons (vc_addons demo_conn)) \<le> 255" "WriteAddons (vc_addons demo_conn) \<noteq> []"
    by (simp_all add: demo_conn_def WriteAddons_def appendAddons_def appendField_def XRV_def appendUvarint.simps)
qed

lemma demo_read_request:
  "read_request demo_vless_lib demo_request = Inr (\<lparr>vr_uuid = ''0123456789abcdef'', vr_flow = XRV,
     vr_command = CommandTCP, vr_destination = Some demo_dst\<rparr>, ''GET /'')"
proof -
  have c: "length (vc_id demo_conn) = 16" "vc_dst demo_conn = demo_dst" "vc_id demo_conn = ''0123456789abcdef''"
    by (simp_all add: demo_conn_def)
  have d: "\<not> da_Mux demo_dst" "\<not> da_UDP demo_dst" by (simp_all add: demo_dst_def)
  have "read_request demo_vless_lib (request_bytes demo_conn (WriteAddons (vc_addons demo_conn)) ''GET /'')
    = Inr (\<lparr>vr_uuid = vc_id demo_conn, vr_flow = XRV,
      vr_command = (if da_Mux (vc_dst demo_conn) then CommandMux else if da_UDP (vc_dst demo_conn) then CommandUDP else CommandTCP),
      vr_destination = (if da_Mux (vc_dst demo_conn) then None else Some (vc_dst demo_conn))\<rparr>, ''GET /'')"
    by (rule read_request_bytes [OF c(1) demo_addons(2)]) (use demo_addons demo_address c(2) in simp_all)
  then show ?thesis unfolding demo_request_def by (simp only: c d if_False)
qed




end
