(* ===== verification/Anytls_Service.thy ===== *)
theory Anytls_Service
  imports Users_Service
begin

section \<open>AnyTLS: the listener\<close>

text \<open>
  \<^verbatim>\<open>Listener\<close> of \<^verbatim>\<open>listener/anytls/server.go\<close>: users by the hash of their password, pending and
  admitted connections, replacing the users and closing. The TLS setup and the session protocol that
  follows authentication are not modelled.
\<close>

subsection \<open>State\<close>

record anytls_active =
  aa_conn :: nat
  aa_passwordHash :: string
  aa_user :: string

record anytls_listener =
  al_users :: "(string, string) gomap"
  al_closed :: bool
  al_pending :: "nat list"
  al_connections :: "anytls_active list"
  al_closedConns :: "nat list"

datatype anytls_err = DuplicatePassword string string | AnyTLSClosed

subsection \<open>Users\<close>

text \<open>The snapshot maps the SHA-256 of a password to its user; \<open>sha\<close> is the hash function.\<close>

definition add_password :: "(string \<Rightarrow> string) \<Rightarrow> (string, string) gomap \<Rightarrow> string \<times> string \<Rightarrow> anytls_err + (string, string) gomap" where
  "add_password sha m x =
     (let (user, password) = x; hash = sha password in
      case mget m hash of
        Some existing \<Rightarrow> Inl (DuplicatePassword existing user)
      | None \<Rightarrow> Inr (mset' hash user m))"

definition buildUserSnapshot :: "(string \<Rightarrow> string) \<Rightarrow> (string, string) gomap \<Rightarrow> anytls_err + (string, string) gomap" where
  "buildUserSnapshot sha users = foldR (add_password sha) [] users"

definition anytls_valid :: "(string, string) gomap \<Rightarrow> anytls_active \<Rightarrow> bool" where
  "anytls_valid snapshot a \<longleftrightarrow> mget snapshot (aa_passwordHash a) = Some (aa_user a)"

definition anytls_removeInvalid :: "(string, string) gomap \<Rightarrow> anytls_listener \<Rightarrow> nat list \<times> anytls_listener" where
  "anytls_removeInvalid snapshot l =
     (map aa_conn (filter (\<lambda>a. \<not> anytls_valid snapshot a) (al_connections l)),
      l\<lparr>al_connections := filter (anytls_valid snapshot) (al_connections l)\<rparr>)"

definition anytls_removePending :: "anytls_listener \<Rightarrow> nat list \<times> anytls_listener" where
  "anytls_removePending l = (al_pending l, l\<lparr>al_pending := []\<rparr>)"

definition closeAnyTLSConnections :: "nat list \<Rightarrow> anytls_listener \<Rightarrow> anytls_listener" where
  "closeAnyTLSConnections cs l = l\<lparr>al_closedConns := al_closedConns l @ cs\<rparr>"

definition anytls_install :: "(string, string) gomap \<Rightarrow> anytls_listener \<Rightarrow> anytls_listener" where
  "anytls_install snapshot l =
     (let l = l\<lparr>al_users := snapshot\<rparr>;
          (pend, l) = anytls_removePending l;
          (invalid, l) = anytls_removeInvalid snapshot l
      in closeAnyTLSConnections invalid (closeAnyTLSConnections pend l))"

definition anytls_UpdateUsers :: "(string \<Rightarrow> string) \<Rightarrow> (string, string) gomap \<Rightarrow> anytls_listener \<Rightarrow> anytls_err + anytls_listener" where
  "anytls_UpdateUsers sha users l =
     bindR (buildUserSnapshot sha users) (\<lambda>snapshot.
       if al_closed l then Inl AnyTLSClosed else Inr (anytls_install snapshot l))"

text \<open>Closing happens once; a second call finds the listener closed already.\<close>

definition anytls_Close :: "anytls_listener \<Rightarrow> anytls_listener" where
  "anytls_Close l = (if al_closed l then l else anytls_install [] (l\<lparr>al_closed := True\<rparr>))"

definition new_anytls :: "(string, string) gomap \<Rightarrow> anytls_listener" where
  "new_anytls snapshot = \<lparr>al_users = snapshot, al_closed = False, al_pending = [], al_connections = [], al_closedConns = []\<rparr>"

subsection \<open>Connections\<close>

definition anytls_track :: "nat \<Rightarrow> anytls_listener \<Rightarrow> anytls_listener option" where
  "anytls_track conn l = (if al_closed l then None else Some (l\<lparr>al_pending := al_pending l @ [conn]\<rparr>))"

definition anytls_untrack :: "nat \<Rightarrow> anytls_listener \<Rightarrow> anytls_listener" where
  "anytls_untrack conn l = l\<lparr>al_pending := removeAll conn (al_pending l)\<rparr>"

definition promoteConnection :: "nat \<Rightarrow> string \<Rightarrow> string \<Rightarrow> anytls_listener \<Rightarrow> anytls_listener option" where
  "promoteConnection conn hash user l =
     (if al_closed l \<or> conn \<notin> set (al_pending l) \<or> mget (al_users l) hash \<noteq> Some user then None
      else Some (l\<lparr>al_pending := removeAll conn (al_pending l),
             al_connections := al_connections l @ [\<lparr>aa_conn = conn, aa_passwordHash = hash, aa_user = user\<rparr>]\<rparr>))"

text \<open>
  The head of a connection: the hash of a password, looked up in the snapshot of that moment, and a
  padding to skip; what follows is the session.
\<close>

definition read_anytls :: "(string, string) gomap \<Rightarrow> string \<Rightarrow> (string \<times> string \<times> string) option" where
  "read_anytls snapshot data =
     (case ReadFull 32 data of
        None \<Rightarrow> None
      | Some (hash, data) \<Rightarrow>
          (case mget snapshot hash of
             None \<Rightarrow> None
           | Some user \<Rightarrow>
               (case ReadFull 2 data of
                  None \<Rightarrow> None
                | Some (paddingHeader, data) \<Rightarrow>
                    let paddingLen = Uint16 paddingHeader in
                    if paddingLen > 0
                    then (case ReadFull paddingLen data of None \<Rightarrow> None | Some (_, data) \<Rightarrow> Some (hash, user, data))
                    else Some (hash, user, data))))"

definition anytls_HandleConn :: "nat \<Rightarrow> string \<Rightarrow> (string, string) gomap \<Rightarrow> anytls_listener
    \<Rightarrow> (string \<times> string) option \<times> anytls_listener" where
  "anytls_HandleConn conn data snapshot l =
     (case read_anytls snapshot data of
        None \<Rightarrow> (None, l)
      | Some (hash, user, rest) \<Rightarrow>
          (case promoteConnection conn hash user l of
             None \<Rightarrow> (None, l)
           | Some l \<Rightarrow> (Some (user, rest), l)))"

definition anytls_finish :: "nat \<Rightarrow> anytls_listener \<Rightarrow> anytls_listener" where
  "anytls_finish conn l =
     closeAnyTLSConnections [conn] (l\<lparr>al_connections := filter (\<lambda>a. aa_conn a \<noteq> conn) (al_connections l)\<rparr>)"

lemmas anytls_defs = anytls_install_def anytls_removePending_def anytls_removeInvalid_def closeAnyTLSConnections_def
  anytls_untrack_def promoteConnection_def anytls_finish_def

lemma anytls_install_simps [simp]:
  "al_users (anytls_install u l) = u" "al_pending (anytls_install u l) = []" "al_closed (anytls_install u l) = al_closed l"
  "al_connections (anytls_install u l) = filter (anytls_valid u) (al_connections l)"
  "al_closedConns (anytls_install u l) = al_closedConns l @ al_pending l
     @ map aa_conn (filter (\<lambda>a. \<not> anytls_valid u a) (al_connections l))"
  by (simp_all add: anytls_defs)

definition anytls_entries :: "anytls_listener \<Rightarrow> (nat \<times> string \<times> string) list" where
  "anytls_entries l = map (\<lambda>a. (aa_conn a, aa_passwordHash a, aa_user a)) (al_connections l)"

interpretation ats: user_service "\<lambda>l. mget (al_users l)" anytls_entries al_pending al_closed anytls_install
    "\<lambda>l. anytls_install [] (l\<lparr>al_closed := True\<rparr>)"
    "\<lambda>i l. case anytls_track i l of None \<Rightarrow> l | Some l' \<Rightarrow> l'" promoteConnection anytls_untrack anytls_finish
  by unfold_locales
     (auto simp: anytls_defs anytls_track_def anytls_entries_def anytls_valid_def [abs_def] filter_map comp_def
       case_prod_unfold split: if_splits)

subsection \<open>Properties\<close>

abbreviation anytls_run :: "nat set \<Rightarrow> anytls_listener \<Rightarrow> anytls_listener \<Rightarrow> bool" where
  "anytls_run \<equiv> ats.service_run"


definition demo_anytls :: anytls_listener where
  "demo_anytls = (new_anytls [(''h1'', ''alice'')])\<lparr>al_pending := [3]\<rparr>"


end
