(* ===== verification/Inbound_Managed.thy ===== *)
theory Inbound_Managed
  imports Vless_Service Anytls_Service
begin

section \<open>Listeners with managed users\<close>

text \<open>
  \<^verbatim>\<open>listener/inbound/vless.go\<close> and \<^verbatim>\<open>listener/inbound/anytls.go\<close>: the listeners whose users can be managed
  at run time, on top of the two services. A listener remembers the users it was given and skips an
  update that would not change any credential. What the manager relies on is stated as an interface
  that both listeners satisfy. The exported \<^verbatim>\<open>UpdateUsers\<close>, which nothing calls, is left out, and so are
  the transports below the services.
\<close>

subsection \<open>Managed users\<close>

record ManagedUser =
  mu_PrincipalID :: string
  mu_Name :: string
  mu_UUID :: string
  mu_Password :: string
  mu_Flow :: string

definition principal :: "ManagedUser \<Rightarrow> string" where
  "principal u = (if mu_PrincipalID u = [] then mu_Name u else mu_PrincipalID u)"

datatype inbound_err =
    NotRunning
  | SetupFailed
  | CloseFailed
  | VlessRefused vless_err
  | AnyTLSRefused anytls_err
  | DuplicatePrincipal string

text \<open>An error of one component becomes an error of another.\<close>

definition map_err :: "('e \<Rightarrow> 'f) \<Rightarrow> 'e + 'a \<Rightarrow> 'f + 'a" where
  "map_err f r = (case r of Inl e \<Rightarrow> Inl (f e) | Inr a \<Rightarrow> Inr a)"

lemma map_err_simps [simp]: "map_err f (Inl e) = Inl (f e)" "map_err f (Inr a) = Inr a" "map_err f r = Inr a \<longleftrightarrow> r = Inr a"
  by (auto simp: map_err_def split: sum.splits)

text \<open>What the libraries provide to the listeners.\<close>

record inbound_lib =
  il_vless :: vless_lib
  il_sha256 :: "string \<Rightarrow> string"

subsection \<open>VLESS\<close>

record VlessUser =
  vu_Username :: string
  vu_UUID :: string
  vu_Flow :: string

text \<open>\<open>vi_retired\<close> collects the services the listener has closed.\<close>

record vless_inbound =
  vi_Users :: "VlessUser list"
  vi_l :: "Service option"
  vi_managedUsers :: "ManagedUser list"
  vi_staged :: bool
  vi_retired :: "Service list"

definition vlessManagedUsers :: "ManagedUser list \<Rightarrow> VlessUser list" where
  "vlessManagedUsers users = map (\<lambda>u. \<lparr>vu_Username = principal u, vu_UUID = mu_UUID u, vu_Flow = mu_Flow u\<rparr>) users"

definition vless_ConfiguredUsers :: "VlessUser list \<Rightarrow> ManagedUser list" where
  "vless_ConfiguredUsers users = map (\<lambda>u. \<lparr>mu_PrincipalID = vu_Username u, mu_Name = vu_Username u, mu_UUID = vu_UUID u,
     mu_Password = [], mu_Flow = vu_Flow u\<rparr>) users"

definition NewVless :: "VlessUser list \<Rightarrow> vless_inbound" where
  "NewVless users = \<lparr>vi_Users = users, vi_l = None, vi_managedUsers = vless_ConfiguredUsers users, vi_staged = False, vi_retired = []\<rparr>"

text \<open>\<^verbatim>\<open>Listener.UpdateUsers\<close> of \<^verbatim>\<open>sing_vless\<close> splits the users into the three lists of the service.\<close>

definition listener_UpdateUsers :: "inbound_lib \<Rightarrow> VlessUser list \<Rightarrow> Service \<Rightarrow> inbound_err + Service" where
  "listener_UpdateUsers lib users s =
     map_err VlessRefused (UpdateUsers (il_vless lib) (map vu_Username users) (map vu_UUID users) (map vu_Flow users) s)"

text \<open>\<open>ok\<close> tells whether the rest of the setup, sockets included, succeeds.\<close>

definition sing_vless_New :: "inbound_lib \<Rightarrow> bool \<Rightarrow> VlessUser list \<Rightarrow> inbound_err + Service" where
  "sing_vless_New lib ok users =
     bindR (listener_UpdateUsers lib users NewService) (\<lambda>service. if ok then Inr service else Inl SetupFailed)"

definition vless_Listen :: "inbound_lib \<Rightarrow> bool \<Rightarrow> vless_inbound \<Rightarrow> inbound_err + vless_inbound" where
  "vless_Listen lib ok v =
     (let users = (if vi_staged v then [] else vi_managedUsers v) in
      bindR (sing_vless_New lib ok (vlessManagedUsers users)) (\<lambda>l.
        Inr (v\<lparr>vi_l := Some l, vi_managedUsers := users, vi_staged := False\<rparr>)))"

definition vless_Close :: "bool \<Rightarrow> vless_inbound \<Rightarrow> inbound_err option \<times> vless_inbound" where
  "vless_Close ok v =
     (case vi_l v of
        None \<Rightarrow> (None, v)
      | Some l \<Rightarrow> (if ok then None else Some CloseFailed, v\<lparr>vi_l := None, vi_retired := Service_Close l # vi_retired v\<rparr>))"

definition updateUsersLocked :: "inbound_lib \<Rightarrow> VlessUser list \<Rightarrow> vless_inbound \<Rightarrow> inbound_err + vless_inbound" where
  "updateUsersLocked lib users v =
     (case vi_l v of
        None \<Rightarrow> Inl NotRunning
      | Some l \<Rightarrow> bindR (listener_UpdateUsers lib users l) (\<lambda>l. Inr (v\<lparr>vi_l := Some l\<rparr>)))"

fun sameVlessManagedCredentials :: "ManagedUser list \<Rightarrow> ManagedUser list \<Rightarrow> bool" where
  "sameVlessManagedCredentials [] [] = True"
| "sameVlessManagedCredentials (a # as) (b # bs) =
     (length as = length bs \<and> principal a = principal b \<and> mu_UUID a = mu_UUID b \<and> mu_Flow a = mu_Flow b
      \<and> sameVlessManagedCredentials as bs)"
| "sameVlessManagedCredentials _ _ = False"

definition vless_UpdateManagedUsers :: "inbound_lib \<Rightarrow> ManagedUser list \<Rightarrow> vless_inbound \<Rightarrow> inbound_err + vless_inbound" where
  "vless_UpdateManagedUsers lib users v =
     bindR (if sameVlessManagedCredentials (vi_managedUsers v) users then Inr v
            else updateUsersLocked lib (vlessManagedUsers users) v) (\<lambda>v.
       Inr (v\<lparr>vi_managedUsers := users, vi_staged := False\<rparr>))"

subsection \<open>AnyTLS\<close>

record anytls_inbound =
  ai_Users :: "(string, string) gomap"
  ai_l :: "anytls_listener option"
  ai_managedUsers :: "ManagedUser list"
  ai_staged :: bool
  ai_retired :: "anytls_listener list"

definition add_principal :: "(string, string) gomap \<Rightarrow> ManagedUser \<Rightarrow> inbound_err + (string, string) gomap" where
  "add_principal updated user =
     (if mget updated (principal user) \<noteq> None then Inl (DuplicatePrincipal (principal user))
      else Inr (mset' (principal user) (mu_Password user) updated))"

definition anyTLSManagedUsers :: "ManagedUser list \<Rightarrow> inbound_err + (string, string) gomap" where
  "anyTLSManagedUsers users = foldR add_principal [] users"

definition anytls_ConfiguredUsers :: "(string, string) gomap \<Rightarrow> ManagedUser list" where
  "anytls_ConfiguredUsers users =
     sort_key mu_Name (map (\<lambda>(nam, password). \<lparr>mu_PrincipalID = nam, mu_Name = nam, mu_UUID = [], mu_Password = password, mu_Flow = []\<rparr>) users)"

definition NewAnyTLS :: "(string, string) gomap \<Rightarrow> anytls_inbound" where
  "NewAnyTLS users = \<lparr>ai_Users = users, ai_l = None, ai_managedUsers = anytls_ConfiguredUsers users, ai_staged = False, ai_retired = []\<rparr>"

definition anytls_New :: "inbound_lib \<Rightarrow> bool \<Rightarrow> (string, string) gomap \<Rightarrow> inbound_err + anytls_listener" where
  "anytls_New lib ok users =
     bindR (map_err AnyTLSRefused (buildUserSnapshot (il_sha256 lib) users)) (\<lambda>snapshot.
       if ok then Inr (new_anytls snapshot) else Inl SetupFailed)"

definition anytls_Listen :: "inbound_lib \<Rightarrow> bool \<Rightarrow> anytls_inbound \<Rightarrow> inbound_err + anytls_inbound" where
  "anytls_Listen lib ok v =
     (let managedUsers = (if ai_staged v then [] else ai_managedUsers v) in
      bindR (anyTLSManagedUsers managedUsers) (\<lambda>users.
      bindR (anytls_New lib ok users) (\<lambda>l.
        Inr (v\<lparr>ai_l := Some l, ai_managedUsers := managedUsers, ai_staged := False\<rparr>))))"

definition anytls_inbound_Close :: "bool \<Rightarrow> anytls_inbound \<Rightarrow> inbound_err option \<times> anytls_inbound" where
  "anytls_inbound_Close ok v =
     (case ai_l v of
        None \<Rightarrow> (None, v)
      | Some l \<Rightarrow> (if ok then None else Some CloseFailed, v\<lparr>ai_l := None, ai_retired := anytls_Close l # ai_retired v\<rparr>))"

definition anytls_updateUsersLocked :: "inbound_lib \<Rightarrow> (string, string) gomap \<Rightarrow> anytls_inbound \<Rightarrow> inbound_err + anytls_inbound" where
  "anytls_updateUsersLocked lib users v =
     (case ai_l v of
        None \<Rightarrow> Inl NotRunning
      | Some l \<Rightarrow> bindR (map_err AnyTLSRefused (anytls_UpdateUsers (il_sha256 lib) users l)) (\<lambda>l. Inr (v\<lparr>ai_l := Some l\<rparr>)))"

fun sameAnyTLSManagedCredentials :: "ManagedUser list \<Rightarrow> ManagedUser list \<Rightarrow> bool" where
  "sameAnyTLSManagedCredentials [] [] = True"
| "sameAnyTLSManagedCredentials (a # as) (b # bs) =
     (length as = length bs \<and> principal a = principal b \<and> mu_Password a = mu_Password b \<and> sameAnyTLSManagedCredentials as bs)"
| "sameAnyTLSManagedCredentials _ _ = False"

definition anytls_UpdateManagedUsers :: "inbound_lib \<Rightarrow> ManagedUser list \<Rightarrow> anytls_inbound \<Rightarrow> inbound_err + anytls_inbound" where
  "anytls_UpdateManagedUsers lib users v =
     bindR (anyTLSManagedUsers users) (\<lambda>updated.
     bindR (if sameAnyTLSManagedCredentials (ai_managedUsers v) users then Inr v
            else anytls_updateUsersLocked lib updated v) (\<lambda>v.
       Inr (v\<lparr>ai_managedUsers := users, ai_staged := False\<rparr>)))"

subsection \<open>The contract of a managed listener\<close>

text \<open>
  \<open>table us\<close> is the table of credentials the users \<open>us\<close> stand for, if the listener accepts them at all, and
  \<open>installed v\<close> the table of the service that is running.
\<close>

locale managed_listener =
  fixes current :: "'v \<Rightarrow> ManagedUser list"
    and staged :: "'v \<Rightarrow> bool"
    and installed :: "'v \<Rightarrow> ('k \<Rightarrow> 'c option) option"
    and table :: "ManagedUser list \<Rightarrow> ('k \<Rightarrow> 'c option) option"
    and update :: "ManagedUser list \<Rightarrow> 'v \<Rightarrow> 'e + 'v"
    and listen :: "bool \<Rightarrow> 'v \<Rightarrow> 'e + 'v"
    and close :: "bool \<Rightarrow> 'v \<Rightarrow> 'e option \<times> 'v"
  assumes table_empty: "table [] = Some (\<lambda>_. None)"
    and update_current: "update us v = Inr v' \<Longrightarrow> current v' = us"
    and update_installed: "\<forall>t. installed v = Some t \<longrightarrow> table (current v) = Some t \<Longrightarrow> update us v = Inr v' \<Longrightarrow>
          installed v' = (case installed v of None \<Rightarrow> None | Some _ \<Rightarrow> table us)"
    and update_accepts: "installed v \<noteq> None \<Longrightarrow> table (current v) = installed v \<Longrightarrow> table us \<noteq> None \<Longrightarrow> \<exists>v'. update us v = Inr v'"
    and update_refuses: "installed v \<noteq> None \<Longrightarrow> table (current v) = installed v \<Longrightarrow> update us v = Inr v' \<Longrightarrow> table us \<noteq> None"
    and listen_installed: "listen ok v = Inr v' \<Longrightarrow> installed v' = table (current v') \<and> table (current v') \<noteq> None \<and> \<not> staged v'"
    and listen_accepts: "table (current v) \<noteq> None \<Longrightarrow> \<not> staged v \<Longrightarrow> \<exists>v'. listen True v = Inr v' \<and> current v' = current v \<and> \<not> staged v'"
    and close_stops: "close ok v = (e, v') \<Longrightarrow> current v' = current v \<and> staged v' = staged v \<and> installed v' = None"
    and close_ok: "fst (close True v) = None"
begin

definition coherent :: "'v \<Rightarrow> bool" where
  "coherent v \<longleftrightarrow> (\<forall>t. installed v = Some t \<longrightarrow> table (current v) = Some t)"

lemma coherent_running: "coherent v \<Longrightarrow> installed v \<noteq> None \<Longrightarrow> table (current v) = installed v"
  by (auto simp: coherent_def)

lemma coherent_update: "coherent v \<Longrightarrow> update us v = Inr v' \<Longrightarrow> coherent v'"
  using update_installed [of v us v'] update_current [of us v v'] by (auto simp: coherent_def split: option.splits)

lemma coherent_listen: "listen ok v = Inr v' \<Longrightarrow> coherent v'"
  using listen_installed [of ok v v'] by (auto simp: coherent_def)

lemma coherent_close: "close ok v = (e, v') \<Longrightarrow> coherent v'"
  using close_stops [of ok v e v'] by (auto simp: coherent_def)

lemma update_takes_effect:
  assumes "coherent v" "installed v \<noteq> None" "update us v = Inr v'"
  shows "installed v' = table us" "installed v' \<noteq> None"
proof -
  have t: "table us \<noteq> None" using assms by (intro update_refuses [OF _ coherent_running]) auto
  show "installed v' = table us"
    using assms update_installed [of v us v'] by (auto simp: coherent_def split: option.splits)
  with t show "installed v' \<noteq> None" by simp
qed

text \<open>A running listener that is closed can be started again with the users it had.\<close>

lemma restart:
  assumes "coherent v" "installed v \<noteq> None" "\<not> staged v" "close True v = (e, v')"
  shows "\<exists>v''. listen True v' = Inr v'' \<and> current v'' = current v \<and> \<not> staged v'' \<and> installed v'' = installed v"
proof -
  note c = close_stops [OF assms(4)] and t = coherent_running [OF assms(1,2)]
  obtain v'' where "listen True v' = Inr v''" "current v'' = current v'" "\<not> staged v''"
    using listen_accepts [of v'] c t assms(2,3) by auto
  with listen_installed [of True v' v''] c t show ?thesis by auto
qed

text \<open>A running listener can always be put back to the users it had, and can always be cleared.\<close>

lemma update_back:
  assumes "coherent v" "installed v \<noteq> None" "update us v = Inr v'"
  shows "\<exists>v''. update (current v) v' = Inr v'' \<and> installed v'' = installed v \<and> current v'' = current v"
proof -
  note eff = update_takes_effect [OF assms] and coh = coherent_update [OF assms(1,3)]
  have "table (current v) \<noteq> None" using coherent_running [OF assms(1,2)] assms(2) by simp
  then obtain v'' where v'': "update (current v) v' = Inr v''"
    using update_accepts [OF eff(2) coherent_running [OF coh eff(2)]] by blast
  with update_takes_effect [OF coh eff(2) v''] coherent_running [OF assms(1,2)] update_current [OF v''] show ?thesis by auto
qed

lemma update_clears:
  assumes "coherent v" "installed v \<noteq> None"
  shows "\<exists>v'. update [] v = Inr v' \<and> installed v' = Some (\<lambda>_. None)"
proof -
  obtain v' where v': "update [] v = Inr v'"
    using update_accepts [OF assms(2) coherent_running [OF assms], of "[]"] table_empty by auto
  with update_takes_effect [OF assms v'] table_empty show ?thesis by simp
qed

end

subsubsection \<open>VLESS\<close>

definition vless_table :: "inbound_lib \<Rightarrow> ManagedUser list \<Rightarrow> (string \<Rightarrow> userCredential option) option" where
  "vless_table lib users =
     (case user_map (il_vless lib) (map (\<lambda>u. (principal u, mu_UUID u, mu_Flow u)) users) of Inl _ \<Rightarrow> None | Inr m \<Rightarrow> Some (mget m))"

definition vless_installed :: "vless_inbound \<Rightarrow> (string \<Rightarrow> userCredential option) option" where
  "vless_installed v = (case vi_l v of Some l \<Rightarrow> if sv_closed l then None else Some (mget (sv_users l)) | None \<Rightarrow> None)"

lemma vless_table_Some:
  "vless_table lib us = Some t \<longleftrightarrow> (\<exists>m. user_map (il_vless lib) (map (\<lambda>u. (principal u, mu_UUID u, mu_Flow u)) us) = Inr m \<and> t = mget m)"
  by (auto simp: vless_table_def split: sum.splits)

lemma same_vless: "sameVlessManagedCredentials as bs \<longleftrightarrow> vlessManagedUsers as = vlessManagedUsers bs"
  by (induction as bs rule: sameVlessManagedCredentials.induct) (auto simp: vlessManagedUsers_def dest: map_eq_imp_length_eq)

lemma vless_table_users:
  "vlessManagedUsers as = vlessManagedUsers bs \<Longrightarrow> vless_table lib as = vless_table lib bs"
proof -
  assume "vlessManagedUsers as = vlessManagedUsers bs"
  then have "map (\<lambda>x. (vu_Username x, vu_UUID x, vu_Flow x)) (vlessManagedUsers as)
      = map (\<lambda>x. (vu_Username x, vu_UUID x, vu_Flow x)) (vlessManagedUsers bs)" by simp
  then have "map (\<lambda>u. (principal u, mu_UUID u, mu_Flow u)) as = map (\<lambda>u. (principal u, mu_UUID u, mu_Flow u)) bs"
    by (simp add: vlessManagedUsers_def comp_def)
  then show ?thesis by (simp add: vless_table_def)
qed

lemma zip3_map: "zip (map f us) (zip (map g us) (map h us)) = map (\<lambda>x. (f x, g x, h x)) us"
  by (induction us) auto

lemma listener_UpdateUsers_ok:
  "listener_UpdateUsers lib (vlessManagedUsers us) s = Inr s' \<longleftrightarrow> \<not> sv_closed s \<and>
     (\<exists>m. user_map (il_vless lib) (map (\<lambda>u. (principal u, mu_UUID u, mu_Flow u)) us) = Inr m \<and> s' = install_users m s)"
  by (auto simp: listener_UpdateUsers_def UpdateUsers_def zip3_map bindR_eq_Inr vlessManagedUsers_def comp_def)

lemma vless_update_ok:
  "vless_UpdateManagedUsers lib us v = Inr v' \<longleftrightarrow>
     (if sameVlessManagedCredentials (vi_managedUsers v) us then v' = v\<lparr>vi_managedUsers := us, vi_staged := False\<rparr>
      else \<exists>l m. vi_l v = Some l \<and> \<not> sv_closed l \<and> user_map (il_vless lib) (map (\<lambda>u. (principal u, mu_UUID u, mu_Flow u)) us) = Inr m
        \<and> v' = v\<lparr>vi_l := Some (install_users m l), vi_managedUsers := us, vi_staged := False\<rparr>)"
  by (auto simp: vless_UpdateManagedUsers_def updateUsersLocked_def bindR_eq_Inr listener_UpdateUsers_ok split: option.splits)

lemma vless_update_cases:
  assumes "vless_UpdateManagedUsers lib us v = Inr v'"
  obtains "vless_table lib us = vless_table lib (vi_managedUsers v)" "v' = v\<lparr>vi_managedUsers := us, vi_staged := False\<rparr>"
  | l m where "vi_l v = Some l" "\<not> sv_closed l" "vless_table lib us = Some (mget m)"
      "v' = v\<lparr>vi_l := Some (install_users m l), vi_managedUsers := us, vi_staged := False\<rparr>"
  using assms vless_table_users [of us "vi_managedUsers v" lib]
  by (cases "sameVlessManagedCredentials (vi_managedUsers v) us") (auto simp: vless_update_ok same_vless vless_table_Some)

interpretation vm: managed_listener vi_managedUsers vi_staged vless_installed "vless_table lib" "vless_UpdateManagedUsers lib" "vless_Listen lib" vless_Close
  for lib
proof
  show "vless_table lib [] = Some (\<lambda>_. None)" by (simp add: vless_table_def user_map_def fun_eq_iff)
  show "vi_managedUsers v' = us" if "vless_UpdateManagedUsers lib us v = Inr v'" for us v v'
    using that by (auto simp: vless_update_ok split: if_splits)
  show "vless_installed v' = (case vless_installed v of None \<Rightarrow> None | Some _ \<Rightarrow> vless_table lib us)"
    if "\<forall>t. vless_installed v = Some t \<longrightarrow> vless_table lib (vi_managedUsers v) = Some t" "vless_UpdateManagedUsers lib us v = Inr v'" for us v v'
    using that(2,1) by (cases rule: vless_update_cases) (auto simp: vless_installed_def split: if_splits option.splits)
  show "\<exists>v'. vless_UpdateManagedUsers lib us v = Inr v'"
    if "vless_installed v \<noteq> None" "vless_table lib us \<noteq> None" for us v
    using that by (auto simp: vless_update_ok vless_installed_def vless_table_def split: if_splits option.splits sum.splits)
  show "vless_table lib us \<noteq> None"
    if "vless_installed v \<noteq> None" "vless_table lib (vi_managedUsers v) = vless_installed v" "vless_UpdateManagedUsers lib us v = Inr v'" for us v v'
    using that(3,1,2) by (cases rule: vless_update_cases) auto
  show "vless_installed v' = vless_table lib (vi_managedUsers v') \<and> vless_table lib (vi_managedUsers v') \<noteq> None \<and> \<not> vi_staged v'"
    if "vless_Listen lib ok v = Inr v'" for ok v v'
    using that by (auto simp: vless_Listen_def sing_vless_New_def bindR_eq_Inr listener_UpdateUsers_ok vless_installed_def vless_table_def
        NewService_def split: if_splits)
  show "\<exists>v'. vless_Listen lib True v = Inr v' \<and> vi_managedUsers v' = vi_managedUsers v \<and> \<not> vi_staged v'"
    if "vless_table lib (vi_managedUsers v) \<noteq> None" "\<not> vi_staged v" for v
    using that by (auto simp: vless_Listen_def sing_vless_New_def bindR_eq_Inr listener_UpdateUsers_ok vless_table_Some NewService_def)
  show "vi_managedUsers v' = vi_managedUsers v \<and> vi_staged v' = vi_staged v \<and> vless_installed v' = None" if "vless_Close ok v = (e, v')" for ok v e v'
    using that by (auto simp: vless_Close_def vless_installed_def split: option.splits)
  show "fst (vless_Close True v) = None" for v by (simp add: vless_Close_def split: option.splits)
qed

subsubsection \<open>AnyTLS\<close>

definition anytls_table :: "inbound_lib \<Rightarrow> ManagedUser list \<Rightarrow> (string \<Rightarrow> string option) option" where
  "anytls_table lib users =
     (case bindR (anyTLSManagedUsers users) (\<lambda>m. map_err AnyTLSRefused (buildUserSnapshot (il_sha256 lib) m)) of
        Inl _ \<Rightarrow> None | Inr m \<Rightarrow> Some (mget m))"

definition anytls_installed :: "anytls_inbound \<Rightarrow> (string \<Rightarrow> string option) option" where
  "anytls_installed v = (case ai_l v of Some l \<Rightarrow> if al_closed l then None else Some (mget (al_users l)) | None \<Rightarrow> None)"

lemma same_anytls:
  "sameAnyTLSManagedCredentials as bs \<longleftrightarrow> map (\<lambda>u. (principal u, mu_Password u)) as = map (\<lambda>u. (principal u, mu_Password u)) bs"
  by (induction as bs rule: sameAnyTLSManagedCredentials.induct) (auto dest: map_eq_imp_length_eq)

lemma anyTLSManagedUsers_same:
  "map (\<lambda>u. (principal u, mu_Password u)) as = map (\<lambda>u. (principal u, mu_Password u)) bs \<Longrightarrow> anyTLSManagedUsers as = anyTLSManagedUsers bs"
proof -
  have "foldR add_principal m as = foldR add_principal m bs"
    if "map (\<lambda>u. (principal u, mu_Password u)) as = map (\<lambda>u. (principal u, mu_Password u)) bs" for m
    using that
  proof (induction as arbitrary: bs m)
    case (Cons a as)
    then obtain b bs' where "bs = b # bs'" by auto
    with Cons show ?case by (auto simp: add_principal_def)
  qed simp
  then show "map (\<lambda>u. (principal u, mu_Password u)) as = map (\<lambda>u. (principal u, mu_Password u)) bs \<Longrightarrow> anyTLSManagedUsers as = anyTLSManagedUsers bs"
    by (simp add: anyTLSManagedUsers_def)
qed

lemma anytls_table_same:
  "map (\<lambda>u. (principal u, mu_Password u)) as = map (\<lambda>u. (principal u, mu_Password u)) bs \<Longrightarrow> anytls_table lib as = anytls_table lib bs"
  using anyTLSManagedUsers_same [of as bs] by (simp add: anytls_table_def)

lemma anytls_table_Some:
  "anytls_table lib us = Some t \<longleftrightarrow> (\<exists>m m'. anyTLSManagedUsers us = Inr m \<and> buildUserSnapshot (il_sha256 lib) m = Inr m' \<and> t = mget m')"
  by (auto simp: anytls_table_def bindR_eq_Inr split: sum.splits)

lemma anytls_update_ok:
  "anytls_UpdateManagedUsers lib us v = Inr v' \<longleftrightarrow>
     (\<exists>m. anyTLSManagedUsers us = Inr m \<and>
       (if sameAnyTLSManagedCredentials (ai_managedUsers v) us then v' = v\<lparr>ai_managedUsers := us, ai_staged := False\<rparr>
        else \<exists>l m'. ai_l v = Some l \<and> \<not> al_closed l \<and> buildUserSnapshot (il_sha256 lib) m = Inr m'
          \<and> v' = v\<lparr>ai_l := Some (anytls_install m' l), ai_managedUsers := us, ai_staged := False\<rparr>))"
  by (cases "sameAnyTLSManagedCredentials (ai_managedUsers v) us")
     (auto simp: anytls_UpdateManagedUsers_def anytls_updateUsersLocked_def anytls_UpdateUsers_def bindR_eq_Inr split: option.splits)

lemma anytls_update_cases:
  assumes "anytls_UpdateManagedUsers lib us v = Inr v'"
  obtains "anytls_table lib us = anytls_table lib (ai_managedUsers v)" "v' = v\<lparr>ai_managedUsers := us, ai_staged := False\<rparr>"
  | l m where "ai_l v = Some l" "\<not> al_closed l" "anytls_table lib us = Some (mget m)"
      "v' = v\<lparr>ai_l := Some (anytls_install m l), ai_managedUsers := us, ai_staged := False\<rparr>"
proof (cases "sameAnyTLSManagedCredentials (ai_managedUsers v) us")
  case True
  with assms have "v' = v\<lparr>ai_managedUsers := us, ai_staged := False\<rparr>" by (simp add: anytls_update_ok)
  with True anytls_table_same [of us "ai_managedUsers v" lib] that(1) show ?thesis by (simp add: same_anytls)
next
  case False
  with assms that(2) show ?thesis by (auto simp: anytls_update_ok anytls_table_Some)
qed

interpretation am: managed_listener ai_managedUsers ai_staged anytls_installed "anytls_table lib" "anytls_UpdateManagedUsers lib" "anytls_Listen lib"
    anytls_inbound_Close
  for lib
proof
  show "anytls_table lib [] = Some (\<lambda>_. None)"
    by (simp add: anytls_table_def anyTLSManagedUsers_def buildUserSnapshot_def map_err_def fun_eq_iff)
  show "ai_managedUsers v' = us" if "anytls_UpdateManagedUsers lib us v = Inr v'" for us v v'
    using that by (auto simp: anytls_update_ok split: if_splits)
  show "anytls_installed v' = (case anytls_installed v of None \<Rightarrow> None | Some _ \<Rightarrow> anytls_table lib us)"
    if "\<forall>t. anytls_installed v = Some t \<longrightarrow> anytls_table lib (ai_managedUsers v) = Some t" "anytls_UpdateManagedUsers lib us v = Inr v'" for us v v'
    using that(2,1) by (cases rule: anytls_update_cases) (auto simp: anytls_installed_def split: if_splits option.splits)
  show "\<exists>v'. anytls_UpdateManagedUsers lib us v = Inr v'"
    if "anytls_installed v \<noteq> None" "anytls_table lib us \<noteq> None" for us v
    using that by (auto simp: anytls_update_ok anytls_installed_def anytls_table_Some split: if_splits option.splits)
  show "anytls_table lib us \<noteq> None"
    if "anytls_installed v \<noteq> None" "anytls_table lib (ai_managedUsers v) = anytls_installed v" "anytls_UpdateManagedUsers lib us v = Inr v'" for us v v'
    using that(3,1,2) by (cases rule: anytls_update_cases) auto
  show "anytls_installed v' = anytls_table lib (ai_managedUsers v') \<and> anytls_table lib (ai_managedUsers v') \<noteq> None \<and> \<not> ai_staged v'"
    if "anytls_Listen lib ok v = Inr v'" for ok v v'
    using that by (auto simp: anytls_Listen_def anytls_New_def bindR_eq_Inr anytls_installed_def new_anytls_def anytls_table_def
        map_err_def split: if_splits)
  show "\<exists>v'. anytls_Listen lib True v = Inr v' \<and> ai_managedUsers v' = ai_managedUsers v \<and> \<not> ai_staged v'"
    if "anytls_table lib (ai_managedUsers v) \<noteq> None" "\<not> ai_staged v" for v
    using that by (auto simp: anytls_Listen_def anytls_New_def bindR_eq_Inr anytls_table_Some)
  show "ai_managedUsers v' = ai_managedUsers v \<and> ai_staged v' = ai_staged v \<and> anytls_installed v' = None"
    if "anytls_inbound_Close ok v = (e, v')" for ok v e v'
    using that by (auto simp: anytls_inbound_Close_def anytls_installed_def split: option.splits)
  show "fst (anytls_inbound_Close True v) = None" for v by (simp add: anytls_inbound_Close_def split: option.splits)
qed

end
