(* ===== verification/Inbound_Registry.thy ===== *)
theory Inbound_Registry
  imports Inbound_Managed
begin

section \<open>The registry of inbound listeners\<close>

text \<open>
  \<^verbatim>\<open>listener/listener.go\<close>: the inbound listeners that run, access to a managed one by name, failing
  closed, and \<^verbatim>\<open>PatchInboundListeners\<close>, which replaces the running set by a new one and rolls back when
  that fails.
\<close>

subsection \<open>Listeners of all kinds\<close>

text \<open>
  A listener of another kind has no managed users and counts only as serving or not. \<open>lo_id\<close> is the
  identity of the object, \<open>lo_config\<close> the text of its options, which is what configurations are
  compared by.
\<close>

datatype inbound = VlessInbound vless_inbound | AnyTLSInbound anytls_inbound | OtherInbound bool

record listener_obj =
  lo_id :: nat
  lo_config :: string
  lo_inbound :: inbound

definition map_inr :: "('a \<Rightarrow> 'b) \<Rightarrow> 'e + 'a \<Rightarrow> 'e + 'b" where
  "map_inr f r = (case r of Inl e \<Rightarrow> Inl e | Inr a \<Rightarrow> Inr (f a))"

lemma map_inr_simps [simp]: "map_inr f (Inl e) = Inl e" "map_inr f (Inr a) = Inr (f a)"
  "map_inr f r = Inr b \<longleftrightarrow> (\<exists>a. r = Inr a \<and> b = f a)"
  by (auto simp: map_inr_def split: sum.splits)

primrec inbound_Listen :: "inbound_lib \<Rightarrow> bool \<Rightarrow> inbound \<Rightarrow> inbound_err + inbound" where
  "inbound_Listen lib ok (VlessInbound v) = map_inr VlessInbound (vless_Listen lib ok v)"
| "inbound_Listen lib ok (AnyTLSInbound v) = map_inr AnyTLSInbound (anytls_Listen lib ok v)"
| "inbound_Listen lib ok (OtherInbound _) = (if ok then Inr (OtherInbound True) else Inl SetupFailed)"

primrec inbound_Close :: "bool \<Rightarrow> inbound \<Rightarrow> inbound_err option \<times> inbound" where
  "inbound_Close ok (VlessInbound v) = map_prod id VlessInbound (vless_Close ok v)"
| "inbound_Close ok (AnyTLSInbound v) = map_prod id AnyTLSInbound (anytls_inbound_Close ok v)"
| "inbound_Close ok (OtherInbound _) = (if ok then None else Some CloseFailed, OtherInbound False)"

primrec is_managed :: "inbound \<Rightarrow> bool" where
  "is_managed (VlessInbound _) = True" | "is_managed (AnyTLSInbound _) = True" | "is_managed (OtherInbound _) = False"

primrec UpdateManagedUsers :: "inbound_lib \<Rightarrow> ManagedUser list \<Rightarrow> inbound \<Rightarrow> inbound_err + inbound" where
  "UpdateManagedUsers lib users (VlessInbound v) = map_inr VlessInbound (vless_UpdateManagedUsers lib users v)"
| "UpdateManagedUsers lib users (AnyTLSInbound v) = map_inr AnyTLSInbound (anytls_UpdateManagedUsers lib users v)"
| "UpdateManagedUsers lib users (OtherInbound s) = Inr (OtherInbound s)"

primrec StageManagedUsers :: "inbound \<Rightarrow> inbound" where
  "StageManagedUsers (VlessInbound v) = VlessInbound (v\<lparr>vi_staged := True\<rparr>)"
| "StageManagedUsers (AnyTLSInbound v) = AnyTLSInbound (v\<lparr>ai_staged := True\<rparr>)"
| "StageManagedUsers (OtherInbound s) = OtherInbound s"

primrec CurrentManagedUsers :: "inbound \<Rightarrow> ManagedUser list" where
  "CurrentManagedUsers (VlessInbound v) = vi_managedUsers v"
| "CurrentManagedUsers (AnyTLSInbound v) = ai_managedUsers v"
| "CurrentManagedUsers (OtherInbound _) = []"

primrec ConfiguredUsers :: "inbound \<Rightarrow> ManagedUser list" where
  "ConfiguredUsers (VlessInbound v) = vless_ConfiguredUsers (vi_Users v)"
| "ConfiguredUsers (AnyTLSInbound v) = anytls_ConfiguredUsers (ai_Users v)"
| "ConfiguredUsers (OtherInbound _) = []"

primrec schema_Protocol :: "inbound \<Rightarrow> string" where
  "schema_Protocol (VlessInbound _) = ''vless''"
| "schema_Protocol (AnyTLSInbound _) = ''anytls''"
| "schema_Protocol (OtherInbound _) = []"

subsection \<open>The registry\<close>

text \<open>
  \<^verbatim>\<open>inboundListeners\<close> and \<^verbatim>\<open>unusableInboundListeners\<close>. The calls of \<^verbatim>\<open>Listen\<close> and \<^verbatim>\<open>Close\<close> are numbered and
  the environment decides for each one whether the system cooperates.
\<close>

record registry =
  rg_listeners :: "(string, listener_obj) gomap"
  rg_unusable :: "string list"
  rg_tick :: nat

record listen_env =
  le_listen :: "nat \<Rightarrow> bool"
  le_close :: "nat \<Rightarrow> bool"

datatype registry_err =
    ErrInboundListenerNotFound string
  | ErrInboundListenerNotManaged string
  | InstanceChanged
  | InboundErr inbound_err
  | CleanupFailed string

definition obj_Listen :: "inbound_lib \<Rightarrow> listen_env \<Rightarrow> listener_obj \<Rightarrow> registry \<Rightarrow> (inbound_err + listener_obj) \<times> registry" where
  "obj_Listen lib env obj reg =
     (map_inr (\<lambda>i. obj\<lparr>lo_inbound := i\<rparr>) (inbound_Listen lib (le_listen env (rg_tick reg)) (lo_inbound obj)),
      reg\<lparr>rg_tick := rg_tick reg + 1\<rparr>)"

definition obj_Close :: "listen_env \<Rightarrow> listener_obj \<Rightarrow> registry \<Rightarrow> inbound_err option \<times> listener_obj \<times> registry" where
  "obj_Close env obj reg =
     (let (err, i) = inbound_Close (le_close env (rg_tick reg)) (lo_inbound obj)
      in (err, obj\<lparr>lo_inbound := i\<rparr>, reg\<lparr>rg_tick := rg_tick reg + 1\<rparr>))"

definition register :: "string \<Rightarrow> listener_obj \<Rightarrow> registry \<Rightarrow> registry" where
  "register nam obj reg = reg\<lparr>rg_listeners := mset' nam obj (rg_listeners reg), rg_unusable := removeAll nam (rg_unusable reg)\<rparr>"

definition register_unusable :: "string \<Rightarrow> listener_obj \<Rightarrow> registry \<Rightarrow> registry" where
  "register_unusable nam obj reg = reg\<lparr>rg_listeners := mset' nam obj (rg_listeners reg), rg_unusable := nam # rg_unusable reg\<rparr>"

definition unregister :: "string \<Rightarrow> registry \<Rightarrow> registry" where
  "unregister nam reg = reg\<lparr>rg_listeners := mdel nam (rg_listeners reg), rg_unusable := removeAll nam (rg_unusable reg)\<rparr>"

subsubsection \<open>Access to one managed listener\<close>

definition managed_obj :: "string \<Rightarrow> registry \<Rightarrow> registry_err + listener_obj" where
  "managed_obj nam reg =
     (case mget (rg_listeners reg) nam of
        None \<Rightarrow> Inl (ErrInboundListenerNotFound nam)
      | Some obj \<Rightarrow> if is_managed (lo_inbound obj) then Inr obj else Inl (ErrInboundListenerNotManaged nam))"

definition WithManagedInboundListener :: "string \<Rightarrow> (listener_obj \<Rightarrow> registry_err + listener_obj) \<Rightarrow> registry \<Rightarrow> registry_err + registry" where
  "WithManagedInboundListener nam fn reg =
     bindR (managed_obj nam reg) (\<lambda>obj. bindR (fn obj) (\<lambda>obj. Inr (reg\<lparr>rg_listeners := mset' nam obj (rg_listeners reg)\<rparr>)))"

definition obj_update :: "inbound_lib \<Rightarrow> ManagedUser list \<Rightarrow> listener_obj \<Rightarrow> registry_err + listener_obj" where
  "obj_update lib users obj = map_err InboundErr (map_inr (\<lambda>i. obj\<lparr>lo_inbound := i\<rparr>) (UpdateManagedUsers lib users (lo_inbound obj)))"

definition FailClosedManagedInboundListener :: "inbound_lib \<Rightarrow> listen_env \<Rightarrow> string \<Rightarrow> registry \<Rightarrow> registry_err list \<times> registry" where
  "FailClosedManagedInboundListener lib env nam reg =
     (case managed_obj nam reg of
        Inl _ \<Rightarrow> ([], reg)
      | Inr obj \<Rightarrow>
          (case obj_update lib [] obj of
             Inr obj \<Rightarrow> ([], reg\<lparr>rg_listeners := mset' nam obj (rg_listeners reg)\<rparr>)
           | Inl err \<Rightarrow>
               let (closeErr, obj, reg) = obj_Close env obj reg in
               case closeErr of
                 None \<Rightarrow> ([err], reg\<lparr>rg_listeners := mdel nam (rg_listeners reg)\<rparr>)
               | Some e \<Rightarrow> ([err, InboundErr e], reg\<lparr>rg_listeners := mset' nam obj (rg_listeners reg)\<rparr>)))"

fun ClearManagedInboundListeners :: "inbound_lib \<Rightarrow> listen_env \<Rightarrow> string list \<Rightarrow> registry \<Rightarrow> registry_err list \<times> registry" where
  "ClearManagedInboundListeners lib env [] reg = ([], reg)"
| "ClearManagedInboundListeners lib env (nam # names) reg =
     (case WithManagedInboundListener nam (obj_update lib []) reg of
        Inr reg \<Rightarrow> ClearManagedInboundListeners lib env names reg
      | Inl err \<Rightarrow>
          let (closeErr, reg) = FailClosedManagedInboundListener lib env nam reg;
              (errs, reg) = ClearManagedInboundListeners lib env names reg
          in (err # closeErr @ errs, reg))"

subsubsection \<open>Replacing the listeners\<close>

definition reusable :: "registry \<Rightarrow> string \<Rightarrow> listener_obj \<Rightarrow> listener_obj \<Rightarrow> bool" where
  "reusable reg nam old new \<longleftrightarrow> nam \<notin> set (rg_unusable reg) \<and> lo_config old = lo_config new"

definition stopped_patches :: "(string, listener_obj) gomap \<Rightarrow> bool \<Rightarrow> registry \<Rightarrow> (string \<times> listener_obj) list" where
  "stopped_patches newMap dropOld reg =
     concat (map (\<lambda>nam. case mget (rg_listeners reg) nam of
         None \<Rightarrow> []
       | Some old \<Rightarrow>
           (case mget newMap nam of
              Some new \<Rightarrow> if reusable reg nam old new then [] else [(nam, old)]
            | None \<Rightarrow> if dropOld then [(nam, old)] else []))
       (sort (map fst (rg_listeners reg))))"

definition replacement_patches :: "(string, listener_obj) gomap \<Rightarrow> registry \<Rightarrow> (string \<times> listener_obj) list" where
  "replacement_patches newMap reg =
     concat (map (\<lambda>nam. case mget newMap nam of
         None \<Rightarrow> []
       | Some new \<Rightarrow>
           (case mget (rg_listeners reg) nam of
              Some old \<Rightarrow> if reusable reg nam old new then [] else [(nam, new)]
            | None \<Rightarrow> [(nam, new)]))
       (sort (map fst newMap)))"

fun close_started :: "listen_env \<Rightarrow> (string \<times> listener_obj) list \<Rightarrow> registry \<Rightarrow> registry_err list \<times> registry" where
  "close_started env [] reg = ([], reg)"
| "close_started env ((nam, obj) # ps) reg =
     (let (err, obj, reg) = obj_Close env obj reg in
      case err of
        Some e \<Rightarrow> let (errs, reg) = close_started env ps (register_unusable nam obj reg) in (InboundErr e # errs, reg)
      | None \<Rightarrow> close_started env ps (unregister nam reg))"

fun restore_closed :: "inbound_lib \<Rightarrow> listen_env \<Rightarrow> (string \<times> listener_obj) list \<Rightarrow> registry \<Rightarrow> registry_err list \<times> registry" where
  "restore_closed lib env [] reg = ([], reg)"
| "restore_closed lib env ((nam, obj) # ps) reg =
     (if mget (rg_listeners reg) nam \<noteq> None
      then let (errs, reg) = restore_closed lib env ps reg in (CleanupFailed nam # errs, reg)
      else let (r, reg) = obj_Listen lib env obj reg in
        case r of
          Inr obj \<Rightarrow> restore_closed lib env ps (register nam obj reg)
        | Inl e \<Rightarrow>
            let (closeErr, obj, reg) = obj_Close env obj reg in
            case closeErr of
              None \<Rightarrow> let (errs, reg) = restore_closed lib env ps reg in (InboundErr e # errs, reg)
            | Some e' \<Rightarrow> let (errs, reg) = restore_closed lib env ps (register_unusable nam obj reg)
                         in (InboundErr e # InboundErr e' # errs, reg))"

definition rollback :: "inbound_lib \<Rightarrow> listen_env \<Rightarrow> (string \<times> listener_obj) list \<Rightarrow> (string \<times> listener_obj) list
    \<Rightarrow> registry_err list \<Rightarrow> registry \<Rightarrow> registry_err list \<times> registry" where
  "rollback lib env started closed cause reg =
     (let (errs, reg) = close_started env (rev started) reg;
          (errs', reg) = restore_closed lib env closed reg
      in (cause @ errs @ errs', reg))"

text \<open>Closing: a listener that cannot be closed stays registered, the others are taken out.\<close>

fun close_stopped :: "listen_env \<Rightarrow> (string \<times> listener_obj) list \<Rightarrow> registry
    \<Rightarrow> registry_err list \<times> (string \<times> listener_obj) list \<times> registry" where
  "close_stopped env [] reg = ([], [], reg)"
| "close_stopped env ((nam, obj) # ps) reg =
     (let (err, obj, reg) = obj_Close env obj reg in
      case err of
        Some e \<Rightarrow> let (errs, closed, reg) = close_stopped env ps (reg\<lparr>rg_listeners := mset' nam obj (rg_listeners reg)\<rparr>)
                  in (InboundErr e # errs, closed, reg)
      | None \<Rightarrow> let (errs, closed, reg) = close_stopped env ps (unregister nam reg)
                in (errs, (nam, obj) # closed, reg))"

fun start_replacements :: "inbound_lib \<Rightarrow> listen_env \<Rightarrow> (string \<times> listener_obj) list \<Rightarrow> (string \<times> listener_obj) list \<Rightarrow> registry
    \<Rightarrow> registry_err list \<times> (string \<times> listener_obj) list \<times> registry" where
  "start_replacements lib env started [] reg = ([], started, reg)"
| "start_replacements lib env started ((nam, obj) # ps) reg =
     (let (r, reg) = obj_Listen lib env obj reg in
      case r of
        Inl e \<Rightarrow> ([InboundErr e], started @ [(nam, obj)], reg)
      | Inr obj \<Rightarrow> start_replacements lib env (started @ [(nam, obj)]) ps reg)"

definition PatchInboundListeners :: "inbound_lib \<Rightarrow> listen_env \<Rightarrow> (string, listener_obj) gomap \<Rightarrow> bool \<Rightarrow> registry
    \<Rightarrow> registry_err list \<times> registry" where
  "PatchInboundListeners lib env newMap dropOld reg =
     (let stopped = stopped_patches newMap dropOld reg;
          replacements = replacement_patches newMap reg;
          (closeErr, closed, reg) = close_stopped env stopped reg in
      if closeErr \<noteq> [] then rollback lib env [] closed closeErr reg
      else let (err, started, reg) = start_replacements lib env [] replacements reg in
        if err \<noteq> [] then rollback lib env started closed err reg
        else ([], foldl (\<lambda>reg (nam, obj). register nam obj reg) reg started))"

subsection \<open>Listeners that serve\<close>

primrec serving :: "inbound \<Rightarrow> bool" where
  "serving (VlessInbound v) = (vless_installed v \<noteq> None)"
| "serving (AnyTLSInbound v) = (anytls_installed v \<noteq> None)"
| "serving (OtherInbound b) = b"

text \<open>It serves exactly the users it has on record.\<close>

primrec coherent :: "inbound_lib \<Rightarrow> inbound \<Rightarrow> bool" where
  "coherent lib (VlessInbound v) = vm.coherent lib v"
| "coherent lib (AnyTLSInbound v) = am.coherent lib v"
| "coherent lib (OtherInbound b) = True"

primrec staged :: "inbound \<Rightarrow> bool" where
  "staged (VlessInbound v) = vi_staged v"
| "staged (AnyTLSInbound v) = ai_staged v"
| "staged (OtherInbound b) = False"

definition inbound_good :: "inbound_lib \<Rightarrow> inbound \<Rightarrow> bool" where
  "inbound_good lib i \<longleftrightarrow> serving i \<and> coherent lib i \<and> \<not> staged i"

definition shut :: "listener_obj \<Rightarrow> listener_obj" where
  "shut obj = obj\<lparr>lo_inbound := snd (inbound_Close True (lo_inbound obj))\<rparr>"

lemma shut_simps [simp]: "lo_id (shut obj) = lo_id obj" "lo_config (shut obj) = lo_config obj"
  by (simp_all add: shut_def)

lemma inbound_Close_ok: "fst (inbound_Close True i) = None"
  using vm.close_ok am.close_ok by (cases i) simp_all

lemma obj_Close_ok:
  "\<forall>t. le_close env t \<Longrightarrow> obj_Close env obj reg = (None, shut obj, reg\<lparr>rg_tick := rg_tick reg + 1\<rparr>)"
  using inbound_Close_ok [of "lo_inbound obj"] by (simp add: obj_Close_def shut_def case_prod_unfold)

lemma inbound_Listen_good:
  assumes "inbound_Listen lib ok i = Inr i'"
  shows "inbound_good lib i'"
proof (cases i)
  case (VlessInbound v)
  with assms obtain v' where "vless_Listen lib ok v = Inr v'" "i' = VlessInbound v'" by auto
  with vm.listen_installed [of lib ok v v'] vm.coherent_listen [of lib ok v v'] show ?thesis by (simp add: inbound_good_def)
next
  case (AnyTLSInbound v)
  with assms obtain v' where "anytls_Listen lib ok v = Inr v'" "i' = AnyTLSInbound v'" by auto
  with am.listen_installed [of lib ok v v'] am.coherent_listen [of lib ok v v'] show ?thesis by (simp add: inbound_good_def)
qed (use assms in \<open>auto simp: inbound_good_def split: if_splits\<close>)

lemma obj_Listen_good:
  assumes "obj_Listen lib env obj reg = (Inr obj', reg')"
  shows "inbound_good lib (lo_inbound obj')" "lo_id obj' = lo_id obj" "lo_config obj' = lo_config obj"
  using assms inbound_Listen_good by (auto simp: obj_Listen_def)

text \<open>A serving listener that was closed comes back with its users.\<close>

lemma inbound_restart:
  assumes "inbound_good lib i"
  shows "\<exists>i'. inbound_Listen lib True (snd (inbound_Close True i)) = Inr i' \<and> CurrentManagedUsers i' = CurrentManagedUsers i"
proof (cases i)
  case (VlessInbound v)
  obtain e v' where "vless_Close True v = (e, v')" by fastforce
  with vm.restart [of lib v e v'] assms VlessInbound show ?thesis by (auto simp: inbound_good_def)
next
  case (AnyTLSInbound v)
  obtain e v' where "anytls_inbound_Close True v = (e, v')" by fastforce
  with am.restart [of lib v e v'] assms AnyTLSInbound show ?thesis by (auto simp: inbound_good_def)
qed auto

lemma inbound_update_good:
  assumes "inbound_good lib i" "UpdateManagedUsers lib us i = Inr i'" "is_managed i"
  shows "inbound_good lib i' \<and> CurrentManagedUsers i' = us \<and> is_managed i'"
proof (cases i)
  case (VlessInbound v)
  with assms obtain v' where v': "vless_UpdateManagedUsers lib us v = Inr v'" "i' = VlessInbound v'" by auto
  then have "\<not> vi_staged v'" by (cases rule: vless_update_cases) auto
  with v' VlessInbound assms vm.update_takes_effect [of lib v us v'] vm.coherent_update [of lib v us v'] vm.update_current [of lib us v v']
  show ?thesis by (simp add: inbound_good_def)
next
  case (AnyTLSInbound v)
  with assms obtain v' where v': "anytls_UpdateManagedUsers lib us v = Inr v'" "i' = AnyTLSInbound v'" by auto
  then have "\<not> ai_staged v'" by (cases rule: anytls_update_cases) auto
  with v' AnyTLSInbound assms am.update_takes_effect [of lib v us v'] am.coherent_update [of lib v us v'] am.update_current [of lib us v v']
  show ?thesis by (simp add: inbound_good_def)
qed (use assms in auto)

lemma inbound_update_back:
  assumes "inbound_good lib i" "UpdateManagedUsers lib us i = Inr i'" "is_managed i"
  shows "\<exists>i''. UpdateManagedUsers lib (CurrentManagedUsers i) i' = Inr i''"
  using assms vm.update_back [of lib _ us] am.update_back [of lib _ us] by (cases i) (auto simp: inbound_good_def, blast+)

lemma inbound_update_clears:
  assumes "inbound_good lib i" "is_managed i"
  shows "\<exists>i'. UpdateManagedUsers lib [] i = Inr i'"
  using assms vm.update_clears [of lib] am.update_clears [of lib] by (cases i) (auto simp: inbound_good_def, blast+)

subsection \<open>Replacing the listeners, when closing works\<close>

lemmas registry_defs = register_def unregister_def register_unusable_def

lemma map_views [simp]:
  "mget (mset' k v m) = (mget m)(k \<mapsto> v)" "mget (mdel k m) = (mget m)(k := None)"
  by (rule gm.lookup_update, rule gm.lookup_delete)

lemma close_stopped_ok:
  assumes "\<forall>t. le_close env t" "close_stopped env ps reg = (errs, closed, reg')"
  shows "errs = []" "closed = map (map_prod id shut) ps"
    "mget (rg_listeners reg') = (\<lambda>n. if n \<in> fst ` set ps then None else mget (rg_listeners reg) n)"
    "set (rg_unusable reg') = set (rg_unusable reg) - fst ` set ps"
    "mkeys_ok (rg_listeners reg) \<Longrightarrow> mkeys_ok (rg_listeners reg')"
proof -
  have "errs = [] \<and> closed = map (map_prod id shut) ps
    \<and> mget (rg_listeners reg') = (\<lambda>n. if n \<in> fst ` set ps then None else mget (rg_listeners reg) n)
    \<and> set (rg_unusable reg') = set (rg_unusable reg) - fst ` set ps
    \<and> (mkeys_ok (rg_listeners reg) \<longrightarrow> mkeys_ok (rg_listeners reg'))"
    using assms(2)
  proof (induction ps arbitrary: reg errs closed)
    case (Cons p ps)
    obtain n obj where p: "p = (n, obj)" by (cases p)
    obtain errs' closed' where c: "close_stopped env ps (unregister n (reg\<lparr>rg_tick := rg_tick reg + 1\<rparr>)) = (errs', closed', reg')"
      and r: "errs = errs'" "closed = (n, shut obj) # closed'"
      using Cons.prems by (auto simp: p obj_Close_ok [OF assms(1)] split: prod.splits)
    from Cons.IH [OF c] r show ?case by (auto simp: p registry_defs fun_eq_iff gm.invar_delete)
  qed auto
  then show "errs = []" "closed = map (map_prod id shut) ps"
    "mget (rg_listeners reg') = (\<lambda>n. if n \<in> fst ` set ps then None else mget (rg_listeners reg) n)"
    "set (rg_unusable reg') = set (rg_unusable reg) - fst ` set ps"
    "mkeys_ok (rg_listeners reg) \<Longrightarrow> mkeys_ok (rg_listeners reg')" by auto
qed

lemma close_started_ok:
  assumes "\<forall>t. le_close env t" "close_started env ps reg = (errs, reg')"
  shows "mget (rg_listeners reg') = (\<lambda>n. if n \<in> fst ` set ps then None else mget (rg_listeners reg) n)"
    "set (rg_unusable reg') = set (rg_unusable reg) - fst ` set ps"
    "mkeys_ok (rg_listeners reg) \<Longrightarrow> mkeys_ok (rg_listeners reg')"
proof -
  have "mget (rg_listeners reg') = (\<lambda>n. if n \<in> fst ` set ps then None else mget (rg_listeners reg) n)
    \<and> set (rg_unusable reg') = set (rg_unusable reg) - fst ` set ps
    \<and> (mkeys_ok (rg_listeners reg) \<longrightarrow> mkeys_ok (rg_listeners reg'))"
    using assms(2)
  proof (induction ps arbitrary: reg)
    case (Cons p ps)
    obtain n obj where p: "p = (n, obj)" by (cases p)
    have "close_started env ps (unregister n (reg\<lparr>rg_tick := rg_tick reg + 1\<rparr>)) = (errs, reg')"
      using Cons.prems by (simp add: p obj_Close_ok [OF assms(1)])
    from Cons.IH [OF this] show ?case by (auto simp: p registry_defs fun_eq_iff gm.invar_delete)
  qed auto
  then show "mget (rg_listeners reg') = (\<lambda>n. if n \<in> fst ` set ps then None else mget (rg_listeners reg) n)"
    "set (rg_unusable reg') = set (rg_unusable reg) - fst ` set ps"
    "mkeys_ok (rg_listeners reg) \<Longrightarrow> mkeys_ok (rg_listeners reg')" by auto
qed

text \<open>Starting the replacements touches nothing but the clock; those that started serve.\<close>

lemma start_replacements_frame:
  assumes "start_replacements lib env started ps reg = (errs, started', reg')"
  shows "rg_listeners reg' = rg_listeners reg \<and> rg_unusable reg' = rg_unusable reg
    \<and> fst ` set started' \<subseteq> fst ` set started \<union> fst ` set ps
    \<and> (errs = [] \<longrightarrow> map (\<lambda>(n, obj). (n, lo_id obj, lo_config obj)) started' = map (\<lambda>(n, obj). (n, lo_id obj, lo_config obj)) (started @ ps)
        \<and> (list_all (\<lambda>(n, obj). inbound_good lib (lo_inbound obj)) started \<longrightarrow> list_all (\<lambda>(n, obj). inbound_good lib (lo_inbound obj)) started'))"
  using assms
proof (induction ps arbitrary: started reg)
  case (Cons p ps)
  obtain n obj where p: "p = (n, obj)" by (cases p)
  obtain r reg1 where l: "obj_Listen lib env obj reg = (r, reg1)" by fastforce
  then have reg1: "rg_listeners reg1 = rg_listeners reg" "rg_unusable reg1 = rg_unusable reg" by (auto simp: obj_Listen_def)
  show ?case
  proof (cases r)
    case (Inl e)
    with Cons.prems l reg1 show ?thesis by (auto simp: p)
  next
    case (Inr obj')
    with l obj_Listen_good [of lib env obj reg obj' reg1] have good: "inbound_good lib (lo_inbound obj')" "lo_id obj' = lo_id obj" "lo_config obj' = lo_config obj" by simp_all
    from Inr Cons.prems l have "start_replacements lib env (started @ [(n, obj')]) ps reg1 = (errs, started', reg')" by (simp add: p)
    from Cons.IH [OF this] good reg1 show ?thesis by (auto simp: p)
  qed
qed auto

text \<open>What has become of a closed listener that was to be started again.\<close>

definition comeback :: "inbound_lib \<Rightarrow> listen_env \<Rightarrow> listener_obj \<Rightarrow> listener_obj option \<Rightarrow> bool" where
  "comeback lib env c r \<longleftrightarrow>
     (case r of
        None \<Rightarrow> (\<forall>t. le_listen env t) \<longrightarrow> (\<forall>i. inbound_Listen lib True (lo_inbound c) \<noteq> Inr i)
      | Some obj \<Rightarrow> inbound_good lib (lo_inbound obj) \<and> lo_id obj = lo_id c \<and> lo_config obj = lo_config c
          \<and> ((\<forall>t. le_listen env t) \<longrightarrow> inbound_Listen lib True (lo_inbound c) = Inr (lo_inbound obj)))"

lemma restore_closed_ok:
  assumes ok: "\<forall>t. le_close env t" and r: "restore_closed lib env cs reg = (errs, reg')"
    and d: "distinct (map fst cs)" "\<forall>n \<in> fst ` set cs. mget (rg_listeners reg) n = None"
  shows "(\<forall>n. n \<notin> fst ` set cs \<longrightarrow> mget (rg_listeners reg') n = mget (rg_listeners reg) n
            \<and> (n \<in> set (rg_unusable reg') \<longleftrightarrow> n \<in> set (rg_unusable reg)))
    \<and> (\<forall>(n, c) \<in> set cs. comeback lib env c (mget (rg_listeners reg') n)) \<and> set (rg_unusable reg') \<subseteq> set (rg_unusable reg)
    \<and> (mkeys_ok (rg_listeners reg) \<longrightarrow> mkeys_ok (rg_listeners reg'))"
  using r d
proof (induction cs arbitrary: reg errs)
  case (Cons p cs)
  obtain n c where p: "p = (n, c)" by (cases p)
  have n: "n \<notin> fst ` set cs" "mget (rg_listeners reg) n = None" using Cons.prems by (auto simp: p)
  obtain l reg1 where l: "obj_Listen lib env c reg = (l, reg1)" by fastforce
  then have reg1: "rg_listeners reg1 = rg_listeners reg" "rg_unusable reg1 = rg_unusable reg" by (auto simp: obj_Listen_def)
  show ?case
  proof (cases l)
    case (Inl e)
    then obtain errs' where r': "restore_closed lib env cs (reg1\<lparr>rg_tick := rg_tick reg1 + 1\<rparr>) = (errs', reg')"
      using Cons.prems(1) l n by (auto simp: p obj_Close_ok [OF ok] split: prod.splits)
    have d': "\<forall>m \<in> fst ` set cs. mget (rg_listeners (reg1\<lparr>rg_tick := rg_tick reg1 + 1\<rparr>)) m = None"
      using Cons.prems(3) reg1 by (simp add: p)
    have dist: "distinct (map fst cs)" using Cons.prems(2) by (simp add: p)
    note IH = Cons.IH [OF r' dist d']
    have "comeback lib env c None" using l Inl by (auto simp: comeback_def obj_Listen_def map_inr_def split: sum.splits)
    moreover have "mget (rg_listeners reg') n = None" using conjunct1 [OF IH, rule_format, OF n(1)] n(2) reg1 by simp
    ultimately have here: "comeback lib env c (mget (rg_listeners reg') n)" by simp
    from IH have frame: "\<And>m. m \<notin> fst ` set cs \<Longrightarrow> mget (rg_listeners reg') m = mget (rg_listeners reg) m
        \<and> (m \<in> set (rg_unusable reg') \<longleftrightarrow> m \<in> set (rg_unusable reg))"
      and rest: "\<forall>(m, c) \<in> set cs. comeback lib env c (mget (rg_listeners reg') m)"
      and sub: "set (rg_unusable reg') \<subseteq> set (rg_unusable reg)" "mkeys_ok (rg_listeners reg) \<longrightarrow> mkeys_ok (rg_listeners reg')"
      by (simp_all add: reg1)
    show ?thesis using here rest sub frame by (simp add: p) 
  next
    case (Inr obj)
    have r: "restore_closed lib env cs (register n obj reg1) = (errs, reg')"
      using Cons.prems(1) l n Inr by (auto simp: p)
    have d': "\<forall>m \<in> fst ` set cs. mget (rg_listeners (register n obj reg1)) m = None"
      using Cons.prems(3) n reg1 by (auto simp: p register_def)
    have dist: "distinct (map fst cs)" using Cons.prems(2) by (simp add: p)
    note IH = Cons.IH [OF r dist d']
    have "inbound_Listen lib (le_listen env (rg_tick reg)) (lo_inbound c) = Inr (lo_inbound obj)"
      using l Inr by (auto simp: obj_Listen_def)
    with obj_Listen_good [of lib env c reg obj reg1] l Inr have "comeback lib env c (Some obj)"
      by (simp add: comeback_def) metis
    moreover have "mget (rg_listeners reg') n = Some obj" using conjunct1 [OF IH, rule_format, OF n(1)] by (simp add: register_def)
    ultimately show ?thesis using IH reg1 by (auto simp: p register_def gm.invar_update)
  qed
qed auto

text \<open>Rolling back, seen from the registry as it was after closing.\<close>

lemma rollback_ok:
  assumes ok: "\<forall>t. le_close env t" and r: "rollback lib env started closed cause reg = (errs, reg')"
    and d: "distinct (map fst closed)" "\<forall>n \<in> fst ` set closed \<union> fst ` set started. mget (rg_listeners reg) n = None"
  shows "(\<forall>n. n \<notin> fst ` set closed \<longrightarrow> mget (rg_listeners reg') n = mget (rg_listeners reg) n)
    \<and> (\<forall>(n, c) \<in> set closed. comeback lib env c (mget (rg_listeners reg') n))
    \<and> set (rg_unusable reg') \<subseteq> set (rg_unusable reg) \<and> set (rg_unusable reg) - fst ` set started - fst ` set closed \<subseteq> set (rg_unusable reg')
    \<and> (mkeys_ok (rg_listeners reg) \<longrightarrow> mkeys_ok (rg_listeners reg'))"
proof -
  obtain e1 reg1 where c: "close_started env (rev started) reg = (e1, reg1)" by fastforce
  obtain e2 where rc: "restore_closed lib env closed reg1 = (e2, reg')"
    using r c by (auto simp: rollback_def split: prod.splits)
  note c' = close_started_ok [OF ok c]
  have l1: "mget (rg_listeners reg1) = mget (rg_listeners reg)" using c'(1) d(2) by (auto simp: fun_eq_iff)
  have "\<forall>n \<in> fst ` set closed. mget (rg_listeners reg1) n = None" using d(2) by (simp add: l1)
  from restore_closed_ok [OF ok rc d(1) this] c' show ?thesis by (auto simp: l1)
qed

lemma rollback_errs: "cause \<noteq> [] \<Longrightarrow> fst (rollback lib env started closed cause reg) \<noteq> []"
  by (simp add: rollback_def case_prod_unfold Let_def)

lemma register_all:
  "mget (rg_listeners (foldl (\<lambda>reg (nam, obj). register nam obj reg) reg ps)) = mget (rg_listeners reg) ++ mget (rev ps)"
  "set (rg_unusable (foldl (\<lambda>reg (nam, obj). register nam obj reg) reg ps)) = set (rg_unusable reg) - fst ` set ps"
  "mkeys_ok (rg_listeners reg) \<Longrightarrow> mkeys_ok (rg_listeners (foldl (\<lambda>reg (nam, obj). register nam obj reg) reg ps))"
  by (induction ps arbitrary: reg) (auto simp: register_def gm.invar_update)

subsection \<open>The patches\<close>

lemma distinct_concat_keys:
  assumes "distinct ks" "\<And>k. length (g k) \<le> 1" "\<And>k p. p \<in> set (g k) \<Longrightarrow> fst p = k"
  shows "distinct (map fst (concat (map g ks)))"
  using assms(1)
proof (induction ks)
  case (Cons k ks)
  have "distinct (map fst (g k))" using assms(2) [of k] by (cases "g k") auto
  moreover have "set (map fst (concat (map g js))) \<subseteq> set js" for js using assms(3) by fastforce
  moreover have "set (map fst (g k)) \<subseteq> {k}" using assms(3) by fastforce
  ultimately show ?case using Cons by (simp add: disjoint_iff) blast
qed simp

lemma in_concat_keys:
  assumes "\<And>k p. p \<in> set (g k) \<Longrightarrow> fst p = k"
  shows "(n, v) \<in> set (concat (map g ks)) \<longleftrightarrow> n \<in> set ks \<and> (n, v) \<in> set (g n)"
proof
  assume "(n, v) \<in> set (concat (map g ks))"
  then obtain k where "k \<in> set ks" "(n, v) \<in> set (g k)" by auto
  with assms [of "(n, v)" k] show "n \<in> set ks \<and> (n, v) \<in> set (g n)" by simp
qed auto

lemma mget_key: "mget m n = Some v \<Longrightarrow> n \<in> fst ` set m"
  using map_of_SomeD [of m n v] by force

lemma stopped_patches:
  assumes "mkeys_ok (rg_listeners reg)"
  shows "distinct (map fst (stopped_patches newMap dropOld reg))"
    "(n, old) \<in> set (stopped_patches newMap dropOld reg) \<longleftrightarrow> mget (rg_listeners reg) n = Some old
       \<and> (case mget newMap n of Some new \<Rightarrow> \<not> reusable reg n old new | None \<Rightarrow> dropOld)"
proof -
  show "distinct (map fst (stopped_patches newMap dropOld reg))" unfolding stopped_patches_def
    using assms by (intro distinct_concat_keys) (auto split: option.splits if_splits)
  show "(n, old) \<in> set (stopped_patches newMap dropOld reg) \<longleftrightarrow> mget (rg_listeners reg) n = Some old
       \<and> (case mget newMap n of Some new \<Rightarrow> \<not> reusable reg n old new | None \<Rightarrow> dropOld)"
    unfolding stopped_patches_def
    by (subst in_concat_keys) (auto simp: mget_key split: option.splits if_splits)
qed

lemma replacement_patches:
  assumes "mkeys_ok newMap"
  shows "distinct (map fst (replacement_patches newMap reg))"
    "(n, new) \<in> set (replacement_patches newMap reg) \<longleftrightarrow> mget newMap n = Some new
       \<and> (case mget (rg_listeners reg) n of Some old \<Rightarrow> \<not> reusable reg n old new | None \<Rightarrow> True)"
proof -
  show "distinct (map fst (replacement_patches newMap reg))" unfolding replacement_patches_def
    using assms by (intro distinct_concat_keys) (auto split: option.splits if_splits)
  show "(n, new) \<in> set (replacement_patches newMap reg) \<longleftrightarrow> mget newMap n = Some new
       \<and> (case mget (rg_listeners reg) n of Some old \<Rightarrow> \<not> reusable reg n old new | None \<Rightarrow> True)"
    unfolding replacement_patches_def
    by (subst in_concat_keys) (auto simp: mget_key split: option.splits if_splits)
qed

definition registry_ok :: "inbound_lib \<Rightarrow> registry \<Rightarrow> bool" where
  "registry_ok lib reg \<longleftrightarrow> mkeys_ok (rg_listeners reg) \<and>
     (\<forall>n obj. mget (rg_listeners reg) n = Some obj \<and> n \<notin> set (rg_unusable reg) \<longrightarrow> inbound_good lib (lo_inbound obj))"

text \<open>Either the patch went through, or it failed while starting the replacements and was rolled back.\<close>

lemma patch_cases:
  assumes ok: "\<forall>t. le_close env t" and reg: "mkeys_ok (rg_listeners reg)" and new: "mkeys_ok newMap"
    and p: "PatchInboundListeners lib env newMap dropOld reg = (errs, reg')"
  obtains reg1 err started where
    "mget (rg_listeners reg1) = (\<lambda>n. if n \<in> fst ` set (stopped_patches newMap dropOld reg) then None else mget (rg_listeners reg) n)"
    "set (rg_unusable reg1) = set (rg_unusable reg) - fst ` set (stopped_patches newMap dropOld reg)"
    "mkeys_ok (rg_listeners reg1)"
    "fst ` set started \<subseteq> fst ` set (replacement_patches newMap reg)"
    "if errs = [] then reg' = foldl (\<lambda>reg (nam, obj). register nam obj reg) reg1 started
        \<and> map (\<lambda>(n, obj). (n, lo_id obj, lo_config obj)) started = map (\<lambda>(n, obj). (n, lo_id obj, lo_config obj)) (replacement_patches newMap reg)
        \<and> list_all (\<lambda>(n, obj). inbound_good lib (lo_inbound obj)) started
     else rollback lib env started (map (map_prod id shut) (stopped_patches newMap dropOld reg)) err reg1 = (errs, reg')"
proof -
  obtain e1 closed reg0 where c: "close_stopped env (stopped_patches newMap dropOld reg) reg = (e1, closed, reg0)" by (metis prod_cases3)
  note c' = close_stopped_ok [OF ok c]
  obtain err started reg1 where s: "start_replacements lib env [] (replacement_patches newMap reg) reg0 = (err, started, reg1)" by (metis prod_cases3)
  note s' = start_replacements_frame [OF s]
  have r: "(errs, reg') = (if err \<noteq> [] then rollback lib env started closed err reg1
      else ([], foldl (\<lambda>reg (nam, obj). register nam obj reg) reg1 started))"
    using p c c'(1) s by (simp add: PatchInboundListeners_def)
  show ?thesis
  proof (rule that [of reg1 started err])
    show "mget (rg_listeners reg1) = (\<lambda>n. if n \<in> fst ` set (stopped_patches newMap dropOld reg) then None else mget (rg_listeners reg) n)"
      "set (rg_unusable reg1) = set (rg_unusable reg) - fst ` set (stopped_patches newMap dropOld reg)" "mkeys_ok (rg_listeners reg1)"
      using c'(3,4) c'(5) [OF reg] s' by simp_all
    show "fst ` set started \<subseteq> fst ` set (replacement_patches newMap reg)" using s' by simp
    show "if errs = [] then reg' = foldl (\<lambda>reg (nam, obj). register nam obj reg) reg1 started
        \<and> map (\<lambda>(n, obj). (n, lo_id obj, lo_config obj)) started = map (\<lambda>(n, obj). (n, lo_id obj, lo_config obj)) (replacement_patches newMap reg)
        \<and> list_all (\<lambda>(n, obj). inbound_good lib (lo_inbound obj)) started
     else rollback lib env started (map (map_prod id shut) (stopped_patches newMap dropOld reg)) err reg1 = (errs, reg')"
    proof (cases "err = []")
      case True
      with r s' show ?thesis by simp
    next
      case False
      with r have "rollback lib env started closed err reg1 = (errs, reg')" by simp
      with rollback_errs [OF False, of lib env started closed reg1] c'(2) show ?thesis by simp
    qed
  qed
qed

lemma map_of_rev_triples:
  assumes "map (\<lambda>(n, obj). (n, lo_id obj, lo_config obj)) ps = map (\<lambda>(n, obj). (n, lo_id obj, lo_config obj)) qs"
    "distinct (map fst qs)"
  shows "fst ` set ps = fst ` set qs"
    "(n, q) \<in> set qs \<Longrightarrow> \<exists>obj. mget (rev ps) n = Some obj \<and> (n, obj) \<in> set ps \<and> lo_id obj = lo_id q \<and> lo_config obj = lo_config q"
proof -
  have fst: "map fst ps = map fst qs"
    using arg_cong [OF assms(1), of "map fst"] by (simp add: comp_def case_prod_unfold)
  then show "fst ` set ps = fst ` set qs" by (metis list.set_map)
  assume "(n, q) \<in> set qs"
  then have "(n, lo_id q, lo_config q) \<in> set (map (\<lambda>(n, obj). (n, lo_id obj, lo_config obj)) ps)"
    unfolding assms(1) by force
  then obtain obj where obj: "(n, obj) \<in> set ps" "lo_id obj = lo_id q" "lo_config obj = lo_config q" by auto
  have "distinct (map fst (rev ps))" using assms(2) fst by (simp add: rev_map [symmetric])
  with obj show "\<exists>obj. mget (rev ps) n = Some obj \<and> (n, obj) \<in> set ps \<and> lo_id obj = lo_id q \<and> lo_config obj = lo_config q"
    by (intro exI [of _ obj]) simp
qed

lemma patch_success_frame:
  assumes ok: "\<forall>t. le_close env t" and rk: "mkeys_ok (rg_listeners reg)" and new: "mkeys_ok newMap"
    and p: "PatchInboundListeners lib env newMap dropOld reg = ([], reg')"
  shows "mkeys_ok (rg_listeners reg')"
    "set (rg_unusable reg') = set (rg_unusable reg) - fst ` set (stopped_patches newMap dropOld reg) - fst ` set (replacement_patches newMap reg)"
    "m \<notin> fst ` set (replacement_patches newMap reg) \<Longrightarrow> mget (rg_listeners reg') m
       = (if m \<in> fst ` set (stopped_patches newMap dropOld reg) then None else mget (rg_listeners reg) m)"
    "(m, q) \<in> set (replacement_patches newMap reg) \<Longrightarrow>
       \<exists>obj. mget (rg_listeners reg') m = Some obj \<and> lo_config obj = lo_config q \<and> inbound_good lib (lo_inbound obj)"
proof -
  obtain reg1 err started where
    r1: "mget (rg_listeners reg1) = (\<lambda>n. if n \<in> fst ` set (stopped_patches newMap dropOld reg) then None else mget (rg_listeners reg) n)"
      "set (rg_unusable reg1) = set (rg_unusable reg) - fst ` set (stopped_patches newMap dropOld reg)" "mkeys_ok (rg_listeners reg1)"
    and r: "if [] = ([] :: registry_err list) then reg' = foldl (\<lambda>reg (nam, obj). register nam obj reg) reg1 started
        \<and> map (\<lambda>(n, obj). (n, lo_id obj, lo_config obj)) started = map (\<lambda>(n, obj). (n, lo_id obj, lo_config obj)) (replacement_patches newMap reg)
        \<and> list_all (\<lambda>(n, obj). inbound_good lib (lo_inbound obj)) started
     else rollback lib env started (map (map_prod id shut) (stopped_patches newMap dropOld reg)) err reg1 = ([], reg')"
    by (rule patch_cases [OF ok rk new p])
  have r': "reg' = foldl (\<lambda>reg (nam, obj). register nam obj reg) reg1 started"
      "map (\<lambda>(n, obj). (n, lo_id obj, lo_config obj)) started = map (\<lambda>(n, obj). (n, lo_id obj, lo_config obj)) (replacement_patches newMap reg)"
      "list_all (\<lambda>(n, obj). inbound_good lib (lo_inbound obj)) started"
    using r by simp_all
  note tr = map_of_rev_triples [OF r'(2) replacement_patches(1) [OF new]]
  have l: "mget (rg_listeners reg') = mget (rg_listeners reg1) ++ mget (rev started)"
    unfolding r'(1) by (rule register_all)
  show "mkeys_ok (rg_listeners reg')"
    "set (rg_unusable reg') = set (rg_unusable reg) - fst ` set (stopped_patches newMap dropOld reg) - fst ` set (replacement_patches newMap reg)"
    unfolding r'(1) using register_all(2,3) [of reg1 started] r1(2,3) tr(1) by simp_all
  show "mget (rg_listeners reg') m = (if m \<in> fst ` set (stopped_patches newMap dropOld reg) then None else mget (rg_listeners reg) m)"
    if "m \<notin> fst ` set (replacement_patches newMap reg)"
  proof -
    have "mget (rev started) m = None" using that tr(1) by (simp add: map_of_eq_None_iff)
    then show ?thesis by (simp add: l map_add_def r1(1))
  qed
  show "\<exists>obj. mget (rg_listeners reg') m = Some obj \<and> lo_config obj = lo_config q \<and> inbound_good lib (lo_inbound obj)"
    if i: "(m, q) \<in> set (replacement_patches newMap reg)"
  proof -
    obtain obj where "mget (rev started) m = Some obj" "(m, obj) \<in> set started" "lo_config obj = lo_config q"
      using tr(2) [OF i] by auto
    with r'(3) show ?thesis by (auto simp: l map_add_def list_all_iff)
  qed
qed

lemma patch_success:
  assumes ok: "\<forall>t. le_close env t" and reg: "registry_ok lib reg" and new: "mkeys_ok newMap"
    and p: "PatchInboundListeners lib env newMap dropOld reg = ([], reg')"
  shows "registry_ok lib reg'"
    "case mget newMap n of
       None \<Rightarrow> mget (rg_listeners reg') n = (if dropOld then None else mget (rg_listeners reg) n)
     | Some new \<Rightarrow> n \<notin> set (rg_unusable reg') \<and> (\<exists>obj. mget (rg_listeners reg') n = Some obj \<and> lo_config obj = lo_config new \<and> serving (lo_inbound obj))"
proof -
  have rk: "mkeys_ok (rg_listeners reg)" using reg by (simp add: registry_ok_def)
  note st = stopped_patches [OF rk] and rp = replacement_patches [OF new] and f = patch_success_frame [OF ok rk new p]
  have "inbound_good lib (lo_inbound obj)" if a: "mget (rg_listeners reg') m = Some obj" "m \<notin> set (rg_unusable reg')" for m obj
  proof (cases "m \<in> fst ` set (replacement_patches newMap reg)")
    case True
    with f(4) a show ?thesis by force
  next
    case False
    with a f(3) [OF False] have "mget (rg_listeners reg) m = Some obj" "m \<notin> set (rg_unusable reg)"
      by (auto simp: f(2) split: if_splits)
    with reg show ?thesis by (simp add: registry_ok_def)
  qed
  then show "registry_ok lib reg'" using f(1) by (auto simp: registry_ok_def)
  show "case mget newMap n of
       None \<Rightarrow> mget (rg_listeners reg') n = (if dropOld then None else mget (rg_listeners reg) n)
     | Some new \<Rightarrow> n \<notin> set (rg_unusable reg') \<and> (\<exists>obj. mget (rg_listeners reg') n = Some obj \<and> lo_config obj = lo_config new \<and> serving (lo_inbound obj))"
  proof (cases "mget newMap n")
    case None
    then have "n \<notin> fst ` set (replacement_patches newMap reg)" using rp(2) by force
    from f(3) [OF this] None st(2) [of n] show ?thesis by (cases "mget (rg_listeners reg) n") force+
  next
    case (Some q)
    show ?thesis
    proof (cases "\<exists>old. mget (rg_listeners reg) n = Some old \<and> reusable reg n old q")
      case True
      then obtain old where old: "mget (rg_listeners reg) n = Some old" "reusable reg n old q" by blast
      then have "n \<notin> fst ` set (replacement_patches newMap reg)" "n \<notin> fst ` set (stopped_patches newMap dropOld reg)"
        using rp(2) st(2) Some by force+
      with f(3) old Some reg show ?thesis by (auto simp: f(2) reusable_def registry_ok_def inbound_good_def)
    next
      case False
      then have i: "(n, q) \<in> set (replacement_patches newMap reg)" using rp(2) Some by (auto split: option.splits)
      with f(4) [OF i] Some show ?thesis by (force simp: f(2) inbound_good_def)
    qed
  qed
qed

lemma patch_failure_frame:
  assumes ok: "\<forall>t. le_close env t" and rk: "mkeys_ok (rg_listeners reg)" and new: "mkeys_ok newMap"
    and p: "PatchInboundListeners lib env newMap dropOld reg = (errs, reg')" and e: "errs \<noteq> []"
  shows "(m, old) \<in> set (stopped_patches newMap dropOld reg) \<Longrightarrow> comeback lib env (shut old) (mget (rg_listeners reg') m)"
    "m \<notin> fst ` set (stopped_patches newMap dropOld reg) \<Longrightarrow> mget (rg_listeners reg') m = mget (rg_listeners reg) m"
    "m \<notin> fst ` set (stopped_patches newMap dropOld reg) \<Longrightarrow>
       m \<in> set (rg_unusable reg') \<or> mget (rg_listeners reg) m = None \<or> m \<notin> set (rg_unusable reg)"
    "mkeys_ok (rg_listeners reg')"
proof -
  note st = stopped_patches [OF rk, where newMap = newMap and dropOld = dropOld] and rp = replacement_patches [OF new]
  let ?S = "stopped_patches newMap dropOld reg"
  obtain reg1 err started where
    r1: "mget (rg_listeners reg1) = (\<lambda>n. if n \<in> fst ` set ?S then None else mget (rg_listeners reg) n)"
      "set (rg_unusable reg1) = set (rg_unusable reg) - fst ` set ?S" "mkeys_ok (rg_listeners reg1)"
      "fst ` set started \<subseteq> fst ` set (replacement_patches newMap reg)"
    and r: "if errs = [] then reg' = foldl (\<lambda>reg (nam, obj). register nam obj reg) reg1 started
        \<and> map (\<lambda>(n, obj). (n, lo_id obj, lo_config obj)) started = map (\<lambda>(n, obj). (n, lo_id obj, lo_config obj)) (replacement_patches newMap reg)
        \<and> list_all (\<lambda>(n, obj). inbound_good lib (lo_inbound obj)) started
     else rollback lib env started (map (map_prod id shut) ?S) err reg1 = (errs, reg')"
    by (rule patch_cases [OF ok rk new p])
  have fst: "fst ` set (map (map_prod id shut) ?S) = fst ` set ?S" by force
  have absent: "mget (rg_listeners reg1) m = None" if "m \<in> fst ` set (replacement_patches newMap reg)" for m
    using that rp(2) [of m] st(2) [of m] by (force simp: r1(1) split: option.splits)
  have rb: "rollback lib env started (map (map_prod id shut) ?S) err reg1 = (errs, reg')" using r e by simp
  have d: "distinct (map fst (map (map_prod id shut) ?S))" using st(1) by (simp add: comp_def)
  have none: "\<forall>m \<in> fst ` set (map (map_prod id shut) ?S) \<union> fst ` set started. mget (rg_listeners reg1) m = None"
  proof
    fix m assume "m \<in> fst ` set (map (map_prod id shut) ?S) \<union> fst ` set started"
    then consider "m \<in> fst ` set ?S" | "m \<in> fst ` set (replacement_patches newMap reg)" using r1(4) unfolding fst by blast
    then show "mget (rg_listeners reg1) m = None" by cases (simp add: r1(1), rule absent)
  qed
  note f = rollback_ok [OF ok rb d none, unfolded fst]
  show "comeback lib env (shut old) (mget (rg_listeners reg') m)" if "(m, old) \<in> set ?S"
  proof -
    have "map_prod id shut (m, old) \<in> set (map (map_prod id shut) ?S)" unfolding set_map by (rule imageI [OF that])
    from bspec [OF f [THEN conjunct2, THEN conjunct1] this] show ?thesis by simp
  qed
  show "mget (rg_listeners reg') m = mget (rg_listeners reg) m" if "m \<notin> fst ` set ?S"
    using f [THEN conjunct1, rule_format, OF that] that by (simp add: r1(1))
  show "m \<in> set (rg_unusable reg') \<or> mget (rg_listeners reg) m = None \<or> m \<notin> set (rg_unusable reg)" if out: "m \<notin> fst ` set ?S"
  proof -
    have "set (rg_unusable reg1) - fst ` set started - fst ` set ?S \<subseteq> set (rg_unusable reg')" using f by blast
    moreover have "mget (rg_listeners reg) m = None" if "m \<in> fst ` set started"
      using absent [of m] that r1(4) out by (auto simp: r1(1))
    ultimately show ?thesis using out r1(2) by blast
  qed
  show "mkeys_ok (rg_listeners reg')" using f r1(3) by simp
qed

lemma patch_failure:
  assumes ok: "\<forall>t. le_close env t" and reg: "registry_ok lib reg" and new: "mkeys_ok newMap"
    and p: "PatchInboundListeners lib env newMap dropOld reg = (errs, reg')" and e: "errs \<noteq> []"
  shows "registry_ok lib reg'"
    "mget (rg_listeners reg') n = Some obj \<Longrightarrow> \<exists>old. mget (rg_listeners reg) n = Some old \<and> lo_id obj = lo_id old \<and> lo_config obj = lo_config old"
    "\<forall>t. le_listen env t \<Longrightarrow> rg_unusable reg = [] \<Longrightarrow> mget (rg_listeners reg) n = Some old \<Longrightarrow>
       \<exists>obj. mget (rg_listeners reg') n = Some obj \<and> CurrentManagedUsers (lo_inbound obj) = CurrentManagedUsers (lo_inbound old)"
proof -
  have rk: "mkeys_ok (rg_listeners reg)" using reg by (simp add: registry_ok_def)
  let ?S = "stopped_patches newMap dropOld reg"
  note st = stopped_patches [OF rk, where newMap = newMap and dropOld = dropOld]
  note returned = patch_failure_frame(1) [OF ok rk new p e] and kept = patch_failure_frame(2,3) [OF ok rk new p e]
  show "\<exists>old. mget (rg_listeners reg) n = Some old \<and> lo_id obj = lo_id old \<and> lo_config obj = lo_config old"
    if "mget (rg_listeners reg') n = Some obj" for n obj
  proof (cases "n \<in> fst ` set ?S")
    case True
    then obtain old where "(n, old) \<in> set ?S" by force
    with returned [OF this] that st(2) [of n old] show ?thesis by (auto simp: comeback_def)
  qed (use kept that in auto)
  have "inbound_good lib (lo_inbound obj)" if a: "mget (rg_listeners reg') m = Some obj" "m \<notin> set (rg_unusable reg')" for m obj
  proof (cases "m \<in> fst ` set ?S")
    case True
    then obtain old where "(m, old) \<in> set ?S" by force
    with returned [OF this] a show ?thesis by (auto simp: comeback_def)
  next
    case False
    with kept [OF False] a reg show ?thesis by (auto simp: registry_ok_def)
  qed
  then show "registry_ok lib reg'" using patch_failure_frame(4) [OF ok rk new p e] by (auto simp: registry_ok_def)
  show "\<exists>obj. mget (rg_listeners reg') n = Some obj \<and> CurrentManagedUsers (lo_inbound obj) = CurrentManagedUsers (lo_inbound old)"
    if a: "\<forall>t. le_listen env t" "rg_unusable reg = []" "mget (rg_listeners reg) n = Some old" for n old
  proof (cases "n \<in> fst ` set ?S")
    case True
    then have i: "(n, old) \<in> set ?S" using a(3) st(2) by force
    have "inbound_good lib (lo_inbound old)" using reg a(2,3) by (simp add: registry_ok_def)
    from inbound_restart [OF this] returned [OF i] a(1) show ?thesis
      by (auto simp: comeback_def shut_def split: option.splits)
  qed (use kept a in auto)
qed

subsection \<open>Properties\<close>


definition demo_inbound_lib :: inbound_lib where
  "demo_inbound_lib = \<lparr>il_vless = demo_vless_lib, il_sha256 = id\<rparr>"

definition demo_vless_user :: VlessUser where
  "demo_vless_user = \<lparr>vu_Username = ''alice'', vu_UUID = ''0123456789abcdef'', vu_Flow = []\<rparr>"

definition demo_obj :: listener_obj where
  "demo_obj = \<lparr>lo_id = 1, lo_config = ''vless-in'', lo_inbound = VlessInbound (NewVless [demo_vless_user])\<rparr>"

definition all_well :: listen_env where
  "all_well = \<lparr>le_listen = (\<lambda>_. True), le_close = (\<lambda>_. True)\<rparr>"

definition no_listeners :: registry where
  "no_listeners = \<lparr>rg_listeners = [], rg_unusable = [], rg_tick = 0\<rparr>"

definition demo_serving :: listener_obj where
  "demo_serving = demo_obj\<lparr>lo_inbound := VlessInbound ((NewVless [demo_vless_user])\<lparr>vi_l := Some (install_users
     [(''0123456789abcdef'', \<lparr>cr_user = ''alice'', cr_flow = []\<rparr>)] NewService)\<rparr>)\<rparr>"

definition demo_registry :: registry where
  "demo_registry = \<lparr>rg_listeners = [(''in'', demo_serving)], rg_unusable = [], rg_tick = 1\<rparr>"

lemma demo_listen: "inbound_Listen demo_inbound_lib True (lo_inbound demo_obj) = Inr (lo_inbound demo_serving)"
  by (simp add: demo_obj_def demo_serving_def NewVless_def vless_ConfiguredUsers_def vless_Listen_def sing_vless_New_def
      listener_UpdateUsers_def UpdateUsers_def user_map_def add_user_def UUIDMap_def demo_inbound_lib_def demo_vless_lib_def demo_uuid_lib_def
      vlessManagedUsers_def principal_def demo_vless_user_def NewService_def)

lemma demo_patch: "PatchInboundListeners demo_inbound_lib all_well [(''in'', demo_obj)] True no_listeners = ([], demo_registry)"
proof -
  have "demo_obj\<lparr>lo_inbound := lo_inbound demo_serving\<rparr> = demo_serving" by (simp add: demo_serving_def)
  then show ?thesis using demo_listen
    by (simp add: PatchInboundListeners_def stopped_patches_def replacement_patches_def no_listeners_def obj_Listen_def all_well_def
        register_def demo_registry_def)
qed


text \<open>
  A listener whose \<^verbatim>\<open>Close\<close> reports an error has stopped all the same. It stays registered without being
  marked, and a later patch with the same configuration takes it for a healthy one.
\<close>

definition close_fails :: listen_env where
  "close_fails = \<lparr>le_listen = (\<lambda>_. True), le_close = (\<lambda>t. t \<noteq> 1)\<rparr>"

lemma patch_close_failure:
  "let (errs, reg) = PatchInboundListeners demo_inbound_lib close_fails [] True demo_registry;
       (errs', reg') = PatchInboundListeners demo_inbound_lib all_well [(''in'', demo_obj)] True reg in
     errs = [InboundErr CloseFailed] \<and> errs' = [] \<and> rg_unusable reg' = []
   \<and> (\<exists>obj. mget (rg_listeners reg') ''in'' = Some obj \<and> \<not> serving (lo_inbound obj))"
  by (simp add: PatchInboundListeners_def stopped_patches_def replacement_patches_def demo_registry_def obj_Close_def close_fails_def
      demo_serving_def vless_Close_def rollback_def reusable_def demo_obj_def vless_installed_def)

end
