(* ===== verification/Aster_Traffic.thy ===== *)
theory Aster_Traffic
  imports Go_Bytes
begin

section \<open>Aster: counting traffic\<close>

text \<open>
  \<^verbatim>\<open>component/aster/traffic.go\<close>: goroutines record traffic into the counters of the current runtime
  without a lock. A word counts the recorders inside and its top bit closes admission, so that a
  runtime that is replaced can wait for them. The theory has the atomic operations of \<^verbatim>\<open>RecordTraffic\<close>,
  \<^verbatim>\<open>retireRecorders\<close> and \<^verbatim>\<open>Flush\<close> as steps of a transition system in which any number of goroutines
  interleave; \<open>ts_log\<close> is a ghost that lists the additions made. The counters of one user stand for all.
\<close>

unbundle bit_operations_syntax

subsection \<open>Saturating counters\<close>

text \<open>The value \<^verbatim>\<open>addTraffic\<close> tries to swap in.\<close>

definition addTraffic_next :: "int64 \<Rightarrow> int64 \<Rightarrow> int64" where
  "addTraffic_next current v = (if sint current > max_int64 - sint v then word_of_int max_int64 else current + v)"

lemma addTraffic_next:
  assumes "0 \<le> sint cur" "0 \<le> sint v"
  shows "sint (addTraffic_next cur v) = min max_int64 (sint cur + sint v)"
proof (cases "sint cur > max_int64 - sint v")
  case True
  moreover have "sint (word_of_int max_int64 :: int64) = max_int64"
    by (simp add: signed_of_int signed_take_bit_int_eq_self)
  ultimately show ?thesis by (simp add: addTraffic_next_def)
next
  case False
  then have "sint (cur + v) = sint cur + sint v"
    using assms by (simp add: sint_word_add signed_take_bit_int_eq_self)
  with False show ?thesis by (simp add: addTraffic_next_def)
qed

subsection \<open>The word of recorders\<close>

definition runtimeRetiring :: "64 word" where
  "runtimeRetiring = push_bit 63 1"

text \<open>The number of recorders inside, and the bit that closes admission.\<close>

definition recorders_word :: "nat \<Rightarrow> bool \<Rightarrow> 64 word" where
  "recorders_word n retired = word_of_nat n + (if retired then runtimeRetiring else 0)"

lemma retiring_bit: "w AND runtimeRetiring = 0 \<longleftrightarrow> \<not> bit w 63"
proof -
  have "runtimeRetiring = 2 ^ 63" by (simp add: runtimeRetiring_def push_bit_eq_mult)
  then show ?thesis using and_exp_eq_0_iff_not_bit [of w 63] by simp
qed

lemma unat_recorders:
  assumes "n < 2 ^ 63"
  shows "unat (recorders_word n retired) = n + (if retired then 2 ^ 63 else 0)"
proof -
  have "recorders_word n retired = word_of_nat (n + (if retired then 2 ^ 63 else 0))"
    by (simp add: recorders_word_def runtimeRetiring_def push_bit_eq_mult)
  then have "unat (recorders_word n retired) = take_bit 64 (n + (if retired then 2 ^ 63 else 0))"
    by (simp only: unsigned_of_nat) simp
  also have "\<dots> = n + (if retired then 2 ^ 63 else 0)"
    using assms by (intro take_bit_nat_eq_self) simp
  finally show ?thesis .
qed

lemma recorders_bit:
  assumes "n < 2 ^ 63"
  shows "bit (recorders_word n retired) 63 \<longleftrightarrow> retired"
proof -
  have "bit (recorders_word n retired) 63 \<longleftrightarrow> bit (unat (recorders_word n retired)) 63"
    by (simp add: bit_unsigned_iff)
  also have "\<dots> \<longleftrightarrow> odd ((n + (if retired then 2 ^ 63 else 0)) div 2 ^ 63)"
    by (simp only: unat_recorders [OF assms] bit_iff_odd)
  also have "\<dots> \<longleftrightarrow> retired"
    using assms div_add_self2 [of "2 ^ 63 :: nat" n] div_less [OF assms] by (auto simp del: div_less)
  finally show ?thesis .
qed

lemma recorders_retired:
  "n < 2 ^ 63 \<Longrightarrow> recorders_word n retired AND runtimeRetiring = 0 \<longleftrightarrow> \<not> retired"
  by (simp add: retiring_bit recorders_bit)

lemma recorders_eq_retiring:
  assumes "n < 2 ^ 63"
  shows "recorders_word n retired = runtimeRetiring \<longleftrightarrow> retired \<and> n = 0"
proof
  assume "recorders_word n retired = runtimeRetiring"
  then have "unat (recorders_word n retired) = unat (recorders_word 0 True)" by (simp add: recorders_word_def)
  with assms show "retired \<and> n = 0"
    using unat_recorders [OF assms, of retired] unat_recorders [of 0 True] by (auto split: if_splits)
qed (simp add: recorders_word_def)

lemma recorders_eq_zero: "n < 2 ^ 63 \<Longrightarrow> recorders_word n retired = 0 \<longleftrightarrow> \<not> retired \<and> n = 0"
  using unat_recorders [of n retired] by (metis add_is_0 power_not_zero unat_0 unat_eq_zero zero_neq_numeral)

lemma recorders_Suc: "recorders_word n retired + 1 = recorders_word (Suc n) retired"
  by (simp add: recorders_word_def)

lemma recorders_pred: "0 < n \<Longrightarrow> recorders_word n retired + (NOT 0) = recorders_word (n - 1) retired"
  by (simp add: recorders_word_def minus_eq_not_minus_1 [symmetric] of_nat_diff)

lemma recorders_or: "n < 2 ^ 63 \<Longrightarrow> recorders_word n False OR runtimeRetiring = recorders_word n True"
  using recorders_retired [of n False] by (simp add: recorders_word_def disjunctive_add_eq_or)

subsection \<open>Recorders, the flusher and the retiring of a runtime\<close>

datatype traffic_dir = Up | Down

text \<open>
  Where a call of \<^verbatim>\<open>RecordTraffic\<close> is: outside; inside with additions to make; between the load and
  the swap of \<^verbatim>\<open>addTraffic\<close>; looking at the dirty flag; about to set it; about to leave, which is also
  where a refused recorder is; and about to close the channel because it was the last to leave.
\<close>

datatype recorder =
    Idle
  | Holding "(traffic_dir \<times> int64) list"
  | Loaded int64 traffic_dir int64 "(traffic_dir \<times> int64) list"
  | Marking
  | SetDirty
  | Releasing
  | Closing

datatype retirer = Running | RLoaded "64 word" | RClosing | Waiting | Retired | Synced

datatype flusher = FIdle | FSync traffic_dir

record traffic_sys =
  ts_recorders :: "64 word"
  ts_drained :: bool
  ts_upload :: int64
  ts_download :: int64
  ts_dirty :: bool
  ts_threads :: "recorder list"
  ts_retire :: retirer
  ts_flush :: flusher
  ts_storeUp :: int64
  ts_storeDown :: int64
  ts_log :: "(traffic_dir \<times> int64) list"

definition counter :: "traffic_dir \<Rightarrow> traffic_sys \<Rightarrow> int64" where
  "counter d s = (case d of Up \<Rightarrow> ts_upload s | Down \<Rightarrow> ts_download s)"

definition set_counter :: "traffic_dir \<Rightarrow> int64 \<Rightarrow> traffic_sys \<Rightarrow> traffic_sys" where
  "set_counter d v s = (case d of Up \<Rightarrow> s\<lparr>ts_upload := v\<rparr> | Down \<Rightarrow> s\<lparr>ts_download := v\<rparr>)"

definition stored :: "traffic_dir \<Rightarrow> traffic_sys \<Rightarrow> int64" where
  "stored d s = (case d of Up \<Rightarrow> ts_storeUp s | Down \<Rightarrow> ts_storeDown s)"

definition additions :: "int64 \<Rightarrow> int64 \<Rightarrow> (traffic_dir \<times> int64) list" where
  "additions upload download =
     (if sint upload > 0 then [(Up, upload)] else []) @ (if sint download > 0 then [(Down, download)] else [])"

definition goto :: "nat \<Rightarrow> recorder \<Rightarrow> traffic_sys \<Rightarrow> traffic_sys" where
  "goto t p s = s\<lparr>ts_threads := (ts_threads s)[t := p]\<rparr>"

text \<open>
  One atomic action of thread \<open>t\<close>: each case performs at most one atomic operation on a shared variable.
  \<open>arrive\<close> is what an idle thread is asked to record, or nothing when the user is unknown to the runtime.
\<close>

definition recorder_step :: "(int64 \<times> int64) option \<Rightarrow> nat \<Rightarrow> traffic_sys \<Rightarrow> traffic_sys" where
  "recorder_step arrive t s =
     (case ts_threads s ! t of
        Idle \<Rightarrow>
          let w = ts_recorders s + 1; s = s\<lparr>ts_recorders := w\<rparr> in
          if w AND runtimeRetiring = 0
          then goto t (case arrive of None \<Rightarrow> Releasing | Some (u, d) \<Rightarrow> Holding (additions u d)) s
          else goto t Releasing s
      | Holding ((d, v) # r) \<Rightarrow> goto t (Loaded (counter d s) d v r) s
      | Holding [] \<Rightarrow> goto t Marking s
      | Loaded current d v r \<Rightarrow>
          if counter d s = current
          then goto t (Holding r) ((set_counter d (addTraffic_next current v) s)\<lparr>ts_log := ts_log s @ [(d, v)]\<rparr>)
          else goto t (Holding ((d, v) # r)) s
      | Marking \<Rightarrow> goto t (if ts_dirty s then Releasing else SetDirty) s
      | SetDirty \<Rightarrow> goto t Releasing (s\<lparr>ts_dirty := True\<rparr>)
      | Releasing \<Rightarrow>
          let w = ts_recorders s + (NOT 0); s = s\<lparr>ts_recorders := w\<rparr> in
          goto t (if w = runtimeRetiring then Closing else Idle) s
      | Closing \<Rightarrow> goto t Idle (s\<lparr>ts_drained := True\<rparr>))"

text \<open>The goroutine that replaces the runtime: it retires the recorders and then synchronizes the store.\<close>

definition retire_step :: "traffic_sys \<Rightarrow> traffic_sys" where
  "retire_step s =
     (case ts_retire s of
        Running \<Rightarrow> s\<lparr>ts_retire := (if ts_recorders s AND runtimeRetiring \<noteq> 0 then Waiting else RLoaded (ts_recorders s))\<rparr>
      | RLoaded w \<Rightarrow>
          if ts_recorders s = w
          then s\<lparr>ts_recorders := w OR runtimeRetiring, ts_retire := (if w = 0 then RClosing else Waiting)\<rparr>
          else s\<lparr>ts_retire := Running\<rparr>
      | RClosing \<Rightarrow> s\<lparr>ts_drained := True, ts_retire := Waiting\<rparr>
      | Waiting \<Rightarrow> if ts_drained s then s\<lparr>ts_retire := Retired\<rparr> else s
      | Retired \<Rightarrow> s\<lparr>ts_storeUp := ts_upload s, ts_storeDown := ts_download s, ts_retire := Synced\<rparr>
      | Synced \<Rightarrow> s)"

text \<open>A flush: the flag is cleared and then the counters are copied, one after the other.\<close>

definition flush_step :: "traffic_sys \<Rightarrow> traffic_sys" where
  "flush_step s =
     (case ts_flush s of
        FIdle \<Rightarrow> if ts_dirty s then s\<lparr>ts_dirty := False, ts_flush := FSync Up\<rparr> else s
      | FSync Up \<Rightarrow> s\<lparr>ts_storeUp := ts_upload s, ts_flush := FSync Down\<rparr>
      | FSync Down \<Rightarrow> s\<lparr>ts_storeDown := ts_download s, ts_flush := FIdle\<rparr>)"

inductive traffic_step :: "traffic_sys \<Rightarrow> traffic_sys \<Rightarrow> bool" where
  by_recorder: "t < length (ts_threads s) \<Longrightarrow> traffic_step s (recorder_step arrive t s)"
| by_retirer: "traffic_step s (retire_step s)"
| by_flusher: "traffic_step s (flush_step s)"

definition traffic_init :: "nat \<Rightarrow> int64 \<Rightarrow> int64 \<Rightarrow> traffic_sys" where
  "traffic_init n up down =
     \<lparr>ts_recorders = 0, ts_drained = False, ts_upload = up, ts_download = down, ts_dirty = False,
      ts_threads = replicate n Idle, ts_retire = Running, ts_flush = FIdle,
      ts_storeUp = up, ts_storeDown = down, ts_log = []\<rparr>"

subsection \<open>Invariants\<close>

fun inside :: "recorder \<Rightarrow> bool" where
  "inside Idle = False"
| "inside Closing = False"
| "inside _ = True"

fun busy :: "recorder \<Rightarrow> bool" where
  "busy (Holding _) = True"
| "busy (Loaded _ _ _ _) = True"
| "busy Marking = True"
| "busy SetDirty = True"
| "busy _ = False"

definition retired :: "traffic_sys \<Rightarrow> bool" where
  "retired s \<longleftrightarrow> ts_retire s \<in> {RClosing, Waiting, Retired, Synced}"

definition inside_count :: "recorder list \<Rightarrow> nat" where
  "inside_count ts = length (filter inside ts)"

definition drain_inv :: "traffic_sys \<Rightarrow> bool" where
  "drain_inv s \<longleftrightarrow>
     length (ts_threads s) < 2 ^ 63
   \<and> ts_recorders s = recorders_word (inside_count (ts_threads s)) (retired s)
   \<and> (ts_drained s \<or> Closing \<in> set (ts_threads s) \<or> ts_retire s = RClosing
       \<longrightarrow> retired s \<and> (\<forall>p \<in> set (ts_threads s). \<not> busy p))
   \<and> (retired s \<and> inside_count (ts_threads s) = 0
       \<longrightarrow> ts_drained s \<or> Closing \<in> set (ts_threads s) \<or> ts_retire s = RClosing)
   \<and> (ts_retire s \<in> {Retired, Synced} \<longrightarrow> ts_drained s)"

lemma inside_count_update:
  "t < length ts \<Longrightarrow> inside_count (ts[t := p]) + (if inside (ts ! t) then 1 else 0)
     = inside_count ts + (if inside p then 1 else 0)"
proof (induction ts arbitrary: t)
  case (Cons q ts)
  then show ?case by (cases t) (auto simp: inside_count_def)
qed simp

lemma inside_count_le: "inside_count ts \<le> length ts"
  by (simp add: inside_count_def)

lemma busy_inside: "busy p \<Longrightarrow> inside p"
  by (cases p) auto

lemma inside_zero: "inside_count ts = 0 \<Longrightarrow> p \<in> set ts \<Longrightarrow> \<not> busy p"
  by (auto simp: inside_count_def filter_empty_conv dest: busy_inside)

lemma set_update_cases: "x \<in> set (xs[i := y]) \<Longrightarrow> x = y \<or> x \<in> set xs"
  using set_update_subset_insert [of xs i y] by blast

lemma goto_simps [simp]:
  "ts_threads (goto t p s) = (ts_threads s)[t := p]" "ts_recorders (goto t p s) = ts_recorders s"
  "ts_retire (goto t p s) = ts_retire s" "ts_drained (goto t p s) = ts_drained s" "ts_dirty (goto t p s) = ts_dirty s"
  "ts_flush (goto t p s) = ts_flush s" "ts_log (goto t p s) = ts_log s" "counter d (goto t p s) = counter d s"
  "stored d (goto t p s) = stored d s"
  by (simp_all add: goto_def counter_def stored_def split: traffic_dir.split)

lemma set_counter_simps [simp]:
  "ts_threads (set_counter d v s) = ts_threads s" "ts_recorders (set_counter d v s) = ts_recorders s"
  "ts_retire (set_counter d v s) = ts_retire s" "ts_drained (set_counter d v s) = ts_drained s"
  "ts_dirty (set_counter d v s) = ts_dirty s" "ts_flush (set_counter d v s) = ts_flush s"
  "ts_log (set_counter d v s) = ts_log s" "stored e (set_counter d v s) = stored e s"
  "counter e (set_counter d v s) = (if e = d then v else counter e s)"
  by (cases d; cases e; simp add: set_counter_def counter_def stored_def)+

lemma drain_inv_cong:
  assumes "drain_inv s" "ts_threads s' = ts_threads s" "ts_recorders s' = ts_recorders s" "ts_drained s' = ts_drained s"
    "ts_retire s' = ts_retire s"
  shows "drain_inv s'"
  using assms by (simp add: drain_inv_def retired_def)

lemma in_set_update_keep:
  assumes "x \<in> set xs" "xs ! i \<noteq> x"
  shows "x \<in> set (xs[i := y])"
proof -
  obtain j where j: "j < length xs" "xs ! j = x" using assms(1) by (auto simp: in_set_conv_nth)
  with assms(2) have "xs[i := y] ! j = x" by (metis nth_list_update_neq)
  with j(1) show ?thesis by (metis length_list_update nth_mem)
qed

lemma drain_inv_local:
  assumes inv: "drain_inv s" and t: "t < length (ts_threads s)" and io: "inside p = inside (ts_threads s ! t)"
    and b: "busy p \<Longrightarrow> busy (ts_threads s ! t)" and c: "p \<noteq> Closing" "ts_threads s ! t \<noteq> Closing"
  shows "drain_inv (goto t p s)"
proof -
  have count: "inside_count ((ts_threads s)[t := p]) = inside_count (ts_threads s)"
    using inside_count_update [OF t, of p] io by (simp split: if_splits)
  have closing: "Closing \<in> set ((ts_threads s)[t := p]) \<longleftrightarrow> Closing \<in> set (ts_threads s)"
    using c by (auto dest: set_update_cases intro: in_set_update_keep)
  have busy: "\<not> busy q" if "\<forall>q \<in> set (ts_threads s). \<not> busy q" "q \<in> set ((ts_threads s)[t := p])" for q
    using that b t by (auto dest!: set_update_cases)
  show ?thesis
    using inv busy by (simp add: drain_inv_def retired_def count closing)
qed

lemma enter_inv:
  assumes inv: "drain_inv s" and t: "t < length (ts_threads s)" and idle: "ts_threads s ! t = Idle"
    and w: "w = ts_recorders s + 1"
    and p: "inside p" "p \<noteq> Closing" "w AND runtimeRetiring \<noteq> 0 \<Longrightarrow> \<not> busy p"
  shows "drain_inv (goto t p (s\<lparr>ts_recorders := w\<rparr>))"
proof -
  let ?ts = "ts_threads s"
  have count: "inside_count (?ts[t := p]) = Suc (inside_count ?ts)"
    using inside_count_update [OF t, of p] idle p(1) by simp
  have "Suc (inside_count ?ts) < 2 ^ 63"
    using count inside_count_le [of "?ts[t := p]"] inv by (simp add: drain_inv_def)
  moreover have w': "w = recorders_word (Suc (inside_count ?ts)) (retired s)"
    using inv w by (simp add: drain_inv_def recorders_Suc)
  ultimately have bit: "w AND runtimeRetiring = 0 \<longleftrightarrow> \<not> retired s" by (simp add: recorders_retired)
  have closing: "Closing \<in> set (?ts[t := p]) \<Longrightarrow> Closing \<in> set ?ts" using p(2) by (auto dest: set_update_cases)
  have busy: "\<not> busy q" if "retired s" "\<forall>q \<in> set ?ts. \<not> busy q" "q \<in> set (?ts[t := p])" for q
    using that p(3) bit by (auto dest!: set_update_cases)
  show ?thesis
    using inv w' count closing busy by (auto simp: drain_inv_def retired_def)
qed

lemma leave_inv:
  assumes inv: "drain_inv s" and t: "t < length (ts_threads s)" and rel: "ts_threads s ! t = Releasing"
    and w: "w = ts_recorders s + (NOT 0)" and p: "p = (if w = runtimeRetiring then Closing else Idle)"
  shows "drain_inv (goto t p (s\<lparr>ts_recorders := w\<rparr>))"
proof -
  let ?ts = "ts_threads s"
  have "\<not> inside p" by (simp add: p)
  then have count: "inside_count ?ts = Suc (inside_count (?ts[t := p]))"
    using inside_count_update [OF t, of p] rel by simp
  have less: "inside_count (?ts[t := p]) < 2 ^ 63"
    using inside_count_le [of "?ts[t := p]"] inv by (simp add: drain_inv_def)
  have w': "w = recorders_word (inside_count (?ts[t := p])) (retired s)"
    using inv w recorders_pred [of "inside_count ?ts" "retired s"] count by (simp add: drain_inv_def)
  have last: "w = runtimeRetiring \<longleftrightarrow> retired s \<and> inside_count (?ts[t := p]) = 0"
    unfolding w' by (rule recorders_eq_retiring [OF less])
  have busy: "\<not> busy q" if "\<forall>q \<in> set ?ts. \<not> busy q" "q \<in> set (?ts[t := p])" for q
    using that p by (auto dest!: set_update_cases split: if_splits)
  have closing: "Closing \<in> set (?ts[t := p]) \<longleftrightarrow> w = runtimeRetiring \<or> Closing \<in> set ?ts"
    using p t rel by (auto dest: set_update_cases intro: in_set_update_keep set_update_memI split: if_splits)
  have zero: "\<forall>q \<in> set (?ts[t := p]). \<not> busy q" if "w = runtimeRetiring"
    using last that inside_zero by blast
  have inv': "ts_drained s \<or> Closing \<in> set ?ts \<or> ts_retire s = RClosing \<Longrightarrow> retired s \<and> (\<forall>q \<in> set ?ts. \<not> busy q)"
    using inv by (simp add: drain_inv_def)
  show ?thesis
    unfolding drain_inv_def
  proof (intro conjI)
    show "ts_drained (goto t p (s\<lparr>ts_recorders := w\<rparr>)) \<or> Closing \<in> set (ts_threads (goto t p (s\<lparr>ts_recorders := w\<rparr>)))
        \<or> ts_retire (goto t p (s\<lparr>ts_recorders := w\<rparr>)) = RClosing
      \<longrightarrow> retired (goto t p (s\<lparr>ts_recorders := w\<rparr>)) \<and> (\<forall>q \<in> set (ts_threads (goto t p (s\<lparr>ts_recorders := w\<rparr>))). \<not> busy q)"
      using inv' closing last zero busy by (auto simp: retired_def)
    show "retired (goto t p (s\<lparr>ts_recorders := w\<rparr>)) \<and> inside_count (ts_threads (goto t p (s\<lparr>ts_recorders := w\<rparr>))) = 0
      \<longrightarrow> ts_drained (goto t p (s\<lparr>ts_recorders := w\<rparr>)) \<or> Closing \<in> set (ts_threads (goto t p (s\<lparr>ts_recorders := w\<rparr>)))
        \<or> ts_retire (goto t p (s\<lparr>ts_recorders := w\<rparr>)) = RClosing"
      using closing last by (auto simp: retired_def)
  qed (use inv w' in \<open>simp_all add: drain_inv_def retired_def\<close>)
qed

lemma close_inv:
  assumes inv: "drain_inv s" and t: "t < length (ts_threads s)" and cl: "ts_threads s ! t = Closing"
  shows "drain_inv (goto t Idle (s\<lparr>ts_drained := True\<rparr>))"
proof -
  let ?ts = "ts_threads s"
  have "inside_count (?ts[t := Idle]) = inside_count ?ts" using inside_count_update [OF t, of Idle] cl by simp
  moreover have "Closing \<in> set ?ts" using cl t by (metis nth_mem)
  moreover have "\<not> busy q" if "\<forall>q \<in> set ?ts. \<not> busy q" "q \<in> set (?ts[t := Idle])" for q
    using that by (auto dest!: set_update_cases)
  ultimately show ?thesis using inv by (simp add: drain_inv_def retired_def)
qed

lemma recorder_drain_inv:
  assumes inv: "drain_inv s" and t: "t < length (ts_threads s)"
  shows "drain_inv (recorder_step arrive t s)"
proof (cases "ts_threads s ! t")
  case Idle
  then show ?thesis
    by (auto simp: recorder_step_def Let_def split: option.split prod.split intro!: enter_inv [OF inv t Idle refl])
next
  case (Holding as)
  show ?thesis
  proof (cases as)
    case Nil
    with Holding show ?thesis by (auto simp: recorder_step_def intro!: drain_inv_local [OF inv t])
  next
    case (Cons a as')
    with Holding show ?thesis by (cases a) (auto simp: recorder_step_def intro!: drain_inv_local [OF inv t])
  qed
next
  case (Loaded cur d v r)
  show ?thesis
  proof (cases "counter d s = cur")
    case True
    have "drain_inv (goto t (Holding r) s)" using Loaded by (auto intro!: drain_inv_local [OF inv t])
    then have "drain_inv (goto t (Holding r) ((set_counter d (addTraffic_next cur v) s)\<lparr>ts_log := ts_log s @ [(d, v)]\<rparr>))"
      by (rule drain_inv_cong) simp_all
    with Loaded True show ?thesis by (simp add: recorder_step_def)
  next
    case False
    with Loaded show ?thesis by (auto simp: recorder_step_def intro!: drain_inv_local [OF inv t])
  qed
next
  case SetDirty
  have "drain_inv (goto t Releasing s)" using SetDirty by (auto intro!: drain_inv_local [OF inv t])
  then have "drain_inv (goto t Releasing (s\<lparr>ts_dirty := True\<rparr>))" by (rule drain_inv_cong) simp_all
  with SetDirty show ?thesis by (simp add: recorder_step_def)
next
  case Releasing
  with leave_inv [OF inv t Releasing refl refl] show ?thesis by (simp add: recorder_step_def Let_def)
next
  case Closing
  with close_inv [OF inv t Closing] show ?thesis by (simp add: recorder_step_def)
qed (auto simp: recorder_step_def intro!: drain_inv_local [OF inv t])

lemma retire_drain_inv:
  assumes inv: "drain_inv s"
  shows "drain_inv (retire_step s)"
proof (cases "ts_retire s")
  case (RLoaded w)
  let ?n = "inside_count (ts_threads s)"
  have n: "?n < 2 ^ 63" using inv inside_count_le [of "ts_threads s"] by (simp add: drain_inv_def)
  have no: "\<not> retired s" using RLoaded by (simp add: retired_def)
  show ?thesis
  proof (cases "ts_recorders s = w")
    case True
    with inv no have w: "w = recorders_word ?n False" by (simp add: drain_inv_def)
    have z: "w = 0 \<longleftrightarrow> ?n = 0" unfolding w using recorders_eq_zero [OF n, of False] by simp
    have "w OR runtimeRetiring = recorders_word ?n True" unfolding w by (rule recorders_or [OF n])
    with inv no True RLoaded z inside_zero show ?thesis
      by (auto simp: drain_inv_def retire_step_def retired_def)
  next
    case False
    with inv RLoaded show ?thesis by (auto simp: drain_inv_def retire_step_def retired_def)
  qed
next
  case Running
  have n: "inside_count (ts_threads s) < 2 ^ 63" using inv inside_count_le [of "ts_threads s"] by (simp add: drain_inv_def)
  have "ts_recorders s AND runtimeRetiring = 0"
    using inv recorders_retired [OF n, of False] Running by (simp add: drain_inv_def retired_def)
  with inv Running show ?thesis by (auto simp: drain_inv_def retire_step_def retired_def)
qed (use inv in \<open>auto simp: drain_inv_def retire_step_def retired_def\<close>)

lemma flush_drain_inv: "drain_inv s \<Longrightarrow> drain_inv (flush_step s)"
  by (erule drain_inv_cong) (simp_all add: flush_step_def split: flusher.split traffic_dir.split)

lemma drain_step: "traffic_step s s' \<Longrightarrow> drain_inv s \<Longrightarrow> drain_inv s'"
  by (induction rule: traffic_step.induct) (auto intro: recorder_drain_inv retire_drain_inv flush_drain_inv)

subsection \<open>No addition is lost\<close>

fun to_add :: "recorder \<Rightarrow> (traffic_dir \<times> int64) list" where
  "to_add (Holding r) = r"
| "to_add (Loaded _ d v r) = (d, v) # r"
| "to_add _ = []"

definition positive :: "(traffic_dir \<times> int64) list \<Rightarrow> bool" where
  "positive r \<longleftrightarrow> (\<forall>(d, v) \<in> set r. 0 < sint v)"

definition added :: "traffic_dir \<Rightarrow> (traffic_dir \<times> int64) list \<Rightarrow> int" where
  "added d r = (\<Sum>(e, v) \<leftarrow> r. if e = d then sint v else 0)"

definition saturated :: "int \<Rightarrow> int" where
  "saturated n = min max_int64 n"

definition sum_inv :: "(traffic_dir \<Rightarrow> int64) \<Rightarrow> traffic_sys \<Rightarrow> bool" where
  "sum_inv start s \<longleftrightarrow> (\<forall>p \<in> set (ts_threads s). positive (to_add p)) \<and> positive (ts_log s)
     \<and> (\<forall>d. sint (counter d s) = saturated (sint (start d) + added d (ts_log s)))"

lemma added_simps [simp]: "added d [] = 0" "added d (r @ q) = added d r + added d q"
  "added d [(e, v)] = (if e = d then sint v else 0)"
  by (simp_all add: added_def)

lemma added_nonneg: "positive r \<Longrightarrow> 0 \<le> added d r"
  by (induction r) (auto simp: positive_def added_def)

lemma additions_positive: "positive (additions u d)"
  by (auto simp: positive_def additions_def)

lemma positive_simps [simp]: "positive []" "positive (x # r) \<longleftrightarrow> 0 < sint (snd x) \<and> positive r"
  "positive (r @ q) \<longleftrightarrow> positive r \<and> positive q"
  by (auto simp: positive_def)

lemma saturated_step:
  assumes "sint cur = saturated n" "0 \<le> n" "0 < sint v"
  shows "sint (addTraffic_next cur v) = saturated (n + sint v)"
  using assms addTraffic_next [of cur v] by (simp add: saturated_def)

lemma sum_inv_goto:
  assumes "sum_inv start s" "positive (to_add p)" "ts_threads s' = (ts_threads s)[t := p]" "ts_log s' = ts_log s"
    "\<And>d. counter d s' = counter d s"
  shows "sum_inv start s'"
  using assms by (auto simp: sum_inv_def dest!: set_update_cases)

lemma counter_fields [simp]:
  "counter d (s\<lparr>ts_recorders := w\<rparr>) = counter d s" "counter d (s\<lparr>ts_dirty := b\<rparr>) = counter d s"
  "counter d (s\<lparr>ts_drained := b\<rparr>) = counter d s" "counter d (s\<lparr>ts_log := l\<rparr>) = counter d s"
  "counter d (s\<lparr>ts_flush := f\<rparr>) = counter d s" "counter d (s\<lparr>ts_retire := r\<rparr>) = counter d s"
  "counter d (s\<lparr>ts_storeUp := x\<rparr>) = counter d s" "counter d (s\<lparr>ts_storeDown := x\<rparr>) = counter d s"
  by (cases d; simp add: counter_def)+

lemma stored_fields [simp]:
  "stored d (s\<lparr>ts_recorders := w\<rparr>) = stored d s" "stored d (s\<lparr>ts_dirty := b\<rparr>) = stored d s"
  "stored d (s\<lparr>ts_drained := b\<rparr>) = stored d s" "stored d (s\<lparr>ts_log := l\<rparr>) = stored d s"
  "stored d (s\<lparr>ts_flush := f\<rparr>) = stored d s" "stored d (s\<lparr>ts_retire := r\<rparr>) = stored d s"
  by (cases d; simp add: stored_def)+

lemma recorder_sum_inv:
  assumes inv: "sum_inv start s" and t: "t < length (ts_threads s)" and start: "\<And>d. 0 \<le> sint (start d)"
  shows "sum_inv start (recorder_step arrive t s)"
proof -
  have pos: "positive (to_add (ts_threads s ! t))" using inv t by (simp add: sum_inv_def)
  show ?thesis
  proof (cases "\<exists>cur d v r. ts_threads s ! t = Loaded cur d v r \<and> counter d s = cur")
    case True
    then obtain d v r where l: "ts_threads s ! t = Loaded (counter d s) d v r" by blast
    have v: "0 < sint v" "positive r" using pos l by auto
    have "0 \<le> sint (start d) + added d (ts_log s)" using start [of d] added_nonneg [of "ts_log s" d] inv by (simp add: sum_inv_def)
    then have "sint (addTraffic_next (counter d s) v) = saturated (sint (start d) + added d (ts_log s) + sint v)"
      using inv v by (intro saturated_step) (simp_all add: sum_inv_def)
    with inv v l show ?thesis
      by (auto simp: sum_inv_def recorder_step_def add.assoc dest!: set_update_cases)
  next
    case False
    show ?thesis
    proof (cases "ts_threads s ! t")
      case Idle
      then show ?thesis
        by (auto simp: recorder_step_def Let_def split: option.split prod.split intro!: sum_inv_goto [OF inv] additions_positive)
    next
      case (Holding as)
      with pos show ?thesis
        by (cases as) (auto simp: recorder_step_def intro!: sum_inv_goto [OF inv] split: prod.split)
    next
      case (Loaded cur d v r)
      with pos False show ?thesis by (auto simp: recorder_step_def intro!: sum_inv_goto [OF inv])
    qed (auto simp: recorder_step_def Let_def intro!: sum_inv_goto [OF inv])
  qed
qed

lemma other_sum_inv:
  assumes "sum_inv start s"
  shows "sum_inv start (retire_step s)" "sum_inv start (flush_step s)"
  using assms
  by (auto simp: sum_inv_def retire_step_def flush_step_def split: retirer.split flusher.split traffic_dir.split)

lemma sum_step:
  "traffic_step s s' \<Longrightarrow> sum_inv start s \<Longrightarrow> (\<And>d. 0 \<le> sint (start d)) \<Longrightarrow> sum_inv start s'"
  by (induction rule: traffic_step.induct) (auto intro: recorder_sum_inv other_sum_inv)

subsection \<open>Nothing unsaved goes unnoticed\<close>

definition copying :: "traffic_dir \<Rightarrow> flusher \<Rightarrow> bool" where
  "copying d f \<longleftrightarrow> f = FSync Up \<or> f = FSync Down \<and> d = Down"

definition dirty_inv :: "traffic_sys \<Rightarrow> bool" where
  "dirty_inv s \<longleftrightarrow> (\<forall>d. stored d s \<noteq> counter d s
     \<longrightarrow> ts_dirty s \<or> copying d (ts_flush s) \<or> (\<exists>p \<in> set (ts_threads s). busy p))"

lemma busy_keep:
  "(\<exists>q \<in> set ts. busy q) \<Longrightarrow> busy (ts ! t) \<longrightarrow> busy p \<Longrightarrow> t < length ts \<Longrightarrow> \<exists>q \<in> set (ts[t := p]). busy q"
  by (metis in_set_update_keep set_update_memI)

lemma recorder_dirty_inv:
  assumes inv: "dirty_inv s" and t: "t < length (ts_threads s)"
  shows "dirty_inv (recorder_step arrive t s)"
proof (cases "ts_threads s ! t")
  case (Loaded cur d v r)
  have "\<exists>q \<in> set ((ts_threads s)[t := p]). busy q" if "busy p" for p
    using that t by (metis set_update_memI)
  with Loaded show ?thesis by (auto simp: dirty_inv_def recorder_step_def)
next
  case (Holding as)
  have "\<exists>q \<in> set ((ts_threads s)[t := p]). busy q" if "busy p" for p
    using that t by (metis set_update_memI)
  with Holding show ?thesis by (cases as) (auto simp: dirty_inv_def recorder_step_def split: prod.split)
next
  case Marking
  have "\<exists>q \<in> set ((ts_threads s)[t := SetDirty]). busy q"
    using t by (metis busy.simps(4) set_update_memI)
  with Marking show ?thesis by (auto simp: dirty_inv_def recorder_step_def)
next
  case SetDirty
  then show ?thesis by (simp add: dirty_inv_def recorder_step_def)
next
  case Idle
  have "\<exists>q \<in> set ((ts_threads s)[t := p]). busy q" if "\<exists>q \<in> set (ts_threads s). busy q" for p
    using busy_keep [OF that _ t, of p] Idle by simp
  with Idle inv show ?thesis by (fastforce simp: dirty_inv_def recorder_step_def Let_def)
next
  case Releasing
  have "\<exists>q \<in> set ((ts_threads s)[t := p]). busy q" if "\<exists>q \<in> set (ts_threads s). busy q" for p
    using busy_keep [OF that _ t, of p] Releasing by simp
  with Releasing inv show ?thesis by (fastforce simp: dirty_inv_def recorder_step_def Let_def)
next
  case Closing
  have "\<exists>q \<in> set ((ts_threads s)[t := p]). busy q" if "\<exists>q \<in> set (ts_threads s). busy q" for p
    using busy_keep [OF that _ t, of p] Closing by simp
  with Closing inv show ?thesis by (fastforce simp: dirty_inv_def recorder_step_def Let_def)
qed

lemma flush_dirty_inv: "dirty_inv s \<Longrightarrow> dirty_inv (flush_step s)"
proof -
  assume inv: "dirty_inv s"
  show ?thesis
  proof (cases "ts_flush s")
    case FIdle
    with inv show ?thesis by (auto simp: dirty_inv_def flush_step_def copying_def)
  next
    case (FSync d)
    have "e = Up \<or> e = Down" for e by (cases e) auto
    with inv FSync show ?thesis
      by (cases d) (auto simp: dirty_inv_def flush_step_def copying_def stored_def counter_def split: traffic_dir.splits)
  qed
qed

lemma retire_dirty_inv: "dirty_inv s \<Longrightarrow> dirty_inv (retire_step s)"
  by (auto simp: dirty_inv_def retire_step_def stored_def counter_def split: retirer.split traffic_dir.splits)

lemma dirty_step: "traffic_step s s' \<Longrightarrow> dirty_inv s \<Longrightarrow> dirty_inv s'"
  by (induction rule: traffic_step.induct) (auto intro: recorder_dirty_inv retire_dirty_inv flush_dirty_inv)

subsection \<open>Properties\<close>

definition traffic_reach :: "traffic_sys \<Rightarrow> traffic_sys \<Rightarrow> bool" where
  "traffic_reach = traffic_step\<^sup>*\<^sup>*"

lemma reach_drain:
  assumes "n < 2 ^ 63" "traffic_reach (traffic_init n up down) s"
  shows "drain_inv s"
proof -
  have "drain_inv (traffic_init n up down)"
    using assms(1) by (auto simp: drain_inv_def traffic_init_def retired_def inside_count_def recorders_word_def)
  with assms(2) show ?thesis unfolding traffic_reach_def by (induction rule: rtranclp_induct) (auto intro: drain_step)
qed

lemma reach_sum:
  assumes "traffic_reach (traffic_init n up down) s" "0 \<le> sint up" "0 \<le> sint down"
  shows "sum_inv (case_traffic_dir up down) s"
proof -
  have start: "0 \<le> sint (case_traffic_dir up down d)" for d using assms(2,3) by (cases d) auto
  have sat: "sint x = saturated (sint x)" for x :: int64
    using sint_greater_eq [of x] sint_less [of x] by (simp add: saturated_def)
  have "sum_inv (case_traffic_dir up down) (traffic_init n up down)"
    using sat by (auto simp: sum_inv_def traffic_init_def counter_def split: traffic_dir.split)
  with assms(1) show ?thesis
    unfolding traffic_reach_def by (induction rule: rtranclp_induct) (auto intro: sum_step start)
qed

lemma reach_dirty:
  assumes "traffic_reach (traffic_init n up down) s"
  shows "dirty_inv s"
proof -
  have "dirty_inv (traffic_init n up down)"
    by (auto simp: dirty_inv_def traffic_init_def counter_def stored_def split: traffic_dir.split)
  with assms show ?thesis unfolding traffic_reach_def by (induction rule: rtranclp_induct) (auto intro: dirty_step)
qed


lemma demo_traffic_run:
  "traffic_reach (traffic_init 1 5 0) (foldl (\<lambda>s _. recorder_step (Some (7, 0)) 0 s) (traffic_init 1 5 0) [1::nat, 2, 3])"
proof -
  have one: "traffic_reach s (recorder_step (Some (7, 0)) 0 s)" if "0 < length (ts_threads s)" for s
    unfolding traffic_reach_def by (rule r_into_rtranclp) (rule by_recorder [OF that])
  have len: "length (ts_threads (recorder_step a t s)) = length (ts_threads s)" for a t s
    by (auto simp: recorder_step_def Let_def split: recorder.split list.split prod.split option.split)
  have "0 < length (ts_threads (traffic_init 1 5 0))" by (simp add: traffic_init_def)
  then show ?thesis
    unfolding foldl.simps using one len by (metis (no_types, lifting) traffic_reach_def rtranclp_trans)
qed


lemma recorder_step_retire [simp]: "ts_retire (recorder_step arrive t s) = ts_retire s"
  by (auto simp: recorder_step_def Let_def split: recorder.split list.split prod.split option.split)

lemma quiet_recorder:
  assumes "\<not> busy (ts_threads s ! t)"
  shows "ts_upload (recorder_step arrive t s) = ts_upload s \<and> ts_download (recorder_step arrive t s) = ts_download s
    \<and> ts_log (recorder_step arrive t s) = ts_log s"
  using assms by (cases "ts_threads s ! t") (simp_all add: recorder_step_def Let_def goto_def)

lemma retired_frozen:
  assumes inv: "drain_inv s" and st: "traffic_step s s'" and r: "ts_retire s \<in> {Retired, Synced}"
  shows "ts_retire s' \<in> {Retired, Synced} \<and> ts_upload s' = ts_upload s \<and> ts_download s' = ts_download s \<and> ts_log s' = ts_log s"
  using st
proof cases
  case (by_recorder t arrive)
  have "\<not> busy (ts_threads s ! t)" using inv r by_recorder by (auto simp: drain_inv_def)
  with by_recorder r quiet_recorder [OF this, of arrive] show ?thesis by simp
qed (use r in \<open>auto simp: retire_step_def flush_step_def split: flusher.split traffic_dir.split\<close>)

lemma frozen_reach:
  assumes "traffic_reach s s'" "drain_inv s" "ts_retire s \<in> {Retired, Synced}"
  shows "ts_retire s' \<in> {Retired, Synced} \<and> ts_upload s' = ts_upload s \<and> ts_download s' = ts_download s \<and> ts_log s' = ts_log s"
proof -
  have "drain_inv s' \<and> ts_retire s' \<in> {Retired, Synced} \<and> ts_upload s' = ts_upload s \<and> ts_download s' = ts_download s
      \<and> ts_log s' = ts_log s"
    using assms unfolding traffic_reach_def
  proof (induction rule: rtranclp_induct)
    case (step y z)
    then show ?case using retired_frozen [of y z] drain_step [of y z] by auto
  qed simp
  then show ?thesis by blast
qed


lemma retire_reach: "traffic_reach s ((retire_step ^^ k) s)"
  unfolding traffic_reach_def
  by (induction k) (auto intro: rtranclp.rtrancl_into_rtrancl by_retirer)


subsection \<open>Retiring always ends\<close>

text \<open>What a thread still has to do; nobody has to wait for anybody else to do it.\<close>

fun work :: "recorder \<Rightarrow> nat" where
  "work Idle = 0"
| "work Closing = 1"
| "work Releasing = 2"
| "work SetDirty = 3"
| "work Marking = 4"
| "work (Holding r) = 5 + 2 * length r"
| "work (Loaded _ _ _ r) = 8 + 2 * length r"

definition total_work :: "recorder list \<Rightarrow> nat" where
  "total_work ts = (\<Sum>p \<leftarrow> ts. work p)"

lemma total_work_update:
  "t < length ts \<Longrightarrow> work p < work (ts ! t) \<Longrightarrow> total_work (ts[t := p]) < total_work ts"
proof (induction ts arbitrary: t)
  case (Cons q ts)
  then show ?case by (cases t) (auto simp: total_work_def)
qed simp

lemma thread_progress:
  assumes t: "t < length (ts_threads s)" and work: "ts_threads s ! t \<noteq> Idle"
  shows "\<exists>s'. traffic_reach s s' \<and> ts_retire s' = ts_retire s \<and> length (ts_threads s') = length (ts_threads s)
    \<and> total_work (ts_threads s') < total_work (ts_threads s)"
proof -
  let ?step = "recorder_step None t"
  have one: "traffic_reach s (?step s)" unfolding traffic_reach_def by (rule r_into_rtranclp) (rule by_recorder [OF t])
  show ?thesis
  proof (cases "\<exists>d v r. ts_threads s ! t = Holding ((d, v) # r)")
    case True
    then obtain d v r where h: "ts_threads s ! t = Holding ((d, v) # r)" by blast
    then have s1: "?step s = goto t (Loaded (counter d s) d v r) s" by (simp add: recorder_step_def)
    have "traffic_step (?step s) (?step (?step s))" by (rule by_recorder) (simp add: s1 t)
    with one have "traffic_reach s (?step (?step s))" by (simp add: traffic_reach_def)
    moreover have "ts_threads (?step (?step s)) = (ts_threads s)[t := Holding r]"
      using t by (simp add: s1) (simp add: recorder_step_def)
    moreover have "total_work ((ts_threads s)[t := Holding r]) < total_work (ts_threads s)"
      using h by (intro total_work_update [OF t]) simp
    ultimately show ?thesis by (intro exI [of _ "?step (?step s)"]) simp
  next
    case False
    have "\<exists>p. ts_threads (?step s) = (ts_threads s)[t := p] \<and> work p < work (ts_threads s ! t)"
    proof (cases "ts_threads s ! t")
      case (Holding r)
      with False show ?thesis by (cases r) (auto simp: recorder_step_def intro!: exI [of _ Marking])
    next
      case (Loaded cur d v r)
      then show ?thesis by (auto simp: recorder_step_def intro: exI [of _ "Holding r"] exI [of _ "Holding ((d, v) # r)"])
    qed (use work in \<open>auto simp: recorder_step_def Let_def intro: exI [of _ Idle] exI [of _ Closing] exI [of _ Releasing] exI [of _ SetDirty]\<close>)
    then obtain p where "ts_threads (?step s) = (ts_threads s)[t := p]" "work p < work (ts_threads s ! t)" by blast
    with one total_work_update [OF t, of p] show ?thesis by (intro exI [of _ "?step s"]) simp
  qed
qed

lemma reach_trans: "traffic_reach s t \<Longrightarrow> traffic_reach t u \<Longrightarrow> traffic_reach s u"
  by (simp add: traffic_reach_def)

lemma threads_finish:
  "\<exists>s'. traffic_reach s s' \<and> ts_retire s' = ts_retire s \<and> length (ts_threads s') = length (ts_threads s)
     \<and> (\<forall>p \<in> set (ts_threads s'). p = Idle)"
proof (induction "total_work (ts_threads s)" arbitrary: s rule: less_induct)
  case less
  show ?case
  proof (cases "\<forall>p \<in> set (ts_threads s). p = Idle")
    case True
    then show ?thesis by (intro exI [of _ s]) (simp add: traffic_reach_def)
  next
    case False
    then obtain t where "t < length (ts_threads s)" "ts_threads s ! t \<noteq> Idle" by (auto simp: in_set_conv_nth)
    from thread_progress [OF this] obtain s1 where s1: "traffic_reach s s1" "ts_retire s1 = ts_retire s"
      "length (ts_threads s1) = length (ts_threads s)" "total_work (ts_threads s1) < total_work (ts_threads s)" by blast
    from less [OF s1(4)] obtain s2 where "traffic_reach s1 s2" "ts_retire s2 = ts_retire s1"
      "length (ts_threads s2) = length (ts_threads s1)" "\<forall>p \<in> set (ts_threads s2). p = Idle" by blast
    with s1 show ?thesis by (intro exI [of _ s2]) (auto intro: reach_trans)
  qed
qed

lemma idle_count: "\<forall>p \<in> set ts. p = Idle \<Longrightarrow> inside_count ts = 0"
  by (auto simp: inside_count_def filter_empty_conv)

lemma idle_drained:
  assumes "drain_inv s" "\<forall>p \<in> set (ts_threads s). p = Idle" "ts_retire s = Waiting"
  shows "ts_drained s"
  using assms idle_count [OF assms(2)] by (auto simp: drain_inv_def retired_def)

lemma idle_retires:
  assumes inv: "drain_inv s" and idle: "\<forall>p \<in> set (ts_threads s). p = Idle"
  shows "\<exists>k. ts_retire ((retire_step ^^ k) s) = Synced"
proof -
  have n: "inside_count (ts_threads s) = 0" by (rule idle_count [OF idle])
  have threads: "ts_threads ((retire_step ^^ k) s) = ts_threads s" for k
    by (induction k) (auto simp: retire_step_def split: retirer.split)
  have invk: "drain_inv ((retire_step ^^ k) s)" for k by (induction k) (auto intro: inv retire_drain_inv)
  have waiting: "\<exists>j. ts_retire ((retire_step ^^ j) s) = Synced" if "ts_retire ((retire_step ^^ k) s) = Waiting" for k
  proof -
    have "ts_drained ((retire_step ^^ k) s)" using idle_drained [OF invk [of k]] threads [of k] idle that by simp
    with that have "ts_retire ((retire_step ^^ (Suc (Suc k))) s) = Synced" by (simp add: retire_step_def)
    then show ?thesis by blast
  qed
  have rclosing: "\<exists>j. ts_retire ((retire_step ^^ j) s) = Synced" if "ts_retire ((retire_step ^^ k) s) = RClosing" for k
    using that waiting [of "Suc k"] by (simp add: retire_step_def)
  have running: "\<exists>j. ts_retire ((retire_step ^^ j) s) = Synced" if "ts_retire ((retire_step ^^ k) s) = Running" for k
  proof -
    let ?s = "(retire_step ^^ k) s"
    have "ts_recorders ?s = 0" using invk [of k] threads [of k] n that by (simp add: drain_inv_def retired_def recorders_word_def)
    with that have "ts_retire ((retire_step ^^ (Suc (Suc k))) s) = RClosing" by (simp add: retire_step_def)
    then show ?thesis by (rule rclosing)
  qed
  show ?thesis
  proof (cases "ts_retire s")
    case (RLoaded w)
    then have "ts_retire (retire_step s) \<in> {Running, RClosing, Waiting}" by (simp add: retire_step_def)
    then show ?thesis using running [of 1] rclosing [of 1] waiting [of 1] by auto
  next
    case Retired
    then show ?thesis by (intro exI [of _ 1]) (simp add: retire_step_def)
  next
    case Synced
    then show ?thesis by (intro exI [of _ 0]) simp
  qed (use running [of 0] rclosing [of 0] waiting [of 0] in auto)
qed

text \<open>
  C39. Retiring never hangs. From every state that can be reached the recorders can finish their calls,
  none waiting for another, and then \<^verbatim>\<open>retireRecorders\<close> returns and the store is synchronized; in
  particular a retirer that waits while no goroutine is inside has always been woken: the closing of
  the channel is never lost between the last recorder and the retirer.
\<close>

theorem retiring_never_hangs:
  assumes "n < 2 ^ 63" "traffic_reach (traffic_init n up down) s"
  shows "(\<exists>s'. traffic_reach s s' \<and> ts_retire s' = Synced)
    \<and> (ts_retire s = Waiting \<and> list_all (\<lambda>p. p = Idle) (ts_threads s) \<longrightarrow> ts_drained s)"
proof -
  obtain s1 where s1: "traffic_reach s s1" "\<forall>p \<in> set (ts_threads s1). p = Idle" using threads_finish [of s] by blast
  have "drain_inv s1" by (rule reach_drain [OF assms(1) reach_trans [OF assms(2) s1(1)]])
  from idle_retires [OF this s1(2)] obtain k where "ts_retire ((retire_step ^^ k) s1) = Synced" by blast
  with s1(1) retire_reach [of s1 k] have "\<exists>s'. traffic_reach s s' \<and> ts_retire s' = Synced" by (blast intro: reach_trans)
  with idle_drained [OF reach_drain [OF assms]] show ?thesis by (simp add: list_all_iff)
qed

theorem retiring_never_hangs_witness:
  "\<exists>s'. traffic_reach (traffic_init 3 0 0) s' \<and> ts_retire s' = Synced"
  using retiring_never_hangs [of 3 0 0 "traffic_init 3 0 0"] by (simp add: traffic_reach_def)

end
