(* ===== verification/Aster_Runtime.thy ===== *)
theory Aster_Runtime
  imports Aster_Store Inbound_Registry Aster_Traffic
begin

section \<open>Aster: the manager and its runtime\<close>

text \<open>
  The state of \<^verbatim>\<open>component/aster/manager.go\<close>, the runtime it publishes for readers that take no lock, the
  traffic counters and the index of users. The operations of the manager hold its lock, so each of
  them is one function on the state; the recording of traffic runs between them.
\<close>

subsection \<open>Data\<close>

record aster_config =
  acf_Secret :: string
  acf_PublicBaseURL :: string
  acf_StorePath :: string
  acf_ManagedListeners :: "string list"

text \<open>A string set is a list without repetitions; it is only ever read sorted or tested for membership.\<close>

record trafficCounter =
  tk_generation :: "64 word"
  tk_upload :: int64
  tk_download :: int64

record runtimeUser =
  ru_revision :: int64
  ru_user :: aster_user

record aster_runtime =
  art_secret :: string
  art_publicBaseURL :: string
  art_storePath :: string
  art_managed :: "string list"
  art_traffic :: "(string \<times> string, trafficCounter) gomap"
  art_users :: "(string, runtimeUser) gomap"
  art_subscriptions :: "(string, string) gomap"

record userLocation =
  loc_inbound :: string
  loc_index :: nat

text \<open>\<open>am_locked\<close>: the manager holds the lock of the store file (\<^verbatim>\<open>storeUnlock\<close>); \<open>am_flushing\<close>: the background flusher runs.\<close>

record aster_manager =
  am_config :: "aster_config option"
  am_store :: aster_store
  am_userIndex :: "(string, userLocation) gomap"
  am_storePath :: string
  am_locked :: bool
  am_instances :: "(string, nat) gomap"
  am_runtime :: aster_runtime
  am_dirty :: bool
  am_flushing :: bool

text \<open>
  The manager together with what it acts upon: the registered listeners and the store files by path.
  \<open>sy_tick\<close> numbers the events the environment decides.
\<close>

record aster_sys =
  sy_m :: aster_manager
  sy_reg :: registry
  sy_disks :: "string \<Rightarrow> store_disk"
  sy_tick :: nat

text \<open>What \<^verbatim>\<open>url.Parse\<close> tells about a URL; \<open>pu_User\<close> holds if there is user information.\<close>

record parsed_url =
  pu_Scheme :: string
  pu_Host :: string
  pu_User :: bool
  pu_RawQuery :: string
  pu_ForceQuery :: bool
  pu_Fragment :: string
  pu_Opaque :: string

record aster_env =
  ae_lib :: aster_lib
  ae_inbound :: inbound_lib
  ae_listen :: listen_env
  ae_save :: "nat \<Rightarrow> save_env"
  ae_now :: "nat \<Rightarrow> int64"
  ae_uuid :: "nat \<Rightarrow> string"
  ae_random :: "nat \<Rightarrow> string option"
  ae_parseURL :: "string \<Rightarrow> parsed_url option"

datatype manager_err =
    AErr aster_err
  | RErr registry_err
  | RollbackFailed
  | ProtocolChanged string
  | RandomFailed
  | NameLoop

definition newRuntimeState :: aster_runtime where
  "newRuntimeState = \<lparr>art_secret = [], art_publicBaseURL = [], art_storePath = [], art_managed = [], art_traffic = [],
     art_users = [], art_subscriptions = []\<rparr>"

definition aster_NewManager :: aster_manager where
  "aster_NewManager = \<lparr>am_config = None, am_store = newStore, am_userIndex = [], am_storePath = [], am_locked = False,
     am_instances = [], am_runtime = newRuntimeState, am_dirty = False, am_flushing = False\<rparr>"

subsection \<open>Traffic counters and the published runtime\<close>

definition sync_user :: "aster_runtime \<Rightarrow> string \<Rightarrow> aster_user \<Rightarrow> aster_user" where
  "sync_user rt inbound user =
     (case mget (art_traffic rt) (inbound, u_ID user) of
        None \<Rightarrow> user
      | Some ctr \<Rightarrow>
          if tk_generation ctr \<noteq> u_TrafficGeneration user then user
          else user\<lparr>u_UploadBytes := tk_upload ctr, u_DownloadBytes := tk_download ctr\<rparr>)"

definition syncTrafficStore :: "aster_runtime \<Rightarrow> aster_store \<Rightarrow> aster_store" where
  "syncTrafficStore rt store =
     store\<lparr>as_Listeners := map (\<lambda>(inbound, state). (inbound, state\<lparr>ls_Users := map (sync_user rt inbound) (ls_Users state)\<rparr>)) (as_Listeners store)\<rparr>"

definition syncTrafficLocked :: "aster_manager \<Rightarrow> aster_manager" where
  "syncTrafficLocked m = m\<lparr>am_store := syncTrafficStore (am_runtime m) (am_store m)\<rparr>"

definition counter_for :: "aster_runtime \<Rightarrow> string \<Rightarrow> string \<Rightarrow> aster_user \<Rightarrow> trafficCounter" where
  "counter_for previous storePath inbound user =
     (case (if art_storePath previous = storePath then mget (art_traffic previous) (inbound, u_ID user) else None) of
        Some ctr \<Rightarrow>
          if tk_generation ctr \<noteq> u_TrafficGeneration user
          then \<lparr>tk_generation = u_TrafficGeneration user, tk_upload = u_UploadBytes user, tk_download = u_DownloadBytes user\<rparr>
          else ctr
      | None \<Rightarrow> \<lparr>tk_generation = u_TrafficGeneration user, tk_upload = u_UploadBytes user, tk_download = u_DownloadBytes user\<rparr>)"

definition publish_user :: "aster_runtime \<Rightarrow> string \<Rightarrow> ListenerState \<Rightarrow> aster_runtime \<Rightarrow> aster_user \<Rightarrow> aster_runtime" where
  "publish_user previous inbound state rt user =
     (let ctr = counter_for previous (art_storePath rt) inbound user;
          rt = rt\<lparr>art_traffic := mset' (inbound, u_ID user) ctr (art_traffic rt)\<rparr> in
      if inbound \<in> set (art_managed rt)
      then rt\<lparr>art_users := mset' (u_ID user) \<lparr>ru_revision = ls_Revision state,
             ru_user = (if tk_generation ctr = u_TrafficGeneration user
                        then user\<lparr>u_UploadBytes := tk_upload ctr, u_DownloadBytes := tk_download ctr\<rparr> else user)\<rparr> (art_users rt)\<rparr>
      else rt)"

definition publish_listener :: "aster_runtime \<Rightarrow> aster_runtime \<Rightarrow> string \<times> ListenerState \<Rightarrow> aster_runtime" where
  "publish_listener previous rt entry = (let (inbound, state) = entry in foldl (publish_user previous inbound state) rt (ls_Users state))"

definition publish_tokens :: "(string, string) gomap \<Rightarrow> (string, string) gomap" where
  "publish_tokens subs = foldl (\<lambda>m (userID, token). if token \<noteq> [] then mset' token userID m else m) [] subs"

definition buildRuntimeState :: "aster_config option \<Rightarrow> string \<Rightarrow> aster_store \<Rightarrow> aster_runtime \<Rightarrow> aster_runtime" where
  "buildRuntimeState config storePath store previous =
     (case config of
        None \<Rightarrow> newRuntimeState
      | Some c \<Rightarrow>
          let rt = newRuntimeState\<lparr>art_storePath := storePath, art_secret := acf_Secret c, art_publicBaseURL := acf_PublicBaseURL c,
                     art_managed := remdups (acf_ManagedListeners c)\<rparr>;
              rt = foldl (publish_listener previous) rt (as_Listeners store)
          in rt\<lparr>art_subscriptions := publish_tokens (as_Subscriptions store)\<rparr>)"

text \<open>Swapping the runtime drains the old one and copies its counters into a store.\<close>

definition swapRuntimeLocked :: "aster_runtime \<Rightarrow> aster_store \<Rightarrow> aster_manager \<Rightarrow> aster_store \<times> aster_manager" where
  "swapRuntimeLocked rt retiringStore m = (syncTrafficStore (am_runtime m) retiringStore, m\<lparr>am_runtime := rt\<rparr>)"

definition swap_own :: "aster_runtime \<Rightarrow> aster_manager \<Rightarrow> aster_manager" where
  "swap_own rt m = (let (store, m) = swapRuntimeLocked rt (am_store m) m in m\<lparr>am_store := store\<rparr>)"

definition publishLocked :: "aster_manager \<Rightarrow> aster_manager" where
  "publishLocked m = swap_own (buildRuntimeState (am_config m) (am_storePath m) (am_store m) (am_runtime m)) m"

text \<open>One call of \<^verbatim>\<open>RecordTraffic\<close>; how concurrent calls interleave is the subject of \<^verbatim>\<open>Aster_Traffic\<close>.\<close>

definition RecordTraffic :: "string \<Rightarrow> string \<Rightarrow> int64 \<Rightarrow> int64 \<Rightarrow> aster_manager \<Rightarrow> aster_manager" where
  "RecordTraffic inbound userID upload download m =
     (if inbound = [] \<or> userID = [] \<or> sint upload \<le> 0 \<and> sint download \<le> 0 then m
      else (case mget (art_traffic (am_runtime m)) (inbound, userID) of
          None \<Rightarrow> m
        | Some ctr \<Rightarrow>
            let ctr = (if sint upload > 0 then ctr\<lparr>tk_upload := addTraffic_next (tk_upload ctr) upload\<rparr> else ctr);
                ctr = (if sint download > 0 then ctr\<lparr>tk_download := addTraffic_next (tk_download ctr) download\<rparr> else ctr)
            in m\<lparr>am_runtime := (am_runtime m)\<lparr>art_traffic := mset' (inbound, userID) ctr (art_traffic (am_runtime m))\<rparr>, am_dirty := True\<rparr>))"

subsection \<open>The index of users\<close>

definition index_listener :: "(string, userLocation) gomap \<Rightarrow> string \<Rightarrow> aster_user list \<Rightarrow> (string, userLocation) gomap" where
  "index_listener index inbound users =
     foldl (\<lambda>index (i, user). mset' (u_ID user) \<lparr>loc_inbound = inbound, loc_index = i\<rparr> index) index (enumerate 0 users)"

definition buildUserIndex :: "aster_store \<Rightarrow> (string, userLocation) gomap" where
  "buildUserIndex store = foldl (\<lambda>index (inbound, state). index_listener index inbound (ls_Users state)) [] (as_Listeners store)"

definition indexedUserLocked :: "aster_manager \<Rightarrow> string \<Rightarrow> (string \<times> ListenerState \<times> aster_user) option" where
  "indexedUserLocked m userID =
     (case mget (am_userIndex m) userID of
        None \<Rightarrow> None
      | Some location \<Rightarrow>
          (case mget (as_Listeners (am_store m)) (loc_inbound location) of
             None \<Rightarrow> None
           | Some state \<Rightarrow>
               if loc_index location \<ge> length (ls_Users state) then None
               else let user = ls_Users state ! loc_index location in
                 if u_ID user \<noteq> userID then None else Some (loc_inbound location, state, user)))"

definition reindexListenerLocked :: "ListenerState \<Rightarrow> ListenerState \<Rightarrow> aster_manager \<Rightarrow> aster_manager" where
  "reindexListenerLocked previous current m =
     m\<lparr>am_userIndex := index_listener (fold (\<lambda>user. mdel (u_ID user)) (ls_Users previous) (am_userIndex m)) (ls_Name current) (ls_Users current)\<rparr>"

definition findUserInListener :: "ListenerState \<Rightarrow> string \<Rightarrow> aster_user option" where
  "findUserInListener state userID = find (\<lambda>user. u_ID user = userID) (ls_Users state)"

fun findUser_from :: "(string \<times> ListenerState) list \<Rightarrow> string \<Rightarrow> (string \<times> ListenerState \<times> aster_user) option" where
  "findUser_from [] userID = None"
| "findUser_from ((inbound, state) # ls) userID =
     (case findUserInListener state userID of Some user \<Rightarrow> Some (inbound, state, user) | None \<Rightarrow> findUser_from ls userID)"

definition findUser :: "aster_store \<Rightarrow> string \<Rightarrow> (string \<times> ListenerState \<times> aster_user) option" where
  "findUser store userID = findUser_from (as_Listeners store) userID"

end
