(* ===== verification/Aster_Manager.thy ===== *)
theory Aster_Manager
  imports Aster_Runtime
begin

section \<open>Aster: changing users and configurations\<close>

text \<open>
  Applying users to listeners with rollback, saving, failing closed, the mutation of one listener, and
  \<^verbatim>\<open>Configure\<close> of \<^verbatim>\<open>component/aster/manager.go\<close>.
\<close>

subsection \<open>Changing the users of listeners\<close>

record listenerChange =
  lch_name :: string
  lch_instance :: nat
  lch_before :: "ManagedUser list"
  lch_after :: "ManagedUser list"

definition activeManagedUsers :: "ListenerState \<Rightarrow> ManagedUser list" where
  "activeManagedUsers state =
     map (\<lambda>u. \<lparr>mu_PrincipalID = u_ID u, mu_Name = u_Name u, mu_UUID = u_UUID u, mu_Password = u_Password u, mu_Flow = u_Flow u\<rparr>)
       (filter u_Enabled (ls_Users state))"

definition update_instance :: "inbound_lib \<Rightarrow> nat \<Rightarrow> ManagedUser list \<Rightarrow> listener_obj \<Rightarrow> registry_err + listener_obj" where
  "update_instance lib inst users obj = (if lo_id obj \<noteq> inst then Inl InstanceChanged else obj_update lib users obj)"

fun rollback_loop :: "aster_env \<Rightarrow> listenerChange list \<Rightarrow> registry \<Rightarrow> manager_err list \<times> registry" where
  "rollback_loop env [] reg = ([], reg)"
| "rollback_loop env (change # changes) reg =
     (case WithManagedInboundListener (lch_name change) (update_instance (ae_inbound env) (lch_instance change) (lch_before change)) reg of
        Inr reg \<Rightarrow> rollback_loop env changes reg
      | Inl err \<Rightarrow>
          let (closeErr, reg) = FailClosedManagedInboundListener (ae_inbound env) (ae_listen env) (lch_name change) reg;
              (errs, reg) = rollback_loop env changes reg
          in (RErr err # map RErr closeErr @ errs, reg))"

definition rollbackChanges :: "aster_env \<Rightarrow> listenerChange list \<Rightarrow> registry \<Rightarrow> manager_err list \<times> registry" where
  "rollbackChanges env changes reg = rollback_loop env (rev changes) reg"

fun apply_loop :: "aster_env \<Rightarrow> listenerChange list \<Rightarrow> listenerChange list \<Rightarrow> registry \<Rightarrow> manager_err list \<times> registry" where
  "apply_loop env applied [] reg = ([], reg)"
| "apply_loop env applied (change # changes) reg =
     (case WithManagedInboundListener (lch_name change) (update_instance (ae_inbound env) (lch_instance change) (lch_after change)) reg of
        Inr reg \<Rightarrow> apply_loop env (applied @ [change]) changes reg
      | Inl err \<Rightarrow>
          let (rollbackErr, reg) = rollbackChanges env (applied @ [change]) reg in
          (if rollbackErr \<noteq> [] then RErr err # RollbackFailed # rollbackErr else [RErr err], reg))"

definition applyChanges :: "aster_env \<Rightarrow> listenerChange list \<Rightarrow> registry \<Rightarrow> manager_err list \<times> registry" where
  "applyChanges env changes reg = apply_loop env [] changes reg"

subsection \<open>Saving and failing closed\<close>

definition persistStore :: "aster_env \<Rightarrow> string \<Rightarrow> aster_store \<Rightarrow> aster_sys \<Rightarrow> (aster_err + aster_store) \<times> aster_sys" where
  "persistStore env path store sys =
     (let (disks, r) = saveStoreLocked (ae_lib env) (ae_save env (sy_tick sys)) (sy_disks sys path) store
      in (r, sys\<lparr>sy_disks := (sy_disks sys)(path := last disks), sy_tick := sy_tick sys + 1\<rparr>))"

text \<open>Saving the store of the manager itself, whose generation advances with a success.\<close>

definition persist_own :: "aster_env \<Rightarrow> aster_sys \<Rightarrow> aster_err option \<times> aster_sys" where
  "persist_own env sys =
     (let (r, sys) = persistStore env (am_storePath (sy_m sys)) (am_store (sy_m sys)) sys in
      case r of Inl e \<Rightarrow> (Some e, sys) | Inr store \<Rightarrow> (None, sys\<lparr>sy_m := (sy_m sys)\<lparr>am_store := store\<rparr>\<rparr>))"

definition stopFlusherLocked :: "aster_manager \<Rightarrow> aster_manager" where
  "stopFlusherLocked m = m\<lparr>am_flushing := False\<rparr>"

definition releaseStoreLocked :: "aster_manager \<Rightarrow> aster_manager" where
  "releaseStoreLocked m = m\<lparr>am_locked := False, am_store := newStore, am_userIndex := [], am_storePath := []\<rparr>"

fun fail_closed_loop :: "aster_env \<Rightarrow> string list \<Rightarrow> registry \<Rightarrow> manager_err list \<times> registry" where
  "fail_closed_loop env [] reg = ([], reg)"
| "fail_closed_loop env (nam # names) reg =
     (let (err, reg) = FailClosedManagedInboundListener (ae_inbound env) (ae_listen env) nam reg;
          (errs, reg) = fail_closed_loop env names reg
      in (map RErr err @ errs, reg))"

definition sortedSetKeys :: "string list \<Rightarrow> string list" where
  "sortedSetKeys xs = sort (remdups xs)"

definition config_names :: "aster_manager \<Rightarrow> string list" where
  "config_names m = (case am_config m of None \<Rightarrow> [] | Some c \<Rightarrow> acf_ManagedListeners c)"

definition failClosedStateLocked :: "aster_env \<Rightarrow> string list \<Rightarrow> aster_sys \<Rightarrow> manager_err list \<times> aster_sys" where
  "failClosedStateLocked env names sys =
     (let (closeErr, reg) = fail_closed_loop env (sortedSetKeys (names @ config_names (sy_m sys))) (sy_reg sys);
          sys = sys\<lparr>sy_reg := reg, sy_m := swap_own newRuntimeState (sy_m sys)\<rparr>;
          (persistErr, sys) = (if am_storePath (sy_m sys) \<noteq> [] then persist_own env sys else (None, sys));
          m = (sy_m sys)\<lparr>am_config := None, am_instances := []\<rparr> in
      case persistErr of
        Some e \<Rightarrow> (closeErr @ [AErr e], sys\<lparr>sy_m := m\<lparr>am_dirty := True\<rparr>\<rparr>)
      | None \<Rightarrow> (closeErr, sys\<lparr>sy_m := releaseStoreLocked (stopFlusherLocked (m\<lparr>am_dirty := False\<rparr>))\<rparr>))"

subsection \<open>Mutations\<close>

definition nextRevision :: "int64 \<Rightarrow> int64 \<Rightarrow> int64" where
  "nextRevision now previous = (if sint now \<le> sint previous then previous + 1 else now)"

definition randomToken :: "aster_env \<Rightarrow> nat \<Rightarrow> manager_err list + string" where
  "randomToken env t = (case ae_random env t of None \<Rightarrow> Inl [RandomFailed] | Some v \<Rightarrow> Inr (li_EncodeToString (ae_lib env) v))"

definition set_dirty :: "bool \<Rightarrow> aster_sys \<Rightarrow> aster_sys" where
  "set_dirty d sys = sys\<lparr>sy_m := (sy_m sys)\<lparr>am_dirty := d\<rparr>\<rparr>"

text \<open>The deferred function of a mutation that was not committed.\<close>

definition undo_dirty :: "bool \<Rightarrow> aster_sys \<Rightarrow> aster_sys" where
  "undo_dirty wasDirty sys = (if wasDirty then set_dirty True sys else sys)"

text \<open>Everything after the candidate has been validated.\<close>

definition commit_mutation :: "aster_env \<Rightarrow> string \<Rightarrow> ListenerState \<Rightarrow> aster_store \<Rightarrow> ListenerState \<Rightarrow> aster_sys
    \<Rightarrow> (manager_err list + ListenerState) \<times> aster_sys" where
  "commit_mutation env inbound current candidate candidateState sys =
     (let m = sy_m sys;
          change = \<lparr>lch_name = inbound, lch_instance = (case mget (am_instances m) inbound of Some i \<Rightarrow> i | None \<Rightarrow> 0),
            lch_before = activeManagedUsers current, lch_after = activeManagedUsers candidateState\<rparr>;
          changes = (if lch_before change = lch_after change then [] else [change]);
          (err, reg) = applyChanges env changes (sy_reg sys);
          sys = sys\<lparr>sy_reg := reg\<rparr> in
      if err \<noteq> []
      then (if RollbackFailed \<in> set err
            then let (closeErr, sys) = failClosedStateLocked env [] sys in (Inl (err @ closeErr), sys)
            else (Inl err, sys))
      else (case persistStore env (am_storePath m) candidate sys of
          (Inl e, sys) \<Rightarrow>
            let (rollbackErr, reg) = rollbackChanges env changes (sy_reg sys); sys = sys\<lparr>sy_reg := reg\<rparr> in
            if rollbackErr \<noteq> []
            then let (closeErr, sys) = failClosedStateLocked env [] sys in (Inl (AErr e # rollbackErr @ closeErr), sys)
            else (Inl [AErr e], sys)
        | (Inr candidate, sys) \<Rightarrow>
            (Inr candidateState, sys\<lparr>sy_m := publishLocked (reindexListenerLocked current candidateState ((sy_m sys)\<lparr>am_store := candidate\<rparr>))\<rparr>)))"

definition mutateListenerLocked :: "aster_env \<Rightarrow> string \<Rightarrow> int64
    \<Rightarrow> (aster_store \<Rightarrow> ListenerState \<Rightarrow> manager_err list + aster_store \<times> ListenerState)
    \<Rightarrow> aster_sys \<Rightarrow> (manager_err list + ListenerState) \<times> aster_sys" where
  "mutateListenerLocked env inbound expectedRevision mutate sys =
     (if sint expectedRevision \<le> 0 then (Inl [AErr ErrInvalid], sys)
      else (case mget (as_Listeners (am_store (sy_m sys))) inbound of
          None \<Rightarrow> (Inl [AErr ErrNotFound], sys)
        | Some current \<Rightarrow>
            if ls_Revision current \<noteq> expectedRevision then (Inl [AErr ErrConflict], sys)
            else let wasDirty = am_dirty (sy_m sys);
                     now = ae_now env (sy_tick sys);
                     sys = sys\<lparr>sy_m := syncTrafficLocked ((sy_m sys)\<lparr>am_dirty := False\<rparr>), sy_tick := sy_tick sys + 1\<rparr>;
                     current = the (mget (as_Listeners (am_store (sy_m sys))) inbound) in
              (case mutate (am_store (sy_m sys)) current of
                 Inl err \<Rightarrow> (Inl err, undo_dirty wasDirty sys)
               | Inr (candidate, candidateState) \<Rightarrow>
                   let candidateState = candidateState\<lparr>ls_Revision := nextRevision now (ls_Revision current),
                         ls_AppliedRevision := nextRevision now (ls_Revision current)\<rparr>;
                       candidate = candidate\<lparr>as_Listeners := mset' inbound candidateState (as_Listeners candidate)\<rparr> in
                   (case validateStore (ae_lib env) candidate of
                      Inl e \<Rightarrow> (Inl [AErr e], undo_dirty wasDirty sys)
                    | Inr _ \<Rightarrow>
                        (case commit_mutation env inbound current candidate candidateState sys of
                           (Inl err, sys) \<Rightarrow> (Inl err, undo_dirty wasDirty sys)
                         | r \<Rightarrow> r)))))"

subsection \<open>Configuring\<close>

definition base_url_ok :: "parsed_url option \<Rightarrow> bool" where
  "base_url_ok u \<longleftrightarrow>
     (case u of None \<Rightarrow> False
      | Some p \<Rightarrow> pu_Scheme p = ''https'' \<and> pu_Host p \<noteq> [] \<and> \<not> pu_User p \<and> pu_RawQuery p = [] \<and> \<not> pu_ForceQuery p
          \<and> pu_Fragment p = [] \<and> pu_Opaque p = [])"

definition validateConfig :: "aster_env \<Rightarrow> aster_config \<Rightarrow> manager_err list + unit" where
  "validateConfig env c =
     (if length (acf_Secret c) < 32 \<or> TrimSpace (acf_Secret c) \<noteq> acf_Secret c then Inl [AErr ErrInvalid]
      else if acf_StorePath c = [] then Inl [AErr ErrInvalid]
      else if acf_PublicBaseURL c \<noteq> [] \<and> TrimSpace (acf_PublicBaseURL c) \<noteq> acf_PublicBaseURL c then Inl [AErr ErrInvalid]
      else if acf_PublicBaseURL c \<noteq> [] \<and> \<not> base_url_ok (ae_parseURL env (acf_PublicBaseURL c)) then Inl [AErr ErrInvalid]
      else bindR (foldR (\<lambda>seen nam. if nam = [] then Inl [AErr ErrInvalid] else if nam \<in> set seen then Inl [AErr ErrInvalid] else Inr (nam # seen))
             [] (acf_ManagedListeners c)) (\<lambda>_. Inr ()))"

text \<open>
  The search for a free name. The first argument bounds the number of attempts; one more than there are
  names is enough.
\<close>

fun seed_name :: "nat \<Rightarrow> aster_lib \<Rightarrow> string list \<Rightarrow> string \<Rightarrow> nat \<Rightarrow> string \<Rightarrow> string option" where
  "seed_name 0 lib names baseName sfx nameCandidate = None"
| "seed_name (Suc fuel) lib names baseName sfx nameCandidate =
     (if li_lower lib nameCandidate \<notin> set names then Some nameCandidate
      else seed_name fuel lib names baseName (sfx + 1) (baseName @ ''-'' @ FormatNat sfx))"

definition seed_base :: "nat \<Rightarrow> string \<Rightarrow> string" where
  "seed_base i nam = (if TrimSpace nam = [] then ''user-'' @ FormatNat (i + 1) else TrimSpace nam)"

definition seed_user :: "aster_env \<Rightarrow> nat \<Rightarrow> string \<Rightarrow> string \<Rightarrow> int64 \<Rightarrow> aster_user list \<times> string list \<times> (string, string) gomap \<Rightarrow> nat \<times> ManagedUser
    \<Rightarrow> manager_err list + aster_user list \<times> string list \<times> (string, string) gomap" where
  "seed_user env t nam protocol now acc entry =
     (let (users, names, subs) = acc; (i, user) = entry; userID = ae_uuid env (t + 1 + i); baseName = seed_base i (mu_Name user) in
      case seed_name (Suc (length names)) (ae_lib env) names baseName 2 baseName of
        None \<Rightarrow> Inl [NameLoop]
      | Some nameCandidate \<Rightarrow>
          bindR (randomToken env (t + i)) (\<lambda>token.
            Inr (users @ [\<lparr>u_ID = userID, u_Inbound = nam, u_Protocol = protocol, u_Name = nameCandidate, u_UUID = mu_UUID user,
                   u_Password = mu_Password user, u_Flow = mu_Flow user, u_Enabled = True, u_UploadBytes = 0, u_DownloadBytes = 0,
                   u_TrafficGeneration = 1, u_CreatedAt = now, u_UpdatedAt = now\<rparr>],
                 li_lower (ae_lib env) nameCandidate # names, mset' userID token subs)))"

definition seedListener :: "aster_env \<Rightarrow> nat \<Rightarrow> string \<Rightarrow> string \<Rightarrow> ManagedUser list \<Rightarrow> (string, string) gomap
    \<Rightarrow> manager_err list + ListenerState \<times> (string, string) gomap" where
  "seedListener env t nam protocol configured subs =
     bindR (foldR (seed_user env t nam protocol (ae_now env t)) ([], [], subs) (enumerate 0 configured)) (\<lambda>(users, names, subs).
       Inr (\<lparr>ls_ID = ae_uuid env t, ls_Name = nam, ls_Protocol = protocol, ls_Users = users,
              ls_Revision = nextRevision (ae_now env (t + 1)) 0, ls_AppliedRevision = 0\<rparr>, subs))"

text \<open>What the loop of \<^verbatim>\<open>prepareChangesLocked\<close> builds up: the changes, the instances and the store.\<close>

record prep_acc =
  pa_changes :: "listenerChange list"
  pa_instances :: "(string, nat) gomap"
  pa_store :: aster_store
  pa_tick :: nat

definition prepare_state :: "aster_env \<Rightarrow> string \<Rightarrow> listener_obj \<Rightarrow> prep_acc \<Rightarrow> manager_err list + ListenerState \<times> prep_acc" where
  "prepare_state env nam obj acc =
     (case mget (as_Listeners (pa_store acc)) nam of
        Some state \<Rightarrow> Inr (state, acc)
      | None \<Rightarrow>
          let configured = ConfiguredUsers (lo_inbound obj) in
          bindR (seedListener env (pa_tick acc) nam (schema_Protocol (lo_inbound obj)) configured (as_Subscriptions (pa_store acc))) (\<lambda>(state, subs).
            Inr (state, acc\<lparr>pa_store := (pa_store acc)\<lparr>as_Listeners := mset' nam state (as_Listeners (pa_store acc)), as_Subscriptions := subs\<rparr>,
                     pa_tick := pa_tick acc + 2 + length configured\<rparr>)))"

definition prepare_change :: "aster_env \<Rightarrow> registry \<Rightarrow> string list \<Rightarrow> prep_acc \<Rightarrow> string \<Rightarrow> manager_err list + prep_acc" where
  "prepare_change env reg newManaged acc nam =
     (case managed_obj nam reg of
        Inl e \<Rightarrow> if nam \<notin> set newManaged then Inr acc else Inl [RErr e]
      | Inr obj \<Rightarrow>
          let change = \<lparr>lch_name = nam, lch_instance = lo_id obj, lch_before = CurrentManagedUsers (lo_inbound obj),
                lch_after = ConfiguredUsers (lo_inbound obj)\<rparr> in
          if nam \<in> set newManaged
          then bindR (prepare_state env nam obj acc) (\<lambda>(state, acc).
                 if ls_Protocol state \<noteq> schema_Protocol (lo_inbound obj) then Inl [ProtocolChanged nam]
                 else Inr (acc\<lparr>pa_changes := pa_changes acc @ [change\<lparr>lch_after := activeManagedUsers state\<rparr>],
                               pa_instances := mset' nam (lo_id obj) (pa_instances acc)\<rparr>))
          else Inr (acc\<lparr>pa_changes := pa_changes acc @ [change]\<rparr>))"

definition prepareChangesLocked :: "aster_env \<Rightarrow> aster_config \<Rightarrow> aster_store \<Rightarrow> aster_sys \<Rightarrow> manager_err list + prep_acc" where
  "prepareChangesLocked env c store sys =
     foldR (prepare_change env (sy_reg sys) (acf_ManagedListeners c))
       \<lparr>pa_changes = [], pa_instances = [], pa_store = store, pa_tick = sy_tick sys\<rparr>
       (sortedSetKeys (acf_ManagedListeners c @ config_names (sy_m sys)))"

definition mark_applied :: "listenerChange list \<Rightarrow> (string, nat) gomap \<Rightarrow> aster_store \<Rightarrow> aster_store" where
  "mark_applied changes instances store =
     foldl (\<lambda>store change. if mget instances (lch_name change) \<noteq> None
         then (case mget (as_Listeners store) (lch_name change) of
                 Some state \<Rightarrow> store\<lparr>as_Listeners := mset' (lch_name change) (state\<lparr>ls_AppliedRevision := ls_Revision state\<rparr>) (as_Listeners store)\<rparr>
               | None \<Rightarrow> store)
         else store) store changes"

text \<open>Undoing the changes of a configuration that could not be saved.\<close>

definition revert_changes :: "aster_env \<Rightarrow> string list \<Rightarrow> listenerChange list \<Rightarrow> aster_sys \<Rightarrow> manager_err list \<times> aster_sys" where
  "revert_changes env names changes sys =
     (let (rollbackErr, reg) = rollbackChanges env changes (sy_reg sys); sys = sys\<lparr>sy_reg := reg\<rparr> in
      if rollbackErr \<noteq> []
      then let (closeErr, sys) = failClosedStateLocked env names sys in (rollbackErr @ closeErr, sys)
      else ([], sys))"

definition apply_or_close :: "aster_env \<Rightarrow> string list \<Rightarrow> listenerChange list \<Rightarrow> aster_sys \<Rightarrow> manager_err list \<times> aster_sys" where
  "apply_or_close env names changes sys =
     (let (err, reg) = applyChanges env changes (sy_reg sys); sys = sys\<lparr>sy_reg := reg\<rparr> in
      if RollbackFailed \<in> set err
      then let (closeErr, sys) = failClosedStateLocked env names sys in (err @ closeErr, sys)
      else (err, sys))"

definition install_config :: "aster_config \<Rightarrow> aster_store \<Rightarrow> (string, nat) gomap \<Rightarrow> aster_manager \<Rightarrow> aster_manager" where
  "install_config c store instances m =
     m\<lparr>am_config := Some c, am_store := store, am_userIndex := buildUserIndex store, am_storePath := acf_StorePath c, am_instances := instances\<rparr>"

text \<open>Switching to another store: the traffic of the old one is saved before it is let go.\<close>

definition switch_store :: "aster_env \<Rightarrow> aster_config \<Rightarrow> aster_store \<Rightarrow> prep_acc \<Rightarrow> aster_sys \<Rightarrow> manager_err list \<times> aster_sys" where
  "switch_store env c store acc sys =
     (let m = sy_m sys;
          next = buildRuntimeState (Some c) (acf_StorePath c) store (am_runtime m);
          sys = sys\<lparr>sy_m := swap_own next m\<rparr>;
          (err, sys) = (if am_storePath m \<noteq> [] then persist_own env sys else (None, sys)) in
      case err of
        Some e \<Rightarrow>
          let m = sy_m sys;
              restored = buildRuntimeState (am_config m) (am_storePath m) (am_store m) next;
              (store, m) = swapRuntimeLocked restored store m;
              (r, sys) = persistStore env (acf_StorePath c) store (sys\<lparr>sy_m := m\<rparr>);
              (rollbackErr, sys) = revert_changes env (acf_ManagedListeners c) (pa_changes acc) (set_dirty True sys)
          in (AErr e # (case r of Inl e' \<Rightarrow> [AErr e'] | Inr _ \<Rightarrow> []) @ rollbackErr, sys)
      | None \<Rightarrow> ([], sys\<lparr>sy_m := install_config c store (pa_instances acc) ((sy_m sys)\<lparr>am_locked := True\<rparr>)\<rparr>))"

definition disable_changes :: "registry \<Rightarrow> string list \<Rightarrow> listenerChange list" where
  "disable_changes reg names = concat (map (\<lambda>nam. case managed_obj nam reg of Inl _ \<Rightarrow> []
     | Inr obj \<Rightarrow> [\<lparr>lch_name = nam, lch_instance = lo_id obj, lch_before = CurrentManagedUsers (lo_inbound obj),
                    lch_after = ConfiguredUsers (lo_inbound obj)\<rparr>]) names)"

definition disableLocked :: "aster_env \<Rightarrow> aster_sys \<Rightarrow> manager_err list \<times> aster_sys" where
  "disableLocked env sys =
     (if am_config (sy_m sys) = None then ([], sys\<lparr>sy_m := releaseStoreLocked (stopFlusherLocked (sy_m sys))\<rparr>)
      else
        let names = sortedSetKeys (config_names (sy_m sys));
            changes = disable_changes (sy_reg sys) names;
            (err, sys) = apply_or_close env names changes sys in
        if err \<noteq> [] then (err, sys)
        else
          let sys = sys\<lparr>sy_m := swap_own newRuntimeState (sy_m sys)\<rparr>;
              (err, sys) = (if am_storePath (sy_m sys) \<noteq> [] then persist_own env sys else (None, sys)) in
          case err of
            Some e \<Rightarrow>
              let m = sy_m sys;
                  m = swap_own (buildRuntimeState (am_config m) (am_storePath m) (am_store m) newRuntimeState) m;
                  (rollbackErr, sys) = revert_changes env names changes (set_dirty True (sys\<lparr>sy_m := m\<rparr>))
              in (AErr e # rollbackErr, sys)
          | None \<Rightarrow> ([], sys\<lparr>sy_m := releaseStoreLocked (stopFlusherLocked ((sy_m sys)\<lparr>am_config := None, am_instances := [], am_dirty := False\<rparr>))\<rparr>))"

text \<open>The part of \<^verbatim>\<open>Configure\<close> after the new configuration has been found valid.\<close>

definition configure_valid :: "aster_env \<Rightarrow> aster_config \<Rightarrow> aster_sys \<Rightarrow> manager_err list \<times> aster_sys" where
  "configure_valid env c sys =
     (let path = acf_StorePath c; sameStore = (am_locked (sy_m sys) \<and> am_storePath (sy_m sys) = path);
          outcome = ae_save env (sy_tick sys); sys = sys\<lparr>sy_tick := sy_tick sys + 1\<rparr> in
      if \<not> sameStore \<and> (\<not> se_prepared outcome \<or> \<not> se_locked outcome) then ([AErr StoreIO], sys)
      else (case loadStore (ae_lib env) (sy_disks sys path) of
          Inl e \<Rightarrow> ([AErr e], sys)
        | Inr (store, _) \<Rightarrow>
            (case prepareChangesLocked env c store sys of
               Inl err \<Rightarrow> (err, sys)
             | Inr acc \<Rightarrow>
                 let sys = sys\<lparr>sy_tick := pa_tick acc\<rparr> in
                 (case validateStore (ae_lib env) (pa_store acc) of
                    Inl e \<Rightarrow> ([AErr e], sys)
                  | Inr _ \<Rightarrow>
                      let (err, sys) = apply_or_close env (acf_ManagedListeners c) (pa_changes acc) sys in
                      if err \<noteq> [] then (err, sys)
                      else (case persistStore env path (mark_applied (pa_changes acc) (pa_instances acc) (pa_store acc)) sys of
                          (Inl e, sys) \<Rightarrow>
                            let (rollbackErr, sys) = revert_changes env (acf_ManagedListeners c) (pa_changes acc) sys in (AErr e # rollbackErr, sys)
                        | (Inr store, sys) \<Rightarrow>
                            let (err, sys) = (if sameStore
                                  then ([], sys\<lparr>sy_m := publishLocked (install_config c store (pa_instances acc) (sy_m sys))\<rparr>)
                                  else switch_store env c store acc sys) in
                            if err \<noteq> [] then (err, sys) else ([], sys\<lparr>sy_m := (sy_m sys)\<lparr>am_flushing := True\<rparr>\<rparr>))))))"

definition flush_first :: "aster_env \<Rightarrow> aster_sys \<Rightarrow> aster_err option \<times> aster_sys" where
  "flush_first env sys =
     (let wasDirty = am_dirty (sy_m sys);
          sys = sys\<lparr>sy_m := syncTrafficLocked ((sy_m sys)\<lparr>am_dirty := False\<rparr>)\<rparr> in
      if wasDirty \<and> am_storePath (sy_m sys) \<noteq> []
      then (case persist_own env sys of (Some e, sys) \<Rightarrow> (Some e, set_dirty True sys) | r \<Rightarrow> r)
      else (None, sys))"

definition Configure :: "aster_env \<Rightarrow> aster_config option \<Rightarrow> aster_sys \<Rightarrow> manager_err list \<times> aster_sys" where
  "Configure env config sys =
     (case flush_first env sys of
        (Some e, sys) \<Rightarrow> ([AErr e], sys)
      | (None, sys) \<Rightarrow>
          (case config of
             None \<Rightarrow> disableLocked env sys
           | Some c \<Rightarrow> (case validateConfig env c of Inl err \<Rightarrow> (err, sys) | Inr _ \<Rightarrow> configure_valid env c sys)))"

definition FailClosed :: "aster_env \<Rightarrow> string list \<Rightarrow> aster_sys \<Rightarrow> manager_err list \<times> aster_sys" where
  "FailClosed env names sys =
     (let (err, sys) = flush_first env sys; (closeErr, sys) = failClosedStateLocked env names sys
      in ((case err of Some e \<Rightarrow> [AErr e] | None \<Rightarrow> []) @ closeErr, sys))"

definition Flush :: "aster_env \<Rightarrow> aster_sys \<Rightarrow> manager_err list \<times> aster_sys" where
  "Flush env sys =
     (let m = sy_m sys; release = (\<lambda>sys. if am_config (sy_m sys) = None then sys\<lparr>sy_m := releaseStoreLocked (stopFlusherLocked (sy_m sys))\<rparr> else sys) in
      if \<not> am_dirty m then ([], if am_storePath m \<noteq> [] then release sys else sys)
      else if am_storePath m = [] then ([], sys)
      else let sys = sys\<lparr>sy_m := syncTrafficLocked (m\<lparr>am_dirty := False\<rparr>)\<rparr> in
        (case persist_own env sys of
           (Some e, sys) \<Rightarrow> ([AErr e], set_dirty True sys)
         | (None, sys) \<Rightarrow> ([], release sys)))"

end
