(* ===== verification/Aster_Users.thy ===== *)
theory Aster_Users
  imports Aster_Manager "HOL-Library.Product_Lexorder"
begin

section \<open>Aster: operations on users\<close>

text \<open>
  \<^verbatim>\<open>component/aster/users.go\<close>: the operations of the management interface.
\<close>

subsection \<open>Users\<close>

record CreateUserInput =
  cu_Inbound :: string
  cu_Name :: string
  cu_UUID :: string
  cu_Password :: string
  cu_Flow :: string
  cu_Enabled :: "bool option"

record UpdateUserInput =
  uu_Name :: "string option"
  uu_UUID :: "string option"
  uu_Password :: "string option"
  uu_Flow :: "string option"
  uu_Enabled :: "bool option"

text \<open>
  The new user. The calls for identifiers, the time and random bytes are numbered from \<open>t\<close> on.
\<close>

definition create_mutation :: "aster_env \<Rightarrow> nat \<Rightarrow> CreateUserInput \<Rightarrow> aster_store \<Rightarrow> ListenerState
    \<Rightarrow> manager_err list + aster_store \<times> ListenerState" where
  "create_mutation env t input candidate state =
     (if TrimSpace (cu_Name input) = [] then Inl [AErr ErrInvalid]
      else
        let userID = ae_uuid env t;
            user = \<lparr>u_ID = userID, u_Inbound = cu_Inbound input, u_Protocol = ls_Protocol state, u_Name = TrimSpace (cu_Name input),
              u_UUID = (if ls_Protocol state = ''vless'' \<and> cu_UUID input = [] then ae_uuid env (t + 1) else cu_UUID input),
              u_Password = cu_Password input, u_Flow = cu_Flow input,
              u_Enabled = (case cu_Enabled input of Some b \<Rightarrow> b | None \<Rightarrow> True), u_UploadBytes = 0, u_DownloadBytes = 0,
              u_TrafficGeneration = 1, u_CreatedAt = ae_now env t, u_UpdatedAt = ae_now env (t + 1)\<rparr> in
        bindR (if u_Protocol user = ''anytls'' \<and> u_Password user = [] then randomToken env t else Inr (u_Password user)) (\<lambda>password.
        bindR (randomToken env (t + 1)) (\<lambda>token.
          Inr (candidate\<lparr>as_Subscriptions := mset' userID token (as_Subscriptions candidate)\<rparr>,
               state\<lparr>ls_Users := ls_Users state @ [user\<lparr>u_Password := password\<rparr>]\<rparr>))))"

definition skip_ticks :: "aster_sys \<Rightarrow> aster_sys" where
  "skip_ticks sys = sys\<lparr>sy_tick := sy_tick sys + 2\<rparr>"

text \<open>A user after a mutation, found through the index, with the revision of its listener.\<close>

definition user_result :: "string \<Rightarrow> (manager_err list + ListenerState) \<times> aster_sys
    \<Rightarrow> (manager_err list + aster_user option \<times> int64) \<times> aster_sys" where
  "user_result userID r =
     (case r of (Inl err, sys) \<Rightarrow> (Inl err, sys)
      | (Inr state, sys) \<Rightarrow> (Inr (map_option (\<lambda>(_, _, user). user) (indexedUserLocked (sy_m sys) userID), ls_Revision state), sys))"

definition CreateUser :: "aster_env \<Rightarrow> CreateUserInput \<Rightarrow> int64 \<Rightarrow> aster_sys \<Rightarrow> (manager_err list + aster_user option \<times> int64) \<times> aster_sys" where
  "CreateUser env input expectedRevision sys =
     (if am_config (sy_m sys) = None then (Inl [AErr ErrDisabled], sys)
      else if cu_Inbound input \<notin> set (art_managed (am_runtime (sy_m sys))) then (Inl [AErr ErrNotFound], sys)
      else user_result (ae_uuid env (sy_tick sys))
        (mutateListenerLocked env (cu_Inbound input) expectedRevision (create_mutation env (sy_tick sys) input) (skip_ticks sys)))"

text \<open>What the operations on an existing user share: it must be known, and its listener managed.\<close>

definition with_user :: "string \<Rightarrow> aster_sys \<Rightarrow> manager_err list + string" where
  "with_user userID sys =
     (if am_config (sy_m sys) = None then Inl [AErr ErrDisabled]
      else (case indexedUserLocked (sy_m sys) userID of
          None \<Rightarrow> Inl [AErr ErrNotFound]
        | Some (inbound, _, _) \<Rightarrow>
            if inbound \<notin> set (art_managed (am_runtime (sy_m sys))) then Inl [AErr ErrNotFound] else Inr inbound))"

primrec edit_first :: "('a \<Rightarrow> bool) \<Rightarrow> ('a \<Rightarrow> 'a) \<Rightarrow> 'a list \<Rightarrow> 'a list" where
  "edit_first P f [] = []"
| "edit_first P f (x # xs) = (if P x then f x # xs else x # edit_first P f xs)"

definition edit_user :: "string \<Rightarrow> (aster_user \<Rightarrow> aster_user) \<Rightarrow> ListenerState \<Rightarrow> ListenerState" where
  "edit_user userID f state = state\<lparr>ls_Users := edit_first (\<lambda>u. u_ID u = userID) f (ls_Users state)\<rparr>"

definition apply_input :: "UpdateUserInput \<Rightarrow> int64 \<Rightarrow> aster_user \<Rightarrow> aster_user" where
  "apply_input input now user =
     user\<lparr>u_Name := (case uu_Name input of Some n \<Rightarrow> TrimSpace n | None \<Rightarrow> u_Name user),
          u_UUID := (case uu_UUID input of Some x \<Rightarrow> x | None \<Rightarrow> u_UUID user),
          u_Password := (case uu_Password input of Some x \<Rightarrow> x | None \<Rightarrow> u_Password user),
          u_Flow := (case uu_Flow input of Some x \<Rightarrow> x | None \<Rightarrow> u_Flow user),
          u_Enabled := (case uu_Enabled input of Some x \<Rightarrow> x | None \<Rightarrow> u_Enabled user),
          u_UpdatedAt := now\<rparr>"

definition UpdateUser :: "aster_env \<Rightarrow> string \<Rightarrow> UpdateUserInput \<Rightarrow> int64 \<Rightarrow> aster_sys \<Rightarrow> (manager_err list + aster_user option \<times> int64) \<times> aster_sys" where
  "UpdateUser env userID input expectedRevision sys =
     (case with_user userID sys of
        Inl err \<Rightarrow> (Inl err, sys)
      | Inr inbound \<Rightarrow> user_result userID (mutateListenerLocked env inbound expectedRevision
          (\<lambda>candidate state. Inr (candidate, edit_user userID (apply_input input (ae_now env (sy_tick sys))) state)) (skip_ticks sys)))"

definition delete_mutation :: "string \<Rightarrow> aster_store \<Rightarrow> ListenerState \<Rightarrow> manager_err list + aster_store \<times> ListenerState" where
  "delete_mutation userID candidate state =
     (if userID \<in> u_ID ` set (ls_Users state)
      then Inr (candidate\<lparr>as_Subscriptions := mdel userID (as_Subscriptions candidate)\<rparr>,
             state\<lparr>ls_Users := takeWhile (\<lambda>u. u_ID u \<noteq> userID) (ls_Users state) @ tl (dropWhile (\<lambda>u. u_ID u \<noteq> userID) (ls_Users state))\<rparr>)
      else Inl [AErr ErrNotFound])"

definition DeleteUser :: "aster_env \<Rightarrow> string \<Rightarrow> int64 \<Rightarrow> aster_sys \<Rightarrow> (manager_err list + int64) \<times> aster_sys" where
  "DeleteUser env userID expectedRevision sys =
     (case with_user userID sys of
        Inl err \<Rightarrow> (Inl err, sys)
      | Inr inbound \<Rightarrow>
          (case mutateListenerLocked env inbound expectedRevision (delete_mutation userID) sys of
             (Inl err, sys) \<Rightarrow> (Inl err, sys)
           | (Inr state, sys) \<Rightarrow> (Inr (ls_Revision state), sys)))"

definition ResetTraffic :: "aster_env \<Rightarrow> string \<Rightarrow> int64 \<Rightarrow> aster_sys \<Rightarrow> (manager_err list + aster_user option \<times> int64) \<times> aster_sys" where
  "ResetTraffic env userID expectedRevision sys =
     (case with_user userID sys of
        Inl err \<Rightarrow> (Inl err, sys)
      | Inr inbound \<Rightarrow> user_result userID (mutateListenerLocked env inbound expectedRevision
          (\<lambda>candidate state. Inr (candidate, edit_user userID (\<lambda>u. u\<lparr>u_UploadBytes := 0, u_DownloadBytes := 0,
             u_TrafficGeneration := u_TrafficGeneration u + 1, u_UpdatedAt := ae_now env (sy_tick sys)\<rparr>) state)) (skip_ticks sys)))"

definition RotateSubscription :: "aster_env \<Rightarrow> string \<Rightarrow> int64 \<Rightarrow> aster_sys \<Rightarrow> (manager_err list + string \<times> int64) \<times> aster_sys" where
  "RotateSubscription env userID expectedRevision sys =
     (case with_user userID sys of
        Inl err \<Rightarrow> (Inl err, sys)
      | Inr inbound \<Rightarrow>
          (case mutateListenerLocked env inbound expectedRevision
              (\<lambda>candidate state. bindR (randomToken env (sy_tick sys)) (\<lambda>token.
                 Inr (candidate\<lparr>as_Subscriptions := mset' userID token (as_Subscriptions candidate)\<rparr>, state))) (skip_ticks sys) of
             (Inl err, sys') \<Rightarrow> (Inl err, sys')
           | (Inr state, sys') \<Rightarrow> (map_inr (\<lambda>token. (token, ls_Revision state)) (randomToken env (sy_tick sys)), sys')))"

subsection \<open>Queries\<close>

definition Enabled :: "aster_manager \<Rightarrow> bool" where
  "Enabled m \<longleftrightarrow> art_secret (am_runtime m) \<noteq> []"

definition Authenticate :: "string \<Rightarrow> aster_manager \<Rightarrow> bool" where
  "Authenticate secret m \<longleftrightarrow> art_secret (am_runtime m) \<noteq> [] \<and> art_secret (am_runtime m) = secret"

definition aster_Status :: "aster_manager \<Rightarrow> bool \<times> string \<times> string list" where
  "aster_Status m = (Enabled m, art_publicBaseURL (am_runtime m), sortedSetKeys (art_managed (am_runtime m)))"

text \<open>A user as of now: the live counters, not the bytes of the last publication.\<close>

definition GetUser :: "string \<Rightarrow> aster_manager \<Rightarrow> manager_err + aster_user \<times> int64" where
  "GetUser userID m =
     (let rt = am_runtime m in
      if art_secret rt = [] then Inl (AErr ErrDisabled)
      else (case mget (art_users rt) userID of
          None \<Rightarrow> Inl (AErr ErrNotFound)
        | Some snapshot \<Rightarrow>
            let user = ru_user snapshot in
            Inr (sync_user rt (u_Inbound user) user, ru_revision snapshot)))"

text \<open>The managed listeners that have a state, in the order of the configuration.\<close>

definition managed_states :: "aster_manager \<Rightarrow> (string \<times> ListenerState) list" where
  "managed_states m = concat (map (\<lambda>nam. case mget (as_Listeners (am_store m)) nam of None \<Rightarrow> [] | Some state \<Rightarrow> [(nam, state)]) (config_names m))"

definition ListListeners :: "aster_manager \<Rightarrow> (manager_err + ListenerState list) \<times> aster_manager" where
  "ListListeners m =
     (if am_config m = None then (Inl (AErr ErrDisabled), m)
      else let m = syncTrafficLocked m in (Inr (sort_key ls_Name (map snd (managed_states m))), m))"

definition user_order :: "aster_user \<Rightarrow> string \<times> string \<times> string" where
  "user_order u = (u_Inbound u, u_Name u, u_ID u)"

definition ListUsers :: "string \<Rightarrow> aster_manager \<Rightarrow> (manager_err + aster_user list) \<times> aster_manager" where
  "ListUsers inbound m =
     (if am_config m = None then (Inl (AErr ErrDisabled), m)
      else let m = syncTrafficLocked m in
        (Inr (sort_key user_order (concat (map (\<lambda>(nam, state). if inbound \<noteq> [] \<and> nam \<noteq> inbound then [] else ls_Users state) (managed_states m)))), m))"

record UserRecord =
  ur_User :: aster_user
  ur_Revision :: int64
  ur_AppliedRevision :: int64

definition user_records :: "string \<Rightarrow> (string \<times> ListenerState) list \<Rightarrow> UserRecord list" where
  "user_records inbound states = sort_key (user_order \<circ> ur_User) (concat (map (\<lambda>(nam, state).
     if inbound \<noteq> [] \<and> nam \<noteq> inbound then []
     else map (\<lambda>u. \<lparr>ur_User = u, ur_Revision = ls_Revision state, ur_AppliedRevision = ls_AppliedRevision state\<rparr>) (ls_Users state)) states))"

definition ListUserRecords :: "string \<Rightarrow> aster_manager \<Rightarrow> (manager_err + UserRecord list) \<times> aster_manager" where
  "ListUserRecords inbound m =
     (if am_config m = None then (Inl (AErr ErrDisabled), m)
      else let m = syncTrafficLocked m in (Inr (user_records inbound (managed_states m)), m))"

definition ManagementSnapshot :: "string \<Rightarrow> aster_manager \<Rightarrow> (manager_err + ListenerState list \<times> UserRecord list) \<times> aster_manager" where
  "ManagementSnapshot inbound m =
     (if am_config m = None then (Inl (AErr ErrDisabled), m)
      else let m = syncTrafficLocked m in
        (Inr (sort_key ls_Name (map snd (managed_states m)), user_records inbound (managed_states m)), m))"

record ListenerSummary =
  lsm_Name :: string
  lsm_Protocol :: string
  lsm_UserCount :: nat
  lsm_EnabledUserCount :: nat
  lsm_Revision :: int64
  lsm_AppliedRevision :: int64

definition Summary :: "aster_manager \<Rightarrow> manager_err + ListenerSummary list \<times> nat \<times> nat" where
  "Summary m =
     (if am_config m = None then Inl (AErr ErrDisabled)
      else let ls = map (\<lambda>(_, state). \<lparr>lsm_Name = ls_Name state, lsm_Protocol = ls_Protocol state, lsm_UserCount = length (ls_Users state),
             lsm_EnabledUserCount = length (filter u_Enabled (ls_Users state)), lsm_Revision = ls_Revision state,
             lsm_AppliedRevision = ls_AppliedRevision state\<rparr>) (managed_states m)
           in Inr (sort_key lsm_Name ls, sum_list (map lsm_UserCount ls), sum_list (map lsm_EnabledUserCount ls)))"

definition SubscriptionToken :: "string \<Rightarrow> aster_manager \<Rightarrow> manager_err + string" where
  "SubscriptionToken userID m =
     (if am_config m = None then Inl (AErr ErrDisabled)
      else (case indexedUserLocked m userID of
          None \<Rightarrow> Inl (AErr ErrNotFound)
        | Some (_, _, user) \<Rightarrow>
            if u_Inbound user \<notin> set (art_managed (am_runtime m)) then Inl (AErr ErrNotFound)
            else Inr (case mget (as_Subscriptions (am_store m)) userID of Some t \<Rightarrow> t | None \<Rightarrow> [])))"

text \<open>The token is looked up without the lock in the runtime \<open>rt\<close> of that moment and checked again under the lock.\<close>

definition SubscriptionUser :: "string \<Rightarrow> aster_runtime \<Rightarrow> aster_manager \<Rightarrow> manager_err + aster_user" where
  "SubscriptionUser token rt m =
     (case mget (art_subscriptions rt) token of
        None \<Rightarrow> Inl (AErr ErrNotFound)
      | Some userID \<Rightarrow>
          if token = [] then Inl (AErr ErrNotFound)
          else if am_config m = None \<or> (case mget (as_Subscriptions (am_store m)) userID of Some t \<Rightarrow> t | None \<Rightarrow> []) \<noteq> token then Inl (AErr ErrNotFound)
          else (case indexedUserLocked m userID of
              None \<Rightarrow> Inl (AErr ErrNotFound)
            | Some (_, _, user) \<Rightarrow>
                if \<not> u_Enabled user \<or> u_Inbound user \<notin> set (art_managed (am_runtime m)) then Inl (AErr ErrNotFound) else Inr user))"

end
