(* ===== verification/Aster_Invariant.thy ===== *)
theory Aster_Invariant
  imports Aster_Users
begin

section \<open>Aster: the invariant of the manager\<close>

text \<open>
  What holds of the manager between its operations: the store is valid, the index of users is exact, and what
  is on disk is what is in memory, up to bytes that were counted since. The lemmas here are about loading, saving,
  publishing, indexing and failing closed; the operations follow in \<^verbatim>\<open>Aster_Reachable\<close>.
\<close>

text \<open>
  The bound on the attempts of \<open>seed_name\<close> is enough whenever lower case tells the names tried apart.
\<close>

fun seed_tries :: "nat \<Rightarrow> string \<Rightarrow> nat \<Rightarrow> string \<Rightarrow> string list" where
  "seed_tries 0 baseName sfx nam = []"
| "seed_tries (Suc fuel) baseName sfx nam = nam # seed_tries fuel baseName (sfx + 1) (baseName @ ''-'' @ FormatNat sfx)"

lemma seed_name_None: "seed_name fuel lib names b sfx nam = None \<longleftrightarrow> (\<forall>x \<in> set (seed_tries fuel b sfx nam). li_lower lib x \<in> set names)"
  by (induction fuel lib names b sfx nam rule: seed_name.induct) auto

lemma seed_name_finds:
  assumes "distinct (map (li_lower lib) (seed_tries (Suc (length names)) b 2 b))"
  obtains nam where "seed_name (Suc (length names)) lib names b 2 b = Some nam"
proof (cases "seed_name (Suc (length names)) lib names b 2 b")
  case None
  have len: "length (seed_tries fuel b sfx nam) = fuel" for fuel sfx nam
    by (induction fuel arbitrary: sfx nam) simp_all
  let ?xs = "map (li_lower lib) (seed_tries (Suc (length names)) b 2 b)"
  from None have "\<forall>x \<in> set (seed_tries (Suc (length names)) b 2 b). li_lower lib x \<in> set names" by (simp only: seed_name_None)
  then have "set ?xs \<subseteq> set names" by auto
  then have "card (set ?xs) \<le> card (set names)" by (intro card_mono) auto
  with distinct_card [OF assms] card_length [of names] len [of "Suc (length names)" 2 b] show ?thesis by simp
qed

lemma seed_name_free: "seed_name fuel lib names b sfx nam = Some x \<Longrightarrow> li_lower lib x \<notin> set names"
  by (induction fuel lib names b sfx nam rule: seed_name.induct) (auto split: if_splits)

subsection \<open>Stores up to traffic\<close>

text \<open>The store without the byte counts, which the counters of the runtime run ahead of.\<close>

definition strip_user :: "aster_user \<Rightarrow> aster_user" where
  "strip_user u = u\<lparr>u_UploadBytes := 0, u_DownloadBytes := 0\<rparr>"

definition strip_state :: "ListenerState \<Rightarrow> ListenerState" where
  "strip_state st = st\<lparr>ls_Users := map strip_user (ls_Users st)\<rparr>"

definition strip :: "aster_store \<Rightarrow> aster_store" where
  "strip s = s\<lparr>as_Listeners := map (map_prod id strip_state) (as_Listeners s)\<rparr>"

definition counted :: "aster_store \<Rightarrow> bool" where
  "counted s \<longleftrightarrow> (\<forall>(_, st) \<in> set (as_Listeners s). \<forall>u \<in> set (ls_Users st). 0 \<le> sint (u_UploadBytes u) \<and> 0 \<le> sint (u_DownloadBytes u))"

definition counters_ok :: "aster_runtime \<Rightarrow> bool" where
  "counters_ok rt \<longleftrightarrow> (\<forall>k c. mget (art_traffic rt) k = Some c \<longrightarrow> 0 \<le> sint (tk_upload c) \<and> 0 \<le> sint (tk_download c))"

lemma strip_user_simps [simp]:
  "u_ID (strip_user u) = u_ID u" "u_Name (strip_user u) = u_Name u" "u_Inbound (strip_user u) = u_Inbound u"
  "u_Protocol (strip_user u) = u_Protocol u" "u_TrafficGeneration (strip_user u) = u_TrafficGeneration u"
  "u_CreatedAt (strip_user u) = u_CreatedAt u" "u_UpdatedAt (strip_user u) = u_UpdatedAt u" "u_UUID (strip_user u) = u_UUID u"
  "u_Password (strip_user u) = u_Password u" "u_Flow (strip_user u) = u_Flow u" "u_Enabled (strip_user u) = u_Enabled u"
  "u_UploadBytes (strip_user u) = 0" "u_DownloadBytes (strip_user u) = 0"
  by (simp_all add: strip_user_def)

lemma strip_state_simps [simp]:
  "ls_ID (strip_state st) = ls_ID st" "ls_Name (strip_state st) = ls_Name st" "ls_Protocol (strip_state st) = ls_Protocol st"
  "ls_Revision (strip_state st) = ls_Revision st" "ls_AppliedRevision (strip_state st) = ls_AppliedRevision st"
  "ls_Users (strip_state st) = map strip_user (ls_Users st)"
  by (simp_all add: strip_state_def)

lemma strip_simps [simp]:
  "as_Version (strip s) = as_Version s" "as_Generation (strip s) = as_Generation s" "as_Subscriptions (strip s) = as_Subscriptions s"
  "as_Listeners (strip s) = map (map_prod id strip_state) (as_Listeners s)"
  by (simp_all add: strip_def)

lemma mget_strip: "mget (as_Listeners (strip s)) n = map_option strip_state (mget (as_Listeners s) n)"
  by (simp add: map_prod_def map_of_map id_def)

text \<open>Validity is a matter of the stripped store and of byte counts that are not negative.\<close>

lemma credential_strip [simp]: "credential_of lib (strip_user u) = credential_of lib u"
  by (simp add: credential_of_def userCredentialKey_def)

lemma token_strip [simp]: "token_of (strip s) (strip_user u) = token_of s u"
  by (simp add: token_of_def)

lemma listener_ok_strip:
  "listener_ok lib s inbound st \<longleftrightarrow> listener_ok lib (strip s) inbound (strip_state st)
     \<and> (\<forall>u \<in> set (ls_Users st). 0 \<le> sint (u_UploadBytes u) \<and> 0 \<le> sint (u_DownloadBytes u))"
proof -
  have u: "user_ok lib s inbound st u \<longleftrightarrow> user_ok lib (strip s) inbound (strip_state st) (strip_user u)
      \<and> 0 \<le> sint (u_UploadBytes u) \<and> 0 \<le> sint (u_DownloadBytes u)" for u
    by (auto simp: user_ok_def user_shape_ok_def user_meta_ok_def)
  show ?thesis by (auto simp: listener_ok_def listener_shape_ok_def u comp_def)
qed

lemma all_users_strip: "all_users (strip s) = map strip_user (all_users s)"
  by (simp add: all_users_def map_concat comp_def case_prod_unfold map_prod_def)

lemma store_ok_strip: "store_ok lib s \<longleftrightarrow> store_ok lib (strip s) \<and> counted s"
proof -
  have "(\<forall>(inbound, state) \<in> set (as_Listeners s). listener_ok lib s inbound state) \<longleftrightarrow>
      (\<forall>(inbound, state) \<in> set (as_Listeners (strip s)). listener_ok lib (strip s) inbound state) \<and> counted s"
    by (simp add: counted_def listener_ok_strip [of lib s] case_prod_unfold) blast
  then show ?thesis
    by (auto simp: store_ok_def all_users_strip comp_def image_image)
qed

lemma store_ok_strip_eq: "strip s = strip s' \<Longrightarrow> counted s' \<Longrightarrow> store_ok lib s \<Longrightarrow> store_ok lib s'"
  using store_ok_strip [of lib s] store_ok_strip [of lib s'] by simp

lemma map_fst_strip: "map fst (as_Listeners (strip s)) = map fst (as_Listeners s)"
  by (simp add: comp_def)

lemma mkeys_strip_eq: "strip s = strip s' \<Longrightarrow> mkeys_ok (as_Listeners s) \<Longrightarrow> mkeys_ok (as_Listeners s')"
  using map_fst_strip [of s] map_fst_strip [of s'] by metis

subsection \<open>Synchronizing\<close>

lemma strip_sync_user [simp]: "strip_user (sync_user rt n u) = strip_user u"
  by (simp add: sync_user_def strip_user_def split: option.splits)

lemma strip_sync [simp]: "strip (syncTrafficStore rt s) = strip s"
  by (simp add: strip_def syncTrafficStore_def strip_state_def comp_def case_prod_unfold map_prod_def)

lemma counted_sync: "counted s \<Longrightarrow> counters_ok rt \<Longrightarrow> counted (syncTrafficStore rt s)"
  by (fastforce simp: counted_def counters_ok_def syncTrafficStore_def sync_user_def split: option.splits)

subsection \<open>The runtime that is published\<close>

lemma counter_for_ok:
  assumes "counters_ok previous" "0 \<le> sint (u_UploadBytes u)" "0 \<le> sint (u_DownloadBytes u)"
  shows "0 \<le> sint (tk_upload (counter_for previous p n u))" "0 \<le> sint (tk_download (counter_for previous p n u))"
  using assms by (auto simp: counter_for_def counters_ok_def split: option.splits)

lemma publish_user_counters:
  assumes "counters_ok rt" "counters_ok previous" "0 \<le> sint (u_UploadBytes u)" "0 \<le> sint (u_DownloadBytes u)"
  shows "counters_ok (publish_user previous n st rt u)"
  using assms counter_for_ok [OF assms(2-4)] by (auto simp: publish_user_def counters_ok_def Let_def)

lemma counters_ok_frame [simp]:
  "counters_ok (rt\<lparr>art_subscriptions := x\<rparr>) \<longleftrightarrow> counters_ok rt"
  "counters_ok (rt\<lparr>art_storePath := a, art_secret := b, art_publicBaseURL := c, art_managed := d\<rparr>) \<longleftrightarrow> counters_ok rt"
  by (simp_all add: counters_ok_def)

lemma newRuntime_counters [simp]: "counters_ok newRuntimeState"
  by (simp add: counters_ok_def newRuntimeState_def)

lemma buildRuntimeState_counters:
  assumes "counted s" "counters_ok previous"
  shows "counters_ok (buildRuntimeState c p s previous)"
proof (cases c)
  case (Some c')
  have "counters_ok (foldl (publish_listener previous) rt (as_Listeners s))" if "counters_ok rt" for rt
    using that
  proof (rule foldl_invariant)
    fix rt entry assume e: "entry \<in> set (as_Listeners s)" and rt: "counters_ok rt"
    obtain n st where nst: "entry = (n, st)" by (cases entry)
    show "counters_ok (publish_listener previous rt entry)"
      unfolding publish_listener_def nst prod.case Let_def using rt
      by (rule foldl_invariant) (use e nst assms in \<open>auto intro!: publish_user_counters simp: counted_def\<close>)
  qed
  then show ?thesis by (simp add: buildRuntimeState_def Some Let_def)
qed (simp add: buildRuntimeState_def)

lemma RecordTraffic_counters:
  assumes "counters_ok (am_runtime m)"
  shows "counters_ok (am_runtime (RecordTraffic n u up down m))"
proof -
  have "0 \<le> sint (addTraffic_next a b)" if "0 \<le> sint a" "0 < sint b" for a b :: int64
    using that addTraffic_next [of a b] by simp
  then show ?thesis using assms by (auto simp: RecordTraffic_def counters_ok_def Let_def split: option.splits)
qed

subsection \<open>The index\<close>

definition located :: "aster_store \<Rightarrow> string \<Rightarrow> userLocation \<Rightarrow> bool" where
  "located s userID loc \<longleftrightarrow> (\<exists>st. mget (as_Listeners s) (loc_inbound loc) = Some st \<and> loc_index loc < length (ls_Users st)
     \<and> u_ID (ls_Users st ! loc_index loc) = userID)"

lemma foldl_mset: "mget (foldl (\<lambda>m x. mset' (f x) (g x) m) m xs) = mget m ++ map_of (rev (map (\<lambda>x. (f x, g x)) xs))"
  by (induction xs arbitrary: m) auto

lemma enumerate_keys: "map fst (map (\<lambda>(i, u). (f u, g i)) (enumerate j us)) = map f us"
  by (induction us arbitrary: j) simp_all

lemma enumerate_mem: "(k, v) \<in> set (map (\<lambda>(i, u). (f u, g i)) (enumerate 0 us)) \<longleftrightarrow> (\<exists>i < length us. k = f (us ! i) \<and> v = g i)"
proof -
  have "(k, v) \<in> set (map (\<lambda>(i, u). (f u, g i)) (enumerate j us)) \<longleftrightarrow> (\<exists>i < length us. k = f (us ! i) \<and> v = g (j + i))" for j
  proof (induction us arbitrary: j)
    case (Cons u us)
    then show ?case by (auto simp: less_Suc_eq_0_disj)
  qed simp
  from this [of 0] show ?thesis by simp
qed

lemma index_listener_view:
  assumes "distinct (map u_ID us)"
  shows "mget (index_listener index n us) k = Some loc \<longleftrightarrow>
     (if k \<in> u_ID ` set us then loc_inbound loc = n \<and> loc_index loc < length us \<and> u_ID (us ! loc_index loc) = k else mget index k = Some loc)"
proof -
  let ?e = "map (\<lambda>(i, u). (u_ID u, \<lparr>loc_inbound = n, loc_index = i\<rparr>)) (enumerate 0 us)"
  have keys: "map fst ?e = map u_ID us" by (rule enumerate_keys)
  then have d: "distinct (map fst (rev ?e))" using assms by (simp add: rev_map [symmetric])
  have view: "mget (index_listener index n us) = mget index ++ map_of (rev ?e)"
    unfolding index_listener_def using foldl_mset [of "\<lambda>p. u_ID (snd p)" "\<lambda>p. \<lparr>loc_inbound = n, loc_index = fst p\<rparr>"] by (simp add: case_prod_unfold)
  have mem: "(k, loc) \<in> set ?e \<longleftrightarrow> loc_inbound loc = n \<and> loc_index loc < length us \<and> u_ID (us ! loc_index loc) = k"
    unfolding enumerate_mem by (cases loc) auto
  have "map_of (rev ?e) k = Some loc \<longleftrightarrow> (k, loc) \<in> set ?e" using d by (simp only: map_of_eq_Some_iff set_rev)
  moreover have "map_of (rev ?e) k = None \<longleftrightarrow> k \<notin> u_ID ` set us"
    using arg_cong [OF keys, of set] by (simp only: map_of_eq_None_iff set_rev) (simp add: image_image)
  ultimately show ?thesis unfolding view mem by (cases "map_of (rev ?e) k") (auto simp: map_add_def)
qed

lemma index_store_view:
  assumes "distinct (map u_ID (concat (map (\<lambda>(_, st). ls_Users st) ls)))" "distinct (map fst ls)"
  shows "mget (foldl (\<lambda>index (n, st). index_listener index n (ls_Users st)) index ls) k = Some loc \<longleftrightarrow>
     (if k \<in> u_ID ` set (concat (map (\<lambda>(_, st). ls_Users st) ls))
      then (\<exists>st. (loc_inbound loc, st) \<in> set ls \<and> loc_index loc < length (ls_Users st) \<and> u_ID (ls_Users st ! loc_index loc) = k)
      else mget index k = Some loc)"
  using assms
proof (induction ls arbitrary: index)
  case (Cons l ls)
  obtain n st where l: "l = (n, st)" by (cases l)
  let ?rest = "concat (map (\<lambda>(_, st). ls_Users st) ls)"
  have d: "distinct (map u_ID (ls_Users st))" "distinct (map u_ID ?rest)" "u_ID ` set (ls_Users st) \<inter> u_ID ` set ?rest = {}"
    using Cons.prems(1) by (auto simp: l)
  define A where "A = u_ID ` set (ls_Users st)"
  define R where "R = u_ID ` set ?rest"
  define H where "H \<longleftrightarrow> loc_inbound loc = n \<and> loc_index loc < length (ls_Users st) \<and> u_ID (ls_Users st ! loc_index loc) = k"
  define P where "P \<longleftrightarrow> (\<exists>st. (loc_inbound loc, st) \<in> set ls \<and> loc_index loc < length (ls_Users st) \<and> u_ID (ls_Users st ! loc_index loc) = k)"
  have U: "u_ID ` set (concat (map (\<lambda>(_, st). ls_Users st) (l # ls))) = A \<union> R" by (simp add: l A_def R_def image_Un)
  have Q: "(\<exists>st. (loc_inbound loc, st) \<in> set (l # ls) \<and> loc_index loc < length (ls_Users st) \<and> u_ID (ls_Users st ! loc_index loc) = k) \<longleftrightarrow> H \<or> P"
    by (auto simp: l H_def P_def)
  have IH: "mget (foldl (\<lambda>index (n, st). index_listener index n (ls_Users st)) index (l # ls)) k = Some loc \<longleftrightarrow>
      (if k \<in> R then P else mget (index_listener index n (ls_Users st)) k = Some loc)"
    using Cons.IH [OF d(2), of "index_listener index n (ls_Users st)"] Cons.prems(2) by (simp add: l P_def R_def)
  have "ls_Users st ! i \<in> set ?rest" if "(n, st) \<in> set ls" "i < length (ls_Users st)" for n st i
    using that by (auto intro!: bexI [of _ "(n, st)"])
  then have "H \<Longrightarrow> k \<in> A" "P \<Longrightarrow> k \<in> R" unfolding H_def A_def P_def R_def by auto
  moreover have "A \<inter> R = {}" using d(3) by (simp add: A_def R_def)
  moreover have "mget (index_listener index n (ls_Users st)) k = Some loc \<longleftrightarrow> (if k \<in> A then H else mget index k = Some loc)"
    by (simp add: index_listener_view [OF d(1)] A_def H_def)
  ultimately show ?case unfolding U Q IH by auto
qed simp

lemma all_users_mem: "(n, st) \<in> set (as_Listeners s) \<Longrightarrow> u \<in> set (ls_Users st) \<Longrightarrow> u \<in> set (all_users s)"
  unfolding all_users_def set_concat set_map by (rule UN_I [OF imageI]) auto

lemma located_user: "located s k loc \<Longrightarrow> k \<in> u_ID ` set (all_users s)"
  unfolding located_def by (auto dest!: map_of_SomeD intro!: imageI all_users_mem)

lemma buildUserIndex_located:
  assumes "store_ok lib s" "mkeys_ok (as_Listeners s)"
  shows "mget (buildUserIndex s) k = Some loc \<longleftrightarrow> located s k loc"
proof -
  have d: "distinct (map u_ID (concat (map (\<lambda>(_, st). ls_Users st) (as_Listeners s))))"
    using assms(1) by (simp add: store_ok_def all_users_def)
  have l: "(\<exists>st. (loc_inbound loc, st) \<in> set (as_Listeners s) \<and> loc_index loc < length (ls_Users st) \<and> u_ID (ls_Users st ! loc_index loc) = k)
      \<longleftrightarrow> located s k loc"
    using assms(2) by (simp add: located_def)
  show ?thesis
    unfolding buildUserIndex_def index_store_view [OF d assms(2)] l
    using located_user [of s k loc] by (auto simp: all_users_def simp del: set_concat)
qed

subsection \<open>The invariant of the manager\<close>

definition store_wf :: "aster_lib \<Rightarrow> aster_store \<Rightarrow> bool" where
  "store_wf lib s \<longleftrightarrow> store_ok lib s \<and> mkeys_ok (as_Listeners s) \<and> mkeys_ok (as_Subscriptions s)"

text \<open>What the code relies on of the JSON codec: it reads back what it wrote, and a decoded map has each key once.\<close>

definition codec_ok :: "aster_lib \<Rightarrow> bool" where
  "codec_ok lib \<longleftrightarrow> (\<forall>s. store_wf lib s \<longrightarrow> li_Unmarshal lib (store_bytes lib s) = Some s)
     \<and> (\<forall>d s. li_Unmarshal lib d = Some s \<longrightarrow> mkeys_ok (as_Listeners s) \<and> mkeys_ok (as_Subscriptions s))"

definition saved :: "aster_lib \<Rightarrow> store_disk \<Rightarrow> aster_store \<Rightarrow> bool" where
  "saved lib disk s \<longleftrightarrow> (\<exists>st r. loadStore lib disk = Inr (st, r) \<and> strip st = strip s)"

definition m_inv :: "aster_lib \<Rightarrow> (string \<Rightarrow> store_disk) \<Rightarrow> aster_manager \<Rightarrow> bool" where
  "m_inv lib disks m \<longleftrightarrow> store_wf lib (am_store m)
     \<and> (\<forall>k loc. mget (am_userIndex m) k = Some loc \<longleftrightarrow> located (am_store m) k loc)
     \<and> (am_locked m \<longleftrightarrow> am_storePath m \<noteq> []) \<and> (am_storePath m = [] \<longrightarrow> as_Listeners (am_store m) = []) \<and> (am_config m \<noteq> None \<longrightarrow> am_storePath m \<noteq> [])
     \<and> (am_storePath m \<noteq> [] \<longrightarrow> saved lib (disks (am_storePath m)) (am_store m)) \<and> counters_ok (am_runtime m)"

definition aster_inv :: "aster_env \<Rightarrow> aster_sys \<Rightarrow> bool" where
  "aster_inv env sys \<longleftrightarrow> m_inv (ae_lib env) (sy_disks sys) (sy_m sys)"

lemma newStore_wf [simp]: "store_wf lib newStore"
  by (simp add: store_wf_def store_ok_def newStore_def all_users_def)

lemma located_newStore [simp]: "\<not> located newStore k loc"
  by (simp add: located_def newStore_def)

lemma located_strip: "strip s = strip s' \<Longrightarrow> located s k loc \<longleftrightarrow> located s' k loc"
proof -
  have "located (strip s) k loc \<longleftrightarrow> located s k loc" for s
    by (auto simp: located_def mget_strip simp del: strip_simps(4))
  then show "strip s = strip s' \<Longrightarrow> ?thesis" by metis
qed

lemma wf_counted: "store_wf lib s \<Longrightarrow> counted s"
  using store_ok_strip [of lib s] by (simp add: store_wf_def)

lemma wf_strip_eq: "store_wf lib s \<Longrightarrow> strip s' = strip s \<Longrightarrow> counted s' \<Longrightarrow> store_wf lib s'"
  using store_ok_strip_eq [of s s' lib] mkeys_strip_eq [of s s'] strip_simps(3) [of s] strip_simps(3) [of s']
  by (simp add: store_wf_def del: strip_simps(3))

lemma m_inv_store:
  assumes "m_inv lib disks m" "strip s = strip (am_store m)" "counted s"
  shows "m_inv lib disks (m\<lparr>am_store := s\<rparr>)"
proof -
  have "as_Listeners s = [] \<longleftrightarrow> as_Listeners (am_store m) = []"
    using arg_cong [OF map_fst_strip [of s, unfolded assms(2) map_fst_strip], of length] by auto
  then show ?thesis
    using assms located_strip [OF assms(2)] wf_strip_eq [OF _ assms(2,3), of lib] by (simp add: m_inv_def saved_def)
qed

lemma m_inv_runtime: "m_inv lib disks m \<Longrightarrow> counters_ok rt \<Longrightarrow> m_inv lib disks (m\<lparr>am_runtime := rt\<rparr>)"
  by (simp add: m_inv_def)

lemma m_inv_frame [simp]:
  "m_inv lib disks (m\<lparr>am_dirty := d\<rparr>) \<longleftrightarrow> m_inv lib disks m" "m_inv lib disks (m\<lparr>am_flushing := d\<rparr>) \<longleftrightarrow> m_inv lib disks m"
  "m_inv lib disks (m\<lparr>am_instances := i\<rparr>) \<longleftrightarrow> m_inv lib disks m"
  by (simp_all add: m_inv_def)

lemma m_inv_config: "m_inv lib disks m \<Longrightarrow> m_inv lib disks (m\<lparr>am_config := None\<rparr>)"
  by (simp add: m_inv_def)

lemma m_inv_sync:
  assumes "m_inv lib disks m"
  shows "m_inv lib disks (syncTrafficLocked m)"
proof -
  have "counted (syncTrafficStore (am_runtime m) (am_store m))"
    using assms by (auto simp: m_inv_def wf_counted intro!: counted_sync)
  from m_inv_store [OF assms _ this] show ?thesis by (simp add: syncTrafficLocked_def)
qed

lemma m_inv_swap:
  assumes "m_inv lib disks m" "counters_ok rt"
  shows "m_inv lib disks (swap_own rt m)"
proof -
  have "swap_own rt m = (syncTrafficLocked m)\<lparr>am_runtime := rt\<rparr>" by (simp add: swap_own_def swapRuntimeLocked_def syncTrafficLocked_def)
  with m_inv_runtime [OF m_inv_sync [OF assms(1)] assms(2)] show ?thesis by simp
qed

lemma m_inv_publish: "m_inv lib disks m \<Longrightarrow> m_inv lib disks (publishLocked m)"
  unfolding publishLocked_def
  by (rule m_inv_swap) (auto simp: m_inv_def wf_counted intro!: buildRuntimeState_counters)

lemma m_inv_release: "m_inv lib disks m \<Longrightarrow> am_config m = None \<Longrightarrow> m_inv lib disks (releaseStoreLocked m)"
  by (simp add: m_inv_def releaseStoreLocked_def) (simp add: newStore_def)

subsection \<open>Loading and saving\<close>

lemma loadStore_wf:
  assumes "codec_ok lib" "loadStore lib d = Inr (s, r)"
  shows "store_wf lib s"
proof -
  have v: "store_wf lib st" if "readValidatedStore lib f = Inr st" for f st
    using that assms(1) validateStore_iff [of lib st]
    by (auto simp: readValidatedStore_def readStore_def bindR_eq_Inr codec_ok_def store_wf_def split: store_file.splits if_splits option.splits)
  show ?thesis using assms(2) v [of "sl_file (dk_primary d)"] v [of "sl_file (dk_backup d)"]
    by (auto simp: loadStore_def Let_def split: sum.splits if_splits)
qed

lemma save_loads:
  assumes codec: "codec_ok lib" and load: "loadStore lib d = Inr (committed, rec)"
    and keys: "mkeys_ok (as_Listeners s)" "mkeys_ok (as_Subscriptions s)"
    and save: "saveStoreLocked lib e d s = (disks, r)"
  shows "case r of Inl _ \<Rightarrow> loadStore lib (last disks) = Inr (committed, rec)
    | Inr s' \<Rightarrow> s' = candidate_of s \<and> store_wf lib s' \<and> (\<exists>r. loadStore lib (last disks) = Inr (s', r))"
proof (cases "store_ok lib (candidate_of s)")
  case True
  then have wf: "store_wf lib (candidate_of s)" using keys by (simp add: store_wf_def candidate_of_def)
  with codec have "li_Unmarshal lib (store_bytes lib (candidate_of s)) = Some (candidate_of s)" by (simp add: codec_ok_def)
  from saveStoreLocked_safe [OF load this save] wf show ?thesis by (auto split: sum.splits)
next
  case False
  then obtain x where "validateStore lib (candidate_of s) = Inl x"
    using validateStore_iff [of lib "candidate_of s"] by (cases "validateStore lib (candidate_of s)") auto
  with save load show ?thesis by (auto simp: saveStoreLocked_def split: if_splits)
qed

lemma persistStore_cases:
  assumes codec: "codec_ok (ae_lib env)" and load: "loadStore (ae_lib env) (sy_disks sys path) = Inr (committed, rec)"
    and keys: "mkeys_ok (as_Listeners s)" "mkeys_ok (as_Subscriptions s)" and p: "persistStore env path s sys = (r, sys')"
  shows "sy_m sys' = sy_m sys" "sy_reg sys' = sy_reg sys" "q \<noteq> path \<Longrightarrow> sy_disks sys' q = sy_disks sys q"
    "case r of Inl _ \<Rightarrow> loadStore (ae_lib env) (sy_disks sys' path) = Inr (committed, rec)
     | Inr s' \<Rightarrow> s' = candidate_of s \<and> store_wf (ae_lib env) s' \<and> (\<exists>r. loadStore (ae_lib env) (sy_disks sys' path) = Inr (s', r))"
proof -
  obtain disks r0 where s: "saveStoreLocked (ae_lib env) (ae_save env (sy_tick sys)) (sy_disks sys path) s = (disks, r0)" by fastforce
  with p have r: "r = r0" "sys' = sys\<lparr>sy_disks := (sy_disks sys)(path := last disks), sy_tick := sy_tick sys + 1\<rparr>"
    by (simp_all add: persistStore_def)
  show "sy_m sys' = sy_m sys" "sy_reg sys' = sy_reg sys" "q \<noteq> path \<Longrightarrow> sy_disks sys' q = sy_disks sys q" by (simp_all add: r)
  show "case r of Inl _ \<Rightarrow> loadStore (ae_lib env) (sy_disks sys' path) = Inr (committed, rec)
     | Inr s' \<Rightarrow> s' = candidate_of s \<and> store_wf (ae_lib env) s' \<and> (\<exists>r. loadStore (ae_lib env) (sy_disks sys' path) = Inr (s', r))"
    using save_loads [OF codec load keys s] by (simp add: r split: sum.splits)
qed

subsection \<open>The index after a mutation\<close>

lemma located_unique:
  assumes "store_wf lib s" "located s k loc" "located s k loc'"
  shows "loc = loc'"
  using assms buildUserIndex_located [of lib s k loc] buildUserIndex_located [of lib s k loc'] by (simp add: store_wf_def)

lemma located_here:
  assumes "mget (as_Listeners s) n = Some st" "k \<in> u_ID ` set (ls_Users st)"
  shows "\<exists>i < length (ls_Users st). u_ID (ls_Users st ! i) = k \<and> located s k \<lparr>loc_inbound = n, loc_index = i\<rparr>"
  using assms by (auto simp: located_def in_set_conv_nth)

lemma located_in: "located s k loc \<Longrightarrow> mget (as_Listeners s) (loc_inbound loc) = Some st \<Longrightarrow> k \<in> u_ID ` set (ls_Users st)"
  by (auto simp: located_def)

lemma reindex_located:
  assumes wf: "store_wf lib s" "store_wf lib s'" and l: "mget (as_Listeners s') = (mget (as_Listeners s))(n \<mapsto> st')"
    and st: "mget (as_Listeners s) n = Some st" and nm: "ls_Name st' = n"
    and idx: "\<And>k loc. mget idx k = Some loc \<longleftrightarrow> located s k loc"
  shows "mget (index_listener (fold (\<lambda>user. mdel (u_ID user)) (ls_Users st) idx) (ls_Name st') (ls_Users st')) k = Some loc \<longleftrightarrow> located s' k loc"
proof -
  have st': "mget (as_Listeners s') n = Some st'" by (simp add: l)
  have d: "distinct (map u_ID (ls_Users st'))"
  proof -
    have "(n, st') \<in> set (as_Listeners s')" using st' by (rule map_of_SomeD)
    then obtain xs ys where "as_Listeners s' = xs @ (n, st') # ys" by (auto simp: in_set_conv_decomp)
    with wf(2) show ?thesis by (simp add: store_wf_def store_ok_def all_users_def)
  qed
  have del: "mget (fold (\<lambda>user. mdel (u_ID user)) (ls_Users st) idx) k = (if k \<in> u_ID ` set (ls_Users st) then None else mget idx k)"
    using gm.lookup_fold_delete [of "map u_ID (ls_Users st)" idx k] by (simp add: fold_map comp_def)
  have same: "loc_inbound loc \<noteq> n \<Longrightarrow> located s' k loc \<longleftrightarrow> located s k loc" by (simp add: located_def l)
  show ?thesis
  proof (cases "k \<in> u_ID ` set (ls_Users st')")
    case True
    from located_here [OF st' True] obtain i where i: "located s' k \<lparr>loc_inbound = n, loc_index = i\<rparr>" by blast
    have "located s' k loc \<Longrightarrow> loc_inbound loc = n" by (drule located_unique [OF wf(2) i]) auto
    with True st' show ?thesis by (auto simp: index_listener_view [OF d] nm located_def)
  next
    case False
    have "located s' k loc \<Longrightarrow> loc_inbound loc \<noteq> n" using located_in [of s' k loc st'] st' False by auto
    moreover have "k \<in> u_ID ` set (ls_Users st) \<longleftrightarrow> loc_inbound loc = n" if L: "located s k loc"
    proof
      assume "k \<in> u_ID ` set (ls_Users st)"
      from located_here [OF st this] obtain i where "located s k \<lparr>loc_inbound = n, loc_index = i\<rparr>" by blast
      from located_unique [OF wf(1) L this] show "loc_inbound loc = n" by simp
    next
      assume "loc_inbound loc = n"
      with located_in [OF L] st show "k \<in> u_ID ` set (ls_Users st)" by simp
    qed
    ultimately show ?thesis using False same by (auto simp: index_listener_view [OF d] nm del idx)
  qed
qed

lemma wf_name: "store_wf lib s \<Longrightarrow> mget (as_Listeners s) n = Some st \<Longrightarrow> ls_Name st = n"
  by (force simp: store_wf_def store_ok_def listener_ok_def listener_shape_ok_def dest: map_of_SomeD)

text \<open>Equivalence of the index with a search.\<close>

lemma findUser_from_view:
  "findUser_from ls k = Some (n, st, u) \<Longrightarrow> (n, st) \<in> set ls \<and> u \<in> set (ls_Users st) \<and> u_ID u = k"
  "findUser_from ls k = None \<longleftrightarrow> (\<forall>(n, st) \<in> set ls. k \<notin> u_ID ` set (ls_Users st))"
  by (induction ls) (auto simp: findUserInListener_def find_Some_iff find_None_iff split: option.splits)

lemma indexedUser_findUser:
  assumes wf: "store_wf lib (am_store m)" and idx: "\<And>k loc. mget (am_userIndex m) k = Some loc \<longleftrightarrow> located (am_store m) k loc"
  shows "indexedUserLocked m k = findUser (am_store m) k"
proof (cases "findUser (am_store m) k")
  case None
  then have no: "\<forall>(n, st) \<in> set (as_Listeners (am_store m)). k \<notin> u_ID ` set (ls_Users st)"
    by (simp only: findUser_def findUser_from_view(2))
  have "\<not> located (am_store m) k loc" for loc
    using no by (force simp: located_def dest!: map_of_SomeD)
  then have "mget (am_userIndex m) k = None" using idx [of k] by (cases "mget (am_userIndex m) k") auto
  with None show ?thesis by (simp add: indexedUserLocked_def)
next
  case (Some r)
  obtain n st u where r: "r = (n, st, u)" by (cases r)
  with Some findUser_from_view(1) have f: "(n, st) \<in> set (as_Listeners (am_store m))" "u \<in> set (ls_Users st)" "u_ID u = k"
    unfolding findUser_def by blast+
  then have st: "mget (as_Listeners (am_store m)) n = Some st" using wf by (simp add: store_wf_def)
  obtain i where i: "i < length (ls_Users st)" "ls_Users st ! i = u" using f(2) by (auto simp: in_set_conv_nth)
  have "located (am_store m) k \<lparr>loc_inbound = n, loc_index = i\<rparr>" using st i f(3) by (simp add: located_def)
  with idx have "mget (am_userIndex m) k = Some \<lparr>loc_inbound = n, loc_index = i\<rparr>" by blast
  with Some r st i f(3) show ?thesis by (simp add: indexedUserLocked_def)
qed

subsection \<open>Every operation keeps the invariant\<close>

lemma aster_inv_frame [simp]:
  "aster_inv env (sys\<lparr>sy_reg := r\<rparr>) \<longleftrightarrow> aster_inv env sys" "aster_inv env (sys\<lparr>sy_tick := t\<rparr>) \<longleftrightarrow> aster_inv env sys"
  "aster_inv env (set_dirty d sys) \<longleftrightarrow> aster_inv env sys" "aster_inv env (undo_dirty d sys) \<longleftrightarrow> aster_inv env sys"
  "aster_inv env (skip_ticks sys) \<longleftrightarrow> aster_inv env sys"
  by (simp_all add: aster_inv_def set_dirty_def undo_dirty_def skip_ticks_def)

lemma aster_inv_m: "aster_inv env (sys\<lparr>sy_m := m\<rparr>) \<longleftrightarrow> m_inv (ae_lib env) (sy_disks sys) m"
  by (simp add: aster_inv_def)

lemma located_candidate [simp]: "located (candidate_of s) k loc \<longleftrightarrow> located s k loc"
  by (simp add: located_def candidate_of_def)

lemma listeners_candidate [simp]: "as_Listeners (candidate_of s) = as_Listeners s" "as_Subscriptions (candidate_of s) = as_Subscriptions s"
  by (simp_all add: candidate_of_def)

text \<open>The store of the manager after it was saved.\<close>

lemma m_inv_saved:
  assumes "m_inv lib disks m" "store_wf lib (candidate_of (am_store m))" "loadStore lib (disks' (am_storePath m)) = Inr (candidate_of (am_store m), r)"
  shows "m_inv lib disks' (m\<lparr>am_store := candidate_of (am_store m)\<rparr>)"
  using assms by (auto simp: m_inv_def saved_def)

lemma persist_own_inv:
  assumes codec: "codec_ok (ae_lib env)" and inv: "aster_inv env sys" and path: "am_storePath (sy_m sys) \<noteq> []"
    and p: "persist_own env sys = (e, sys')"
  shows "aster_inv env sys'" "sy_reg sys' = sy_reg sys"
    "q \<noteq> am_storePath (sy_m sys) \<Longrightarrow> sy_disks sys' q = sy_disks sys q"
    "sy_m sys' = (case e of Some _ \<Rightarrow> sy_m sys | None \<Rightarrow> (sy_m sys)\<lparr>am_store := candidate_of (am_store (sy_m sys))\<rparr>)"
proof -
  let ?m = "sy_m sys"
  from inv path obtain st r where st: "loadStore (ae_lib env) (sy_disks sys (am_storePath ?m)) = Inr (st, r)" "strip st = strip (am_store ?m)"
    by (auto simp: aster_inv_def m_inv_def saved_def)
  obtain res sys1 where ps: "persistStore env (am_storePath ?m) (am_store ?m) sys = (res, sys1)" by fastforce
  have keys: "mkeys_ok (as_Listeners (am_store ?m))" "mkeys_ok (as_Subscriptions (am_store ?m))"
    using inv by (simp_all add: aster_inv_def m_inv_def store_wf_def)
  note c = persistStore_cases [OF codec st(1) keys ps]
  show "sy_reg sys' = sy_reg sys" "q \<noteq> am_storePath (sy_m sys) \<Longrightarrow> sy_disks sys' q = sy_disks sys q"
    "sy_m sys' = (case e of Some _ \<Rightarrow> sy_m sys | None \<Rightarrow> (sy_m sys)\<lparr>am_store := candidate_of (am_store (sy_m sys))\<rparr>)"
    using p ps c by (auto simp: persist_own_def split: sum.splits)
  show "aster_inv env sys'"
  proof (cases res)
    case (Inl x)
    with p ps c inv st(2) show ?thesis by (auto simp: persist_own_def aster_inv_def m_inv_def saved_def)
  next
    case (Inr s')
    with c have s': "s' = candidate_of (am_store ?m)" "store_wf (ae_lib env) s'"
      "\<exists>r. loadStore (ae_lib env) (sy_disks sys1 (am_storePath ?m)) = Inr (s', r)" by auto
    then obtain r where "loadStore (ae_lib env) (sy_disks sys1 (am_storePath ?m)) = Inr (s', r)" by blast
    with m_inv_saved [of "ae_lib env" "sy_disks sys" ?m "sy_disks sys1" r] inv s'
    show ?thesis using Inr p ps c(1) by (auto simp: persist_own_def aster_inv_def)
  qed
qed

lemma failClosedStateLocked_inv:
  assumes codec: "codec_ok (ae_lib env)" and inv: "aster_inv env sys" and f: "failClosedStateLocked env names sys = (errs, sys')"
  shows "aster_inv env sys'"
proof -
  obtain cerr reg where loop: "fail_closed_loop env (sortedSetKeys (names @ config_names (sy_m sys))) (sy_reg sys) = (cerr, reg)" by fastforce
  define sys1 where "sys1 = sys\<lparr>sy_reg := reg, sy_m := swap_own newRuntimeState (sy_m sys)\<rparr>"
  obtain pe sys2 where pe: "(if am_storePath (sy_m sys1) \<noteq> [] then persist_own env sys1 else (None, sys1)) = (pe, sys2)" by fastforce
  have "aster_inv env sys1" using m_inv_swap [of "ae_lib env" "sy_disks sys" "sy_m sys" newRuntimeState] inv
    by (simp add: sys1_def aster_inv_def)
  with pe persist_own_inv(1) [OF codec, of sys1] have "aster_inv env sys2" by (auto split: if_splits)
  then have m: "m_inv (ae_lib env) (sy_disks sys2) ((sy_m sys2)\<lparr>am_config := None, am_instances := []\<rparr>)"
    by (simp add: aster_inv_def m_inv_config)
  show ?thesis
  proof (cases pe)
    case (Some e)
    with f loop pe [unfolded sys1_def] have "sys' = sys2\<lparr>sy_m := (sy_m sys2)\<lparr>am_config := None, am_instances := []\<rparr>\<lparr>am_dirty := True\<rparr>\<rparr>"
      by (simp add: failClosedStateLocked_def Let_def sys1_def)
    with m show ?thesis by (simp add: aster_inv_m)
  next
    case None
    with f loop pe [unfolded sys1_def] have "sys' = sys2\<lparr>sy_m := releaseStoreLocked (stopFlusherLocked ((sy_m sys2)\<lparr>am_config := None, am_instances := []\<rparr>\<lparr>am_dirty := False\<rparr>))\<rparr>"
      by (simp add: failClosedStateLocked_def Let_def sys1_def)
    with m show ?thesis by (simp add: aster_inv_m m_inv_release stopFlusherLocked_def)
  qed
qed

lemma revert_changes_inv:
  assumes "codec_ok (ae_lib env)" "aster_inv env sys" "revert_changes env names changes sys = (errs, sys')"
  shows "aster_inv env sys'"
  using assms failClosedStateLocked_inv [OF assms(1)]
  by (auto simp: revert_changes_def Let_def split: prod.splits if_splits) (metis aster_inv_frame(1))+

lemma apply_or_close_inv:
  assumes "codec_ok (ae_lib env)" "aster_inv env sys" "apply_or_close env names changes sys = (errs, sys')"
  shows "aster_inv env sys'"
  using assms failClosedStateLocked_inv [OF assms(1)]
  by (auto simp: apply_or_close_def Let_def split: prod.splits if_splits) (metis aster_inv_frame(1))+

end
