(* ===== verification/Aster_Reachable.thy ===== *)
theory Aster_Reachable
  imports Aster_Invariant
begin

section \<open>Aster: reachable states\<close>

text \<open>
  Every operation of \<^verbatim>\<open>component/aster\<close> keeps the invariant of the manager, whatever the environment lets
  fail; so it holds in every state the manager can reach. A concrete codec and a concrete
  environment show that the assumptions can be met.
\<close>

definition mutation_ok :: "(aster_store \<Rightarrow> ListenerState \<Rightarrow> manager_err list + aster_store \<times> ListenerState) \<Rightarrow> bool" where
  "mutation_ok mutate \<longleftrightarrow> (\<forall>s st s' st'. mutate s st = Inr (s', st') \<and> mkeys_ok (as_Subscriptions s) \<longrightarrow>
     as_Listeners s' = as_Listeners s \<and> as_Generation s' = as_Generation s \<and> mkeys_ok (as_Subscriptions s'))"

lemma commit_installed_inv:
  assumes inv: "m_inv lib disks m" and st: "mget (as_Listeners (am_store m)) n = Some st"
    and l: "mget (as_Listeners s) = (mget (as_Listeners (am_store m)))(n \<mapsto> st')" and wf: "store_wf lib s"
    and load: "loadStore lib (disks' (am_storePath m)) = Inr (s, r)"
  shows "m_inv lib disks' (publishLocked (reindexListenerLocked st st' (m\<lparr>am_store := s\<rparr>)))"
proof (rule m_inv_publish)
  have nm: "ls_Name st' = n" using wf_name [OF wf, of n st'] by (simp add: l)
  have "am_storePath m \<noteq> []" using inv st by (auto simp: m_inv_def)
  moreover have "mget (index_listener (fold (\<lambda>user. mdel (u_ID user)) (ls_Users st) (am_userIndex m)) (ls_Name st') (ls_Users st')) k = Some loc
      \<longleftrightarrow> located s k loc" for k loc
    using inv by (intro reindex_located [OF _ wf l st nm]) (auto simp: m_inv_def)
  ultimately show "m_inv lib disks' (reindexListenerLocked st st' (m\<lparr>am_store := s\<rparr>))"
    using inv wf load by (auto simp: m_inv_def reindexListenerLocked_def saved_def)
qed

definition mutation_change :: "aster_manager \<Rightarrow> string \<Rightarrow> ListenerState \<Rightarrow> ListenerState \<Rightarrow> listenerChange list" where
  "mutation_change m n st st' =
     (let change = \<lparr>lch_name = n, lch_instance = (case mget (am_instances m) n of Some i \<Rightarrow> i | None \<Rightarrow> 0),
            lch_before = activeManagedUsers st, lch_after = activeManagedUsers st'\<rparr>
      in if lch_before change = lch_after change then [] else [change])"

text \<open>How a mutation that passed validation ends.\<close>

lemma commit_cases:
  assumes "commit_mutation env n st s st' sys = (r, sys')"
  obtains (refused) err reg where "applyChanges env (mutation_change (sy_m sys) n st st') (sy_reg sys) = (err, reg)" "err \<noteq> []"
      "RollbackFailed \<notin> set err" "r = Inl err" "sys' = sys\<lparr>sy_reg := reg\<rparr>"
    | (closed) err reg closeErr where "applyChanges env (mutation_change (sy_m sys) n st st') (sy_reg sys) = (err, reg)" "RollbackFailed \<in> set err"
      "failClosedStateLocked env [] (sys\<lparr>sy_reg := reg\<rparr>) = (closeErr, sys')" "r = Inl (err @ closeErr)"
    | (unsaved) reg e sys1 errs where "applyChanges env (mutation_change (sy_m sys) n st st') (sy_reg sys) = ([], reg)"
      "persistStore env (am_storePath (sy_m sys)) s (sys\<lparr>sy_reg := reg\<rparr>) = (Inl e, sys1)"
      "revert_changes env [] (mutation_change (sy_m sys) n st st') sys1 = (errs, sys')" "r = Inl (AErr e # errs)"
    | (committed) reg s1 sys1 where "applyChanges env (mutation_change (sy_m sys) n st st') (sy_reg sys) = ([], reg)"
      "persistStore env (am_storePath (sy_m sys)) s (sys\<lparr>sy_reg := reg\<rparr>) = (Inr s1, sys1)" "r = Inr st'"
      "sys' = sys1\<lparr>sy_m := publishLocked (reindexListenerLocked st st' ((sy_m sys1)\<lparr>am_store := s1\<rparr>))\<rparr>"
proof -
  obtain err reg where a: "applyChanges env (mutation_change (sy_m sys) n st st') (sy_reg sys) = (err, reg)" by fastforce
  obtain pr sys1 where p: "persistStore env (am_storePath (sy_m sys)) s (sys\<lparr>sy_reg := reg\<rparr>) = (pr, sys1)" by fastforce
  note d = assms [unfolded commit_mutation_def Let_def, folded mutation_change_def [unfolded Let_def], simplified a]
  show ?thesis
  proof (cases "err = []")
    case True
    show ?thesis
    proof (cases pr)
      case (Inl e)
      with True a p d that(3) [of reg e sys1] show ?thesis
        by (auto simp: revert_changes_def Let_def mutation_change_def split: prod.splits if_splits)
    next
      case (Inr s1)
      with True a p d that(4) [of reg s1 sys1] show ?thesis by (auto simp: mutation_change_def)
    qed
  next
    case False
    with a d that(1) [of err reg] that(2) [of err reg] show ?thesis
      by (auto simp: mutation_change_def split: prod.splits if_splits)
  qed
qed

lemma inv_loads:
  assumes "aster_inv env sys" "am_storePath (sy_m sys) \<noteq> []"
  obtains st r where "loadStore (ae_lib env) (sy_disks sys (am_storePath (sy_m sys))) = Inr (st, r)" "strip st = strip (am_store (sy_m sys))"
  using assms by (auto simp: aster_inv_def m_inv_def saved_def)

lemma inv_path: "aster_inv env sys \<Longrightarrow> mget (as_Listeners (am_store (sy_m sys))) n = Some st \<Longrightarrow> am_storePath (sy_m sys) \<noteq> []"
  by (auto simp: aster_inv_def m_inv_def)

lemma inv_wf: "aster_inv env sys \<Longrightarrow> store_wf (ae_lib env) (am_store (sy_m sys))"
  by (simp add: aster_inv_def m_inv_def)

text \<open>Writing any store to the path of the manager fails without a trace or succeeds.\<close>

lemma persist_fail_inv:
  assumes codec: "codec_ok (ae_lib env)" and inv: "aster_inv env sys" and path: "am_storePath (sy_m sys) \<noteq> []"
    and keys: "mkeys_ok (as_Listeners s)" "mkeys_ok (as_Subscriptions s)"
    and p: "persistStore env (am_storePath (sy_m sys)) s sys = (Inl e, sys')"
  shows "aster_inv env sys'"
proof -
  obtain st r where st: "loadStore (ae_lib env) (sy_disks sys (am_storePath (sy_m sys))) = Inr (st, r)" "strip st = strip (am_store (sy_m sys))"
    by (rule inv_loads [OF inv path])
  from persistStore_cases [OF codec st(1) keys p] inv st(2) path show ?thesis by (auto simp: aster_inv_def m_inv_def saved_def)
qed

lemma commit_mutation_inv:
  assumes codec: "codec_ok (ae_lib env)" and inv: "aster_inv env sys"
    and st: "mget (as_Listeners (am_store (sy_m sys))) n = Some st"
    and s: "as_Listeners s = mset' n st' (as_Listeners (am_store (sy_m sys)))" "mkeys_ok (as_Subscriptions s)"
    and c: "commit_mutation env n st s st' sys = (r, sys')"
  shows "aster_inv env sys'"
proof -
  have path: "am_storePath (sy_m sys) \<noteq> []" by (rule inv_path [OF inv st])
  have keys: "mkeys_ok (as_Listeners s)" using inv_wf [OF inv] s(1) by (simp add: store_wf_def gm.invar_update)
  from c show ?thesis
  proof (cases rule: commit_cases)
    case (refused err reg)
    with inv show ?thesis by simp
  next
    case (closed err reg closeErr)
    have "aster_inv env (sys\<lparr>sy_reg := reg\<rparr>)" using inv by simp
    from failClosedStateLocked_inv [OF codec this closed(3)] show ?thesis .
  next
    case (unsaved reg e sys1 errs)
    have i: "aster_inv env (sys\<lparr>sy_reg := reg\<rparr>)" using inv by simp
    have "aster_inv env sys1" by (rule persist_fail_inv [OF codec i _ keys s(2)]) (use unsaved(2) path in simp_all)
    from revert_changes_inv [OF codec this unsaved(3)] show ?thesis .
  next
    case (committed reg s1 sys1)
    obtain st0 r0 where "loadStore (ae_lib env) (sy_disks sys (am_storePath (sy_m sys))) = Inr (st0, r0)"
      by (rule inv_loads [OF inv path])
    then have l0: "loadStore (ae_lib env) (sy_disks (sys\<lparr>sy_reg := reg\<rparr>) (am_storePath (sy_m sys))) = Inr (st0, r0)" by simp
    note pc = persistStore_cases [OF codec l0 keys s(2) committed(2)]
    then have s1: "s1 = candidate_of s" "store_wf (ae_lib env) s1" and "\<exists>r. loadStore (ae_lib env) (sy_disks sys1 (am_storePath (sy_m sys))) = Inr (s1, r)" by auto
    then obtain r1 where load: "loadStore (ae_lib env) (sy_disks sys1 (am_storePath (sy_m sys))) = Inr (s1, r1)" by blast
    have "mget (as_Listeners s1) = (mget (as_Listeners (am_store (sy_m sys))))(n \<mapsto> st')" using s(1) s1(1) by simp
    from commit_installed_inv [where disks' = "sy_disks sys1", OF inv [unfolded aster_inv_def] st this s1(2) load] pc(1)
    show ?thesis by (simp add: committed(4) aster_inv_m)
  qed
qed

lemma sync_lookup: "mget (as_Listeners (syncTrafficStore rt s)) n = map_option (\<lambda>st. st\<lparr>ls_Users := map (sync_user rt n) (ls_Users st)\<rparr>) (mget (as_Listeners s) n)"
proof -
  have "mget (map (\<lambda>(n, st). (n, st\<lparr>ls_Users := map (sync_user rt n) (ls_Users st)\<rparr>)) ls) n
      = map_option (\<lambda>st. st\<lparr>ls_Users := map (sync_user rt n) (ls_Users st)\<rparr>) (mget ls n)" for ls :: "(string, ListenerState) gomap"
    by (induction ls) auto
  then show ?thesis by (simp add: syncTrafficStore_def)
qed

text \<open>How a mutation ends: refused before anything happened, or committed or not.\<close>

definition mutation_start :: "aster_sys \<Rightarrow> aster_sys" where
  "mutation_start sys = sys\<lparr>sy_m := syncTrafficLocked ((sy_m sys)\<lparr>am_dirty := False\<rparr>), sy_tick := sy_tick sys + 1\<rparr>"

lemma mutate_cases:
  assumes "mutateListenerLocked env n rv mutate sys = (r, sys')"
  obtains (unchanged) err where "r = Inl err" "sys' = sys"
    | (refused) err where "r = Inl err" "sys' = undo_dirty (am_dirty (sy_m sys)) (mutation_start sys)"
        "mget (as_Listeners (am_store (sy_m sys))) n \<noteq> None"
    | (tried) cur st s1 st1 st' s r1 sys1 where "mget (as_Listeners (am_store (sy_m sys))) n = Some cur" "ls_Revision cur = rv"
        "mget (as_Listeners (am_store (sy_m (mutation_start sys)))) n = Some st"
        "mutate (am_store (sy_m (mutation_start sys))) st = Inr (s1, st1)"
        "st' = st1\<lparr>ls_Revision := nextRevision (ae_now env (sy_tick sys)) rv, ls_AppliedRevision := nextRevision (ae_now env (sy_tick sys)) rv\<rparr>"
        "s = s1\<lparr>as_Listeners := mset' n st' (as_Listeners s1)\<rparr>" "store_ok (ae_lib env) s"
        "commit_mutation env n st s st' (mutation_start sys) = (r1, sys1)" "r = r1"
        "sys' = (case r1 of Inl _ \<Rightarrow> undo_dirty (am_dirty (sy_m sys)) sys1 | Inr _ \<Rightarrow> sys1)"
proof (cases "sint rv \<le> 0 \<or> (case mget (as_Listeners (am_store (sy_m sys))) n of None \<Rightarrow> True | Some cur \<Rightarrow> ls_Revision cur \<noteq> rv)")
  case True
  with assms unchanged show ?thesis by (auto simp: mutateListenerLocked_def split: if_splits option.splits)
next
  case False
  then obtain cur where cur: "mget (as_Listeners (am_store (sy_m sys))) n = Some cur" "ls_Revision cur = rv" and pos: "\<not> sint rv \<le> 0"
    by (auto split: option.splits)
  define st where "st = cur\<lparr>ls_Users := map (sync_user (am_runtime (sy_m sys)) n) (ls_Users cur)\<rparr>"
  have st: "mget (as_Listeners (am_store (sy_m (mutation_start sys)))) n = Some st" "ls_Revision st = rv"
    using cur by (simp_all add: mutation_start_def syncTrafficLocked_def sync_lookup st_def)
  note d = assms [unfolded mutateListenerLocked_def Let_def, folded mutation_start_def, simplified pos cur st option.case option.sel if_False if_True simp_thms]
  show ?thesis
  proof (cases "mutate (am_store (sy_m (mutation_start sys))) st")
    case (Inl err)
    with d refused cur show ?thesis by auto
  next
    case (Inr p)
    obtain s1 st1 where p: "p = (s1, st1)" by (cases p)
    let ?rv = "nextRevision (ae_now env (sy_tick sys)) rv"
    let ?st = "st1\<lparr>ls_Revision := ?rv, ls_AppliedRevision := ?rv\<rparr>"
    let ?s = "s1\<lparr>as_Listeners := mset' n ?st (as_Listeners s1)\<rparr>"
    obtain r1 sys1 where c: "commit_mutation env n st ?s ?st (mutation_start sys) = (r1, sys1)" by fastforce
    show ?thesis
    proof (cases "validateStore (ae_lib env) ?s")
      case (Inl e)
      with d Inr p refused cur show ?thesis by auto
    next
      case v: (Inr u)
      then have "store_ok (ae_lib env) ?s" using validateStore_iff [of "ae_lib env" ?s] by simp
      from tried [OF cur st(1) Inr [unfolded p] refl refl this c] d Inr p v c show ?thesis
        by (cases r1) (auto simp: undo_dirty_def)
    qed
  qed
qed

lemma mutation_start_inv [simp]: "aster_inv env sys \<Longrightarrow> aster_inv env (mutation_start sys)"
  by (simp add: mutation_start_def aster_inv_def m_inv_sync)

lemma mutateListenerLocked_inv:
  assumes codec: "codec_ok (ae_lib env)" and inv: "aster_inv env sys" and ok: "mutation_ok mutate"
    and m: "mutateListenerLocked env n rv mutate sys = (r, sys')"
  shows "aster_inv env sys'"
  using m
proof (cases rule: mutate_cases)
  case (tried cur st s1 st1 st' s r1 sys1)
  have wf: "store_wf (ae_lib env) (am_store (sy_m (mutation_start sys)))" using inv by (intro inv_wf) simp
  with ok tried(4) have s1: "as_Listeners s1 = as_Listeners (am_store (sy_m (mutation_start sys)))" "mkeys_ok (as_Subscriptions s1)"
    unfolding mutation_ok_def store_wf_def by blast+
  have "aster_inv env sys1"
    by (rule commit_mutation_inv [OF codec mutation_start_inv [OF inv] tried(3) _ _ tried(8)]) (simp_all add: tried(6) s1)
  then show ?thesis by (cases r1) (simp_all add: tried(10))
qed (use inv in simp_all)

lemma mutation_oks [simp]:
  "mutation_ok (create_mutation env t input)" "mutation_ok (delete_mutation userID)"
  "mutation_ok (\<lambda>candidate state. Inr (candidate, edit_user userID f state))"
  "mutation_ok (\<lambda>candidate state. bindR (randomToken env t) (\<lambda>token. Inr (candidate\<lparr>as_Subscriptions := mset' userID token (as_Subscriptions candidate)\<rparr>, state)))"
  by (auto simp: mutation_ok_def create_mutation_def delete_mutation_def Let_def bindR_eq_Inr gm.invar_update gm.invar_delete split: if_splits)

lemma user_result_sys: "snd (user_result u r) = snd r"
  by (simp add: user_result_def split: prod.splits sum.splits)

lemma user_result_inv:
  assumes "codec_ok (ae_lib env)" "aster_inv env sys" "mutation_ok mutate"
  shows "aster_inv env (snd (user_result u (mutateListenerLocked env n rv mutate sys)))"
proof -
  obtain r sys' where "mutateListenerLocked env n rv mutate sys = (r, sys')" by fastforce
  with mutateListenerLocked_inv [OF assms this] show ?thesis by (simp add: user_result_sys)
qed

lemma CreateUser_inv: "codec_ok (ae_lib env) \<Longrightarrow> aster_inv env sys \<Longrightarrow> aster_inv env (snd (CreateUser env input rv sys))"
  by (simp add: CreateUser_def user_result_inv)

lemma UpdateUser_inv: "codec_ok (ae_lib env) \<Longrightarrow> aster_inv env sys \<Longrightarrow> aster_inv env (snd (UpdateUser env u input rv sys))"
  by (simp add: UpdateUser_def user_result_inv split: sum.split)

lemma ResetTraffic_inv: "codec_ok (ae_lib env) \<Longrightarrow> aster_inv env sys \<Longrightarrow> aster_inv env (snd (ResetTraffic env u rv sys))"
  by (simp add: ResetTraffic_def user_result_inv split: sum.split)

lemma DeleteUser_inv:
  assumes "codec_ok (ae_lib env)" "aster_inv env sys"
  shows "aster_inv env (snd (DeleteUser env u rv sys))"
  using assms mutateListenerLocked_inv [OF assms, of "delete_mutation u"] by (auto simp: DeleteUser_def split: sum.splits prod.splits)

lemma RotateSubscription_inv:
  assumes "codec_ok (ae_lib env)" "aster_inv env sys"
  shows "aster_inv env (snd (RotateSubscription env u rv sys))"
proof -
  have "aster_inv env (skip_ticks sys)" using assms(2) by simp
  from mutateListenerLocked_inv [OF assms(1) this, OF mutation_oks(4)] assms show ?thesis
    by (auto simp: RotateSubscription_def split: sum.splits prod.splits)
qed

subsection \<open>Configuring keeps the invariant\<close>

lemma flush_first_inv:
  assumes codec: "codec_ok (ae_lib env)" and inv: "aster_inv env sys" and f: "flush_first env sys = (e, sys')"
  shows "aster_inv env sys'"
proof -
  let ?s = "sys\<lparr>sy_m := syncTrafficLocked ((sy_m sys)\<lparr>am_dirty := False\<rparr>)\<rparr>"
  have i: "aster_inv env ?s" using inv by (simp add: aster_inv_def m_inv_sync)
  obtain e1 sys1 where p: "persist_own env ?s = (e1, sys1)" by fastforce
  have "aster_inv env sys1" if "am_storePath (sy_m ?s) \<noteq> []" by (rule persist_own_inv(1) [OF codec i that p])
  with f p i show ?thesis by (cases e1) (auto simp: flush_first_def Let_def split: if_splits)
qed

lemma FailClosed_inv:
  assumes codec: "codec_ok (ae_lib env)" and inv: "aster_inv env sys"
  shows "aster_inv env (snd (FailClosed env names sys))"
proof -
  obtain e sys1 where f: "flush_first env sys = (e, sys1)" by fastforce
  obtain c sys2 where c: "failClosedStateLocked env names sys1 = (c, sys2)" by fastforce
  from failClosedStateLocked_inv [OF codec flush_first_inv [OF codec inv f] c] f c show ?thesis by (simp add: FailClosed_def)
qed

lemma release_inv: "aster_inv env sys \<Longrightarrow> am_config (sy_m sys) = None \<Longrightarrow> aster_inv env (sys\<lparr>sy_m := releaseStoreLocked (stopFlusherLocked (sy_m sys))\<rparr>)"
  by (simp add: aster_inv_def m_inv_release stopFlusherLocked_def)

lemma Flush_inv:
  assumes codec: "codec_ok (ae_lib env)" and inv: "aster_inv env sys"
  shows "aster_inv env (snd (Flush env sys))"
proof -
  let ?s = "sys\<lparr>sy_m := syncTrafficLocked ((sy_m sys)\<lparr>am_dirty := False\<rparr>)\<rparr>"
  have i: "aster_inv env ?s" using inv by (simp add: aster_inv_def m_inv_sync)
  obtain e1 sys1 where p: "persist_own env ?s = (e1, sys1)" by fastforce
  have "aster_inv env sys1" if "am_storePath (sy_m sys) \<noteq> []" using persist_own_inv(1) [OF codec i _ p] that by (simp add: syncTrafficLocked_def)
  with p inv show ?thesis by (cases e1) (simp_all add: Flush_def Let_def release_inv)
qed

lemma disableLocked_inv:
  assumes codec: "codec_ok (ae_lib env)" and inv: "aster_inv env sys"
  shows "aster_inv env (snd (disableLocked env sys))"
proof (cases "am_config (sy_m sys) = None")
  case False
  define names where "names = sortedSetKeys (config_names (sy_m sys))"
  define changes where "changes = disable_changes (sy_reg sys) names"
  obtain errs sys1 where a: "apply_or_close env names changes sys = (errs, sys1)" by fastforce
  have i1: "aster_inv env sys1" by (rule apply_or_close_inv [OF codec inv a])
  define sys2 where "sys2 = sys1\<lparr>sy_m := swap_own newRuntimeState (sy_m sys1)\<rparr>"
  have i2: "aster_inv env sys2" using i1 by (simp add: sys2_def aster_inv_def m_inv_swap)
  obtain pe sys3 where pe: "(if am_storePath (sy_m sys2) \<noteq> [] then persist_own env sys2 else (None, sys2)) = (pe, sys3)" by fastforce
  with i2 persist_own_inv(1) [OF codec i2] have i3: "aster_inv env sys3" by (auto split: if_splits)
  have d: "disableLocked env sys = (if errs \<noteq> [] then (errs, sys1) else (case pe of
      Some e \<Rightarrow>
        let m = swap_own (buildRuntimeState (am_config (sy_m sys3)) (am_storePath (sy_m sys3)) (am_store (sy_m sys3)) newRuntimeState) (sy_m sys3);
            (rollbackErr, sys) = revert_changes env names changes (set_dirty True (sys3\<lparr>sy_m := m\<rparr>))
        in (AErr e # rollbackErr, sys)
    | None \<Rightarrow> ([], sys3\<lparr>sy_m := releaseStoreLocked (stopFlusherLocked ((sy_m sys3)\<lparr>am_config := None, am_instances := [], am_dirty := False\<rparr>))\<rparr>)))"
    using False by (simp only: disableLocked_def Let_def if_False names_def [symmetric] changes_def [symmetric] a sys2_def [symmetric] pe prod.case)
  show ?thesis
  proof (cases "errs = []")
    case e: True
    show ?thesis
    proof (cases pe)
      case None
      have "aster_inv env (sys3\<lparr>sy_m := releaseStoreLocked (stopFlusherLocked ((sy_m sys3)\<lparr>am_config := None, am_instances := [], am_dirty := False\<rparr>))\<rparr>)"
        using i3 by (simp add: aster_inv_def m_inv_release m_inv_config stopFlusherLocked_def)
      with False e None show ?thesis by (simp add: d)
    next
      case (Some x)
      let ?m = "swap_own (buildRuntimeState (am_config (sy_m sys3)) (am_storePath (sy_m sys3)) (am_store (sy_m sys3)) newRuntimeState) (sy_m sys3)"
      have "m_inv (ae_lib env) (sy_disks sys3) ?m" using i3 wf_counted [OF inv_wf [OF i3]]
        by (intro m_inv_swap) (simp_all add: aster_inv_def buildRuntimeState_counters)
      then have i4: "aster_inv env (set_dirty True (sys3\<lparr>sy_m := ?m\<rparr>))" by (simp add: aster_inv_m)
      obtain errs' sys4 where r: "revert_changes env names changes (set_dirty True (sys3\<lparr>sy_m := ?m\<rparr>)) = (errs', sys4)" by fastforce
      from revert_changes_inv [OF codec i4 r] False e Some r show ?thesis by (simp add: d)
    qed
  next
    case e: False
    with False i1 show ?thesis by (simp add: d)
  qed
qed (use inv in \<open>simp add: disableLocked_def release_inv\<close>)

definition keys_ok :: "aster_store \<Rightarrow> bool" where
  "keys_ok s \<longleftrightarrow> mkeys_ok (as_Listeners s) \<and> mkeys_ok (as_Subscriptions s)"

lemma seedListener_keys:
  assumes "seedListener env t nam protocol us subs = Inr (st, subs')" "mkeys_ok subs"
  shows "mkeys_ok subs'"
proof -
  from assms(1) obtain users names where
    f: "foldR (seed_user env t nam protocol (ae_now env t)) ([], [], subs) (enumerate 0 us) = Inr (users, names, subs')"
    by (auto simp: seedListener_def bindR_eq_Inr)
  have "mkeys_ok (snd (snd (users, names, subs')))"
    by (rule foldR_invariant [OF f])
      (use assms(2) in \<open>auto simp: seed_user_def bindR_eq_Inr Let_def gm.invar_update split: option.splits\<close>)
  then show ?thesis by simp
qed

lemma prepare_change_keys:
  assumes "prepare_change env reg ns acc nam = Inr acc'" "keys_ok (pa_store acc)"
  shows "keys_ok (pa_store acc')"
  using assms
  by (auto simp: prepare_change_def prepare_state_def keys_ok_def Let_def bindR_eq_Inr gm.invar_update
      intro: seedListener_keys split: sum.splits if_splits option.splits)

lemma prepareChangesLocked_keys:
  assumes "prepareChangesLocked env c store sys = Inr acc" "keys_ok store"
  shows "keys_ok (pa_store acc)"
  using assms(1) [unfolded prepareChangesLocked_def]
  by (rule foldR_invariant [where P = "\<lambda>acc. keys_ok (pa_store acc)"]) (use assms(2) in \<open>auto intro: prepare_change_keys\<close>)

lemma mark_applied_keys: "keys_ok s \<Longrightarrow> keys_ok (mark_applied changes instances s)"
  unfolding mark_applied_def by (rule foldl_invariant) (auto simp: keys_ok_def gm.invar_update split: option.splits)

lemma apply_or_close_ok:
  assumes "apply_or_close env names changes sys = ([], sys')"
  obtains reg where "sys' = sys\<lparr>sy_reg := reg\<rparr>"
  using assms by (auto simp: apply_or_close_def Let_def split: prod.splits if_splits)

lemma persistStore_frame:
  assumes "persistStore env path s sys = (r, sys')"
  shows "sy_m sys' = sy_m sys" "sy_reg sys' = sy_reg sys" "q \<noteq> path \<Longrightarrow> sy_disks sys' q = sy_disks sys q"
  using assms by (auto simp: persistStore_def split: prod.splits)

lemma m_inv_disks: "m_inv lib disks m \<Longrightarrow> disks' (am_storePath m) = disks (am_storePath m) \<Longrightarrow> m_inv lib disks' m"
  by (simp add: m_inv_def)

text \<open>A save that fails, whatever file it was for.\<close>

lemma persist_other_inv:
  assumes codec: "codec_ok (ae_lib env)" and inv: "aster_inv env sys" and load: "loadStore (ae_lib env) (sy_disks sys path) = Inr x"
    and keys: "keys_ok s" and p: "persistStore env path s sys = (Inl e, sys')"
  shows "aster_inv env sys'"
proof -
  obtain st r where x: "loadStore (ae_lib env) (sy_disks sys path) = Inr (st, r)" using load by (cases x) simp
  note c = persistStore_cases [OF codec x keys [unfolded keys_ok_def, THEN conjunct1] keys [unfolded keys_ok_def, THEN conjunct2] p]
  show ?thesis
  proof (cases "path = am_storePath (sy_m sys)")
    case True
    with inv x c show ?thesis by (auto simp: aster_inv_def m_inv_def saved_def)
  next
    case False
    with inv c(1,3) show ?thesis by (auto simp: aster_inv_def intro: m_inv_disks)
  qed
qed

lemma install_config_inv:
  assumes "store_wf lib s" "loadStore lib (disks (acf_StorePath c)) = Inr (s, r)" "acf_StorePath c \<noteq> []" "am_locked m" "counters_ok (am_runtime m)"
  shows "m_inv lib disks (install_config c s i m)"
  using assms buildUserIndex_located [of lib s] by (auto simp: m_inv_def install_config_def saved_def store_wf_def)

lemma inv_counters: "aster_inv env sys \<Longrightarrow> counters_ok (am_runtime (sy_m sys))"
  by (simp add: aster_inv_def m_inv_def)

lemma switch_store_inv:
  assumes codec: "codec_ok (ae_lib env)" and inv: "aster_inv env sys" and wf: "store_wf (ae_lib env) s"
    and load: "loadStore (ae_lib env) (sy_disks sys (acf_StorePath c)) = Inr (s, r)"
    and path: "acf_StorePath c \<noteq> []" "acf_StorePath c \<noteq> am_storePath (sy_m sys)"
  shows "aster_inv env (snd (switch_store env c s acc sys))"
proof -
  define nxt where "nxt = buildRuntimeState (Some c) (acf_StorePath c) s (am_runtime (sy_m sys))"
  have rt: "counters_ok nxt" unfolding nxt_def by (rule buildRuntimeState_counters [OF wf_counted [OF wf] inv_counters [OF inv]])
  define sys1 where "sys1 = sys\<lparr>sy_m := swap_own nxt (sy_m sys)\<rparr>"
  have i1: "aster_inv env sys1" using inv rt by (simp add: sys1_def aster_inv_def m_inv_swap)
  have sp: "am_storePath (sy_m sys1) = am_storePath (sy_m sys)" "am_runtime (sy_m sys1) = nxt" by (simp_all add: sys1_def swap_own_def swapRuntimeLocked_def)
  obtain pe sys2 where pe: "(if am_storePath (sy_m sys) \<noteq> [] then persist_own env sys1 else (None, sys1)) = (pe, sys2)" by fastforce
  have d1: "sy_disks sys1 = sy_disks sys" by (simp add: sys1_def)
  have s2: "aster_inv env sys2 \<and> sy_disks sys2 (acf_StorePath c) = sy_disks sys (acf_StorePath c)
      \<and> am_storePath (sy_m sys2) = am_storePath (sy_m sys) \<and> am_runtime (sy_m sys2) = nxt"
  proof (cases "am_storePath (sy_m sys) = []")
    case True
    with pe i1 d1 sp show ?thesis by simp
  next
    case False
    with pe sp have "am_storePath (sy_m sys1) \<noteq> []" "persist_own env sys1 = (pe, sys2)" by simp_all
    note po = persist_own_inv [OF codec i1 this]
    from po(1) po(3) [of "acf_StorePath c"] po(4) d1 sp path(2) show ?thesis by (cases pe) simp_all
  qed
  then have i2: "aster_inv env sys2" and d2: "sy_disks sys2 (acf_StorePath c) = sy_disks sys (acf_StorePath c)"
    and r2: "am_storePath (sy_m sys2) = am_storePath (sy_m sys)" "am_runtime (sy_m sys2) = nxt" by blast+
  define m3 where "m3 = (sy_m sys2)\<lparr>am_runtime := buildRuntimeState (am_config (sy_m sys2)) (am_storePath (sy_m sys2)) (am_store (sy_m sys2)) nxt\<rparr>"
  have d: "switch_store env c s acc sys = (case pe of
      Some e \<Rightarrow>
        let (r, sys) = persistStore env (acf_StorePath c) (syncTrafficStore nxt s) (sys2\<lparr>sy_m := m3\<rparr>);
            (rollbackErr, sys) = revert_changes env (acf_ManagedListeners c) (pa_changes acc) (set_dirty True sys)
        in (AErr e # (case r of Inl e' \<Rightarrow> [AErr e'] | Inr _ \<Rightarrow> []) @ rollbackErr, sys)
    | None \<Rightarrow> ([], sys2\<lparr>sy_m := install_config c s (pa_instances acc) ((sy_m sys2)\<lparr>am_locked := True\<rparr>)\<rparr>))"
    by (simp only: switch_store_def Let_def nxt_def [symmetric] sys1_def [symmetric] pe prod.case swapRuntimeLocked_def m3_def [symmetric] r2(2))
  show ?thesis
  proof (cases pe)
    case None
    have "m_inv (ae_lib env) (sy_disks sys2) (install_config c s (pa_instances acc) ((sy_m sys2)\<lparr>am_locked := True\<rparr>))"
      using wf load d2 path(1) rt r2 by (intro install_config_inv) simp_all
    with None show ?thesis by (simp add: d aster_inv_m)
  next
    case (Some e)
    have i3: "aster_inv env (sys2\<lparr>sy_m := m3\<rparr>)" using i2 rt wf_counted [OF inv_wf [OF i2]]
      by (auto simp: m3_def aster_inv_def intro!: m_inv_runtime buildRuntimeState_counters)
    obtain pr sys4 where p: "persistStore env (acf_StorePath c) (syncTrafficStore nxt s) (sys2\<lparr>sy_m := m3\<rparr>) = (pr, sys4)" by fastforce
    have "aster_inv env sys4" using persistStore_frame [OF p] i3 path r2 by (auto simp: aster_inv_def m3_def intro: m_inv_disks)
    then have i4: "aster_inv env (set_dirty True sys4)" by simp
    obtain errs sys5 where v: "revert_changes env (acf_ManagedListeners c) (pa_changes acc) (set_dirty True sys4) = (errs, sys5)" by fastforce
    from revert_changes_inv [OF codec i4 v] Some p v show ?thesis by (simp add: d)
  qed
qed

lemma validateConfig_path: "validateConfig env c = Inr u \<Longrightarrow> acf_StorePath c \<noteq> []"
  by (auto simp: validateConfig_def split: if_splits)

lemma install_or_switch_inv:
  assumes codec: "codec_ok (ae_lib env)" and inv: "m_inv (ae_lib env) disks (sy_m sys)" and path: "acf_StorePath c \<noteq> []"
    and other: "\<And>q. q \<noteq> acf_StorePath c \<Longrightarrow> sy_disks sys q = disks q"
    and wf: "store_wf (ae_lib env) s" and load: "loadStore (ae_lib env) (sy_disks sys (acf_StorePath c)) = Inr (s, r)"
    and same: "sameStore \<longleftrightarrow> am_locked (sy_m sys) \<and> am_storePath (sy_m sys) = acf_StorePath c"
  shows "aster_inv env (snd (if sameStore then ([], sys\<lparr>sy_m := publishLocked (install_config c s (pa_instances acc) (sy_m sys))\<rparr>)
      else switch_store env c s acc sys))"
proof (cases sameStore)
  case True
  with same have "m_inv (ae_lib env) (sy_disks sys) (install_config c s (pa_instances acc) (sy_m sys))"
    using wf load path inv by (intro install_config_inv) (simp_all add: m_inv_def)
  with True show ?thesis by (simp add: aster_inv_m m_inv_publish)
next
  case False
  have "am_locked (sy_m sys) \<longleftrightarrow> am_storePath (sy_m sys) \<noteq> []" using inv by (simp add: m_inv_def)
  with False same path have o: "acf_StorePath c \<noteq> am_storePath (sy_m sys)" by metis
  then have "aster_inv env sys" using m_inv_disks [OF inv, of "sy_disks sys"] other [of "am_storePath (sy_m sys)"] by (simp add: aster_inv_def)
  from switch_store_inv [OF codec this wf load path o] False show ?thesis by simp
qed

lemma configure_saved_inv:
  assumes codec: "codec_ok (ae_lib env)" and inv: "aster_inv env sys" and path: "acf_StorePath c \<noteq> []"
    and load: "loadStore (ae_lib env) (sy_disks sys (acf_StorePath c)) = Inr x" and keys: "keys_ok s"
    and same: "sameStore \<longleftrightarrow> am_locked (sy_m sys) \<and> am_storePath (sy_m sys) = acf_StorePath c"
  shows "aster_inv env (snd (case persistStore env (acf_StorePath c) s sys of
        (Inl e, sys) \<Rightarrow> let (rollbackErr, sys) = revert_changes env (acf_ManagedListeners c) (pa_changes acc) sys in (AErr e # rollbackErr, sys)
      | (Inr store, sys) \<Rightarrow>
          let (err, sys) = (if sameStore
                then ([], sys\<lparr>sy_m := publishLocked (install_config c store (pa_instances acc) (sy_m sys))\<rparr>)
                else switch_store env c store acc sys) in
          if err \<noteq> [] then (err, sys) else ([], sys\<lparr>sy_m := (sy_m sys)\<lparr>am_flushing := True\<rparr>\<rparr>)))"
proof -
  obtain pr sys1 where p: "persistStore env (acf_StorePath c) s sys = (pr, sys1)" by fastforce
  show ?thesis
  proof (cases pr)
    case (Inl e)
    have i1: "aster_inv env sys1" by (rule persist_other_inv [OF codec inv load keys p [unfolded Inl]])
    obtain errs sys2 where r: "revert_changes env (acf_ManagedListeners c) (pa_changes acc) sys1 = (errs, sys2)" by fastforce
    from revert_changes_inv [OF codec i1 r] p r Inl show ?thesis by simp
  next
    case (Inr s1)
    obtain st rc where x: "loadStore (ae_lib env) (sy_disks sys (acf_StorePath c)) = Inr (st, rc)" using load by (cases x) simp
    note pc = persistStore_cases [OF codec x keys [unfolded keys_ok_def, THEN conjunct1] keys [unfolded keys_ok_def, THEN conjunct2] p [unfolded Inr]]
    then obtain r1 where s1: "s1 = candidate_of s" "store_wf (ae_lib env) s1" "loadStore (ae_lib env) (sy_disks sys1 (acf_StorePath c)) = Inr (s1, r1)"
      by auto
    obtain errs sys2 where i: "(if sameStore then ([], sys1\<lparr>sy_m := publishLocked (install_config c s1 (pa_instances acc) (sy_m sys1))\<rparr>)
        else switch_store env c s1 acc sys1) = (errs, sys2)" by fastforce
    have "aster_inv env sys2" 
      using install_or_switch_inv [OF codec _ path pc(3) s1(2,3), of sameStore acc] inv same pc(1) i by (simp add: aster_inv_def)
    with p Inr i show ?thesis by (auto simp: aster_inv_def)
  qed
qed

lemma configure_valid_inv:
  assumes codec: "codec_ok (ae_lib env)" and inv: "aster_inv env sys" and path: "acf_StorePath c \<noteq> []"
  shows "aster_inv env (snd (configure_valid env c sys))"
proof -
  define sameStore where "sameStore \<longleftrightarrow> am_locked (sy_m sys) \<and> am_storePath (sy_m sys) = acf_StorePath c"
  let ?sys = "sys\<lparr>sy_tick := sy_tick sys + 1\<rparr>"
  show ?thesis
  proof (cases "loadStore (ae_lib env) (sy_disks sys (acf_StorePath c))")
    case (Inl e)
    with inv show ?thesis by (simp add: configure_valid_def Let_def)
  next
    case (Inr x)
    obtain store r where x: "x = (store, r)" by (cases x)
    have k: "keys_ok store" using loadStore_wf [OF codec, of _ store r] Inr x by (simp add: keys_ok_def store_wf_def)
    show ?thesis
    proof (cases "prepareChangesLocked env c store ?sys")
      case e: (Inl e)
      with Inr x inv show ?thesis by (simp add: configure_valid_def Let_def)
    next
      case acc: (Inr acc)
      have k2: "keys_ok (mark_applied (pa_changes acc) (pa_instances acc) (pa_store acc))"
        by (rule mark_applied_keys [OF prepareChangesLocked_keys [OF acc k]])
      let ?sys2 = "?sys\<lparr>sy_tick := pa_tick acc\<rparr>"
      obtain errs sys3 where a: "apply_or_close env (acf_ManagedListeners c) (pa_changes acc) ?sys2 = (errs, sys3)" by fastforce
      have i2: "aster_inv env ?sys2" using inv by simp
      have i3: "aster_inv env sys3" by (rule apply_or_close_inv [OF codec i2 a])
      show ?thesis
      proof (cases "errs = []")
        case False
        with Inr x acc a i3 inv show ?thesis by (simp add: configure_valid_def Let_def split: sum.split)
      next
        case True
        obtain reg where s3: "sys3 = ?sys2\<lparr>sy_reg := reg\<rparr>" by (rule apply_or_close_ok [OF a [unfolded True]])
        then have l3: "loadStore (ae_lib env) (sy_disks sys3 (acf_StorePath c)) = Inr x"
          and same: "sameStore \<longleftrightarrow> am_locked (sy_m sys3) \<and> am_storePath (sy_m sys3) = acf_StorePath c"
          using Inr by (simp_all add: sameStore_def)
        note saved = configure_saved_inv [OF codec i3 path l3 k2 same, of acc]
        show ?thesis
        proof (cases "(\<not> sameStore \<and> (\<not> se_prepared (ae_save env (sy_tick sys)) \<or> \<not> se_locked (ae_save env (sy_tick sys)))) \<or> validateStore (ae_lib env) (pa_store acc) \<noteq> Inr ()")
          case bad: True
          with Inr x acc inv show ?thesis by (auto simp: configure_valid_def Let_def sameStore_def split: sum.split)
        next
          case good: False
          with saved Inr x acc a True inv show ?thesis
            unfolding configure_valid_def Let_def sameStore_def [symmetric] by simp
        qed
      qed
    qed
  qed
qed

lemma Configure_inv:
  assumes codec: "codec_ok (ae_lib env)" and inv: "aster_inv env sys"
  shows "aster_inv env (snd (Configure env config sys))"
proof -
  obtain e sys1 where f: "flush_first env sys = (e, sys1)" by fastforce
  have i: "aster_inv env sys1" by (rule flush_first_inv [OF codec inv f])
  with f disableLocked_inv [OF codec i] configure_valid_inv [OF codec i] show ?thesis
    by (auto simp: Configure_def dest: validateConfig_path split: option.split sum.split)
qed

subsection \<open>Reachable states\<close>

text \<open>
  The operations of the manager, in any order. Between them the traffic of connections is recorded and the
  listeners may change in any way: nothing below depends on what the registry holds.
\<close>

inductive aster_step :: "aster_env \<Rightarrow> aster_sys \<Rightarrow> aster_sys \<Rightarrow> bool" for env where
  configure: "aster_step env sys (snd (Configure env config sys))"
| fail_closed: "aster_step env sys (snd (FailClosed env names sys))"
| flush: "aster_step env sys (snd (Flush env sys))"
| create: "aster_step env sys (snd (CreateUser env input rv sys))"
| update: "aster_step env sys (snd (UpdateUser env u changes rv sys))"
| delete: "aster_step env sys (snd (DeleteUser env u rv sys))"
| reset: "aster_step env sys (snd (ResetTraffic env u rv sys))"
| rotate: "aster_step env sys (snd (RotateSubscription env u rv sys))"
| list_listeners: "aster_step env sys (sys\<lparr>sy_m := snd (ListListeners (sy_m sys))\<rparr>)"
| list_users: "aster_step env sys (sys\<lparr>sy_m := snd (ListUsers inbound (sy_m sys))\<rparr>)"
| list_records: "aster_step env sys (sys\<lparr>sy_m := snd (ListUserRecords inbound (sy_m sys))\<rparr>)"
| snapshot: "aster_step env sys (sys\<lparr>sy_m := snd (ManagementSnapshot inbound (sy_m sys))\<rparr>)"
| traffic: "aster_step env sys (sys\<lparr>sy_m := RecordTraffic inbound u upload download (sy_m sys)\<rparr>)"
| listeners: "aster_step env sys (sys\<lparr>sy_reg := reg\<rparr>)"

inductive aster_reachable :: "aster_env \<Rightarrow> aster_sys \<Rightarrow> bool" for env where
  start: "sy_m sys = aster_NewManager \<Longrightarrow> aster_reachable env sys"
| step: "aster_reachable env sys \<Longrightarrow> aster_step env sys sys' \<Longrightarrow> aster_reachable env sys'"

lemma start_inv: "sy_m sys = aster_NewManager \<Longrightarrow> aster_inv env sys"
  by (simp add: aster_inv_def m_inv_def aster_NewManager_def) (simp add: newStore_def)

lemma list_inv:
  assumes "m_inv lib disks m"
  shows "m_inv lib disks (snd (ListListeners m))" "m_inv lib disks (snd (ListUsers inbound m))"
    "m_inv lib disks (snd (ListUserRecords inbound m))" "m_inv lib disks (snd (ManagementSnapshot inbound m))"
  using m_inv_sync [OF assms] assms
  by (simp_all add: ListListeners_def ListUsers_def ListUserRecords_def ManagementSnapshot_def Let_def)

lemma RecordTraffic_inv: "m_inv lib disks m \<Longrightarrow> m_inv lib disks (RecordTraffic n u up down m)"
proof -
  assume inv: "m_inv lib disks m"
  have "RecordTraffic n u up down m = m \<or> (\<exists>rt. RecordTraffic n u up down m = m\<lparr>am_runtime := rt, am_dirty := True\<rparr>)"
    by (auto simp: RecordTraffic_def Let_def split: option.splits)
  moreover have "counters_ok (am_runtime (RecordTraffic n u up down m))"
    using inv by (intro RecordTraffic_counters) (simp add: m_inv_def)
  ultimately show ?thesis using inv by (auto simp: m_inv_runtime)
qed

lemma aster_step_inv:
  assumes "codec_ok (ae_lib env)" "aster_step env sys sys'" "aster_inv env sys"
  shows "aster_inv env sys'"
  using assms(2)
proof cases
  case traffic
  with assms(3) show ?thesis by (simp add: aster_inv_def RecordTraffic_inv)
qed (use assms(1,3) list_inv [of "ae_lib env" "sy_disks sys" "sy_m sys"] in
    \<open>simp_all add: Configure_inv FailClosed_inv Flush_inv CreateUser_inv UpdateUser_inv DeleteUser_inv ResetTraffic_inv RotateSubscription_inv
       aster_inv_m aster_inv_def [of env sys]\<close>)

lemma reachable_aster_inv:
  assumes "codec_ok (ae_lib env)" "aster_reachable env sys"
  shows "aster_inv env sys"
  using assms(2) by induction (auto intro: start_inv aster_step_inv [OF assms(1)])

text \<open>
  C7. Whatever is done to the manager, and whichever of its writes to disk fails on the way: the store is
  valid, the index finds exactly the user a search through the store finds, the lock of the
  store file is held exactly while there is a store, and the file loads as the store in memory, save for
  bytes counted since it was written. The byte counts are never negative.
\<close>

theorem aster_reachable_inv:
  assumes "codec_ok (ae_lib env)" "aster_reachable env sys"
  defines "m \<equiv> sy_m sys"
  shows "validateStore (ae_lib env) (am_store m) = Inr ()
    \<and> (\<forall>userID. indexedUserLocked m userID = findUser (am_store m) userID)
    \<and> (am_locked m \<longleftrightarrow> am_storePath m \<noteq> []) \<and> (am_config m \<noteq> None \<longrightarrow> am_locked m)
    \<and> (am_locked m \<longrightarrow> (\<exists>s r. loadStore (ae_lib env) (sy_disks sys (am_storePath m)) = Inr (s, r) \<and> strip s = strip (am_store m)))
    \<and> (\<forall>k c. mget (art_traffic (am_runtime m)) k = Some c \<longrightarrow> 0 \<le> sint (tk_upload c) \<and> 0 \<le> sint (tk_download c))"
proof -
  have inv: "m_inv (ae_lib env) (sy_disks sys) m" using reachable_aster_inv [OF assms(1,2)] by (simp add: aster_inv_def m_def)
  then have wf: "store_wf (ae_lib env) (am_store m)" by (simp add: m_inv_def)
  have "indexedUserLocked m u = findUser (am_store m) u" for u
    using inv by (intro indexedUser_findUser [OF wf]) (simp add: m_inv_def)
  with inv wf show ?thesis by (simp add: validateStore_iff m_inv_def store_wf_def saved_def counters_ok_def)
qed

subsection \<open>A codec for stores\<close>

text \<open>
  The JSON codec is a parameter. That something satisfies what is assumed of it is shown by this one: a
  length before each string and list, and numbers in binary with an end mark.
\<close>

fun put_nat :: "nat \<Rightarrow> string" where
  "put_nat n = (if n = 0 then ''.'' else (if even n then CHR ''0'' else CHR ''1'') # put_nat (n div 2))"

declare put_nat.simps [simp del]

primrec get_nat :: "string \<Rightarrow> (nat \<times> string) option" where
  "get_nat [] = None"
| "get_nat (c # s) = (if c = CHR ''.'' then Some (0, s)
     else map_option (\<lambda>(n, s). (if c = CHR ''1'' then 2 * n + 1 else 2 * n, s)) (get_nat s))"

definition put_str :: "string \<Rightarrow> string" where "put_str x = put_nat (length x) @ x"

definition get_str :: "string \<Rightarrow> (string \<times> string) option" where
  "get_str s = (case get_nat s of None \<Rightarrow> None | Some (n, s) \<Rightarrow> if n \<le> length s then Some (take n s, drop n s) else None)"

definition put_word :: "64 word \<Rightarrow> string" where "put_word w = put_nat (unat w)"

definition get_word :: "string \<Rightarrow> (64 word \<times> string) option" where
  "get_word s = map_option (map_prod word_of_nat id) (get_nat s)"

definition put_list :: "('a \<Rightarrow> string) \<Rightarrow> 'a list \<Rightarrow> string" where
  "put_list put xs = put_nat (length xs) @ concat (map put xs)"

primrec get_times :: "(string \<Rightarrow> ('a \<times> string) option) \<Rightarrow> nat \<Rightarrow> string \<Rightarrow> ('a list \<times> string) option" where
  "get_times get 0 s = Some ([], s)"
| "get_times get (Suc n) s = (case get s of None \<Rightarrow> None | Some (x, s) \<Rightarrow> map_option (\<lambda>(xs, s). (x # xs, s)) (get_times get n s))"

definition get_list :: "(string \<Rightarrow> ('a \<times> string) option) \<Rightarrow> string \<Rightarrow> ('a list \<times> string) option" where
  "get_list get s = (case get_nat s of None \<Rightarrow> None | Some (n, s) \<Rightarrow> get_times get n s)"

definition put_pair :: "('a \<Rightarrow> string) \<Rightarrow> ('b \<Rightarrow> string) \<Rightarrow> 'a \<times> 'b \<Rightarrow> string" where
  "put_pair f g p = f (fst p) @ g (snd p)"

definition get_pair :: "(string \<Rightarrow> ('a \<times> string) option) \<Rightarrow> (string \<Rightarrow> ('b \<times> string) option) \<Rightarrow> string \<Rightarrow> (('a \<times> 'b) \<times> string) option" where
  "get_pair f g s = (case f s of None \<Rightarrow> None | Some (a, s) \<Rightarrow> map_option (\<lambda>(b, s). ((a, b), s)) (g s))"

definition put_user :: "aster_user \<Rightarrow> string" where
  "put_user u =
     put_list put_str [u_ID u, u_Inbound u, u_Protocol u, u_Name u, u_UUID u, u_Password u, u_Flow u]
   @ put_list put_word [if u_Enabled u then 1 else 0, u_UploadBytes u, u_DownloadBytes u, u_TrafficGeneration u, u_CreatedAt u, u_UpdatedAt u]"

definition get_user :: "string \<Rightarrow> (aster_user \<times> string) option" where
  "get_user s =
     (case get_pair (get_list get_str) (get_list get_word) s of
        Some (([i, n, p, a, x, y, f], [e, u, d, g, c, t]), s) \<Rightarrow>
          Some (\<lparr>u_ID = i, u_Inbound = n, u_Protocol = p, u_Name = a, u_UUID = x, u_Password = y, u_Flow = f, u_Enabled = (e \<noteq> 0),
            u_UploadBytes = u, u_DownloadBytes = d, u_TrafficGeneration = g, u_CreatedAt = c, u_UpdatedAt = t\<rparr>, s)
      | _ \<Rightarrow> None)"

definition put_state :: "ListenerState \<Rightarrow> string" where
  "put_state st = put_pair (put_list put_str) (put_pair (put_list put_word) (put_list put_user))
     ([ls_ID st, ls_Name st, ls_Protocol st], [ls_Revision st, ls_AppliedRevision st], ls_Users st)"

definition get_state :: "string \<Rightarrow> (ListenerState \<times> string) option" where
  "get_state s =
     (case get_pair (get_list get_str) (get_pair (get_list get_word) (get_list get_user)) s of
        Some (([i, n, p], [r, a], us), s) \<Rightarrow>
          Some (\<lparr>ls_ID = i, ls_Name = n, ls_Protocol = p, ls_Users = us, ls_Revision = r, ls_AppliedRevision = a\<rparr>, s)
      | _ \<Rightarrow> None)"

definition put_store :: "aster_store \<Rightarrow> string" where
  "put_store s = put_pair (put_list put_nat) (put_pair put_word (put_pair (put_list (put_pair put_str put_state)) (put_list (put_pair put_str put_str))))
     ([nat (as_Version s), nat (- as_Version s)], as_Generation s, as_Listeners s, as_Subscriptions s)"

definition get_store :: "string \<Rightarrow> aster_store option" where
  "get_store d =
     (case get_pair (get_list get_nat) (get_pair get_word (get_pair (get_list (get_pair get_str get_state)) (get_list (get_pair get_str get_str)))) d of
        Some (([v, v'], g, ls, subs), _) \<Rightarrow>
          if mkeys_ok ls \<and> mkeys_ok subs
          then Some \<lparr>as_Version = int v - int v', as_Generation = g, as_Listeners = ls, as_Subscriptions = subs\<rparr> else None
      | _ \<Rightarrow> None)"

lemma get_put_nat [simp]: "get_nat (put_nat n @ s) = Some (n, s)"
proof (induction n rule: less_induct)
  case (less n)
  show ?case
  proof (cases "n = 0")
    case False
    with less [of "n div 2"] show ?thesis by (auto simp: put_nat.simps [of n])
  qed (simp add: put_nat.simps)
qed

lemma get_put_str [simp]: "get_str (put_str x @ s) = Some (x, s)"
  by (simp add: get_str_def put_str_def)

lemma get_put_word [simp]: "get_word (put_word w @ s) = Some (w, s)"
  by (simp add: get_word_def put_word_def)

lemma get_put_list: "(\<And>x s. get (put x @ s) = Some (x, s)) \<Longrightarrow> get_list get (put_list put xs @ s) = Some (xs, s)"
proof -
  assume g: "\<And>x s. get (put x @ s) = Some (x, s)"
  have "get_times get (length xs) (concat (map put xs) @ s) = Some (xs, s)" by (induction xs) (simp_all add: g)
  then show ?thesis by (simp add: get_list_def put_list_def)
qed

lemma get_put_pair:
  "(\<And>x s. f (f' x @ s) = Some (x, s)) \<Longrightarrow> (\<And>x s. g (g' x @ s) = Some (x, s)) \<Longrightarrow> get_pair f g (put_pair f' g' p @ s) = Some (p, s)"
  by (simp add: get_pair_def put_pair_def)

lemmas codec_laws = get_put_pair get_put_list

lemma get_put_user [simp]: "get_user (put_user u @ s) = Some (u, s)"
  by (simp add: get_user_def put_user_def get_pair_def get_put_list)

lemma get_put_state [simp]: "get_state (put_state st @ s) = Some (st, s)"
  by (simp add: get_state_def put_state_def codec_laws)

lemma get_put_store: "mkeys_ok (as_Listeners st) \<Longrightarrow> mkeys_ok (as_Subscriptions st) \<Longrightarrow> get_store (put_store st @ s) = Some st"
  by (simp add: get_store_def put_store_def codec_laws)

definition demo_lib :: aster_lib where
  "demo_lib = \<lparr>li_lower = id, li_uuid = demo_uuid_lib, li_DecodeString = Some, li_EncodeToString = id,
     li_Marshal = put_store, li_Unmarshal = get_store\<rparr>"

lemma get_store_keys: "get_store d = Some s \<Longrightarrow> mkeys_ok (as_Listeners s) \<and> mkeys_ok (as_Subscriptions s)"
  by (auto simp: get_store_def split: option.splits list.splits if_splits)

lemma demo_codec_ok: "codec_ok demo_lib"
  by (simp add: codec_ok_def demo_lib_def store_bytes_def store_wf_def get_put_store get_store_keys)

lemma store_size_code [code_unfold]: "aster_maxStoreSize < length d \<longleftrightarrow> 16777216 < int (length d)"
  by (auto simp: aster_maxStoreSize_def)

subsection \<open>An example\<close>

definition demo_env :: aster_env where
  "demo_env = \<lparr>ae_lib = demo_lib, ae_inbound = demo_inbound_lib, ae_listen = all_well,
     ae_save = (\<lambda>_. \<lparr>se_prepared = True, se_locked = True, se_first = no_failure, se_second = no_failure\<rparr>),
     ae_now = (\<lambda>t. word_of_nat (t + 1)), ae_uuid = (\<lambda>t. ''id'' @ put_nat t), ae_random = (\<lambda>t. Some (replicate 31 CHR ''x'' @ [byte t])),
     ae_parseURL = (\<lambda>_. None)\<rparr>"

definition demo_config :: aster_config where
  "demo_config = \<lparr>acf_Secret = replicate 32 CHR ''s'', acf_PublicBaseURL = [], acf_StorePath = ''store'', acf_ManagedListeners = [''in'']\<rparr>"

definition demo_start :: aster_sys where
  "demo_start = \<lparr>sy_m = aster_NewManager, sy_reg = demo_registry, sy_disks = (\<lambda>_. empty_disk), sy_tick = 0\<rparr>"

text \<open>The manager with one listener, whose configured user has been taken over.\<close>

definition demo_on :: aster_sys where
  "demo_on = snd (Configure demo_env (Some demo_config) demo_start)"

lemma demo_on_reachable: "aster_reachable demo_env demo_on"
  unfolding demo_on_def
  by (rule aster_reachable.step [OF aster_reachable.start aster_step.configure]) (simp add: demo_start_def)

lemma demo_codec: "codec_ok (ae_lib demo_env)"
  by (simp add: demo_env_def demo_codec_ok)

lemma demo_on_enabled: "Enabled (sy_m demo_on) \<and> am_locked (sy_m demo_on) \<and> map fst (as_Listeners (am_store (sy_m demo_on))) = [''in'']"
  by code_simp

theorem aster_reachable_inv_witness:
  "am_locked (sy_m demo_on) \<and> validateStore demo_lib (am_store (sy_m demo_on)) = Inr ()
   \<and> (\<exists>s r. loadStore demo_lib (sy_disks demo_on (am_storePath (sy_m demo_on))) = Inr (s, r) \<and> strip s = strip (am_store (sy_m demo_on)))"
  using aster_reachable_inv [OF demo_codec demo_on_reachable] demo_on_enabled by (simp add: demo_env_def)

end
