(* ===== verification/Aster_Atomic.thy ===== *)
theory Aster_Atomic
  imports Aster_Reachable
begin

section \<open>Aster: changes of users are transactions\<close>

text \<open>
  A change of the users of a listener involves the store file, the state in memory and the running
  listener. It takes effect in all of them or in none, or else the manager shuts down; and a
  deleted user is cut off at once.
\<close>

subsection \<open>Failing closed\<close>

text \<open>Nobody can use the listener: it is not there, holds no users or does not serve.\<close>

definition quiet :: "string \<Rightarrow> registry \<Rightarrow> bool" where
  "quiet n reg \<longleftrightarrow> (\<forall>obj. managed_obj n reg = Inr obj \<longrightarrow> CurrentManagedUsers (lo_inbound obj) = [] \<or> \<not> serving (lo_inbound obj))"

lemma quiet_frame: "mget (rg_listeners reg') n = mget (rg_listeners reg) n \<Longrightarrow> quiet n reg' \<longleftrightarrow> quiet n reg"
  by (simp add: quiet_def managed_obj_def)

lemma inbound_update_current: "UpdateManagedUsers lib us i = Inr i' \<Longrightarrow> is_managed i \<Longrightarrow> CurrentManagedUsers i' = us \<and> is_managed i'"
  using vm.update_current [of lib us] am.update_current [of lib us] by (cases i) auto

lemma inbound_Close_stops: "inbound_Close ok i = (e, i') \<Longrightarrow> \<not> serving i'"
  using vm.close_stops [of ok] am.close_stops [of ok] by (cases i) (auto simp: map_prod_def split: prod.splits)

lemma obj_update_current:
  assumes "obj_update lib us obj = Inr obj'" "is_managed (lo_inbound obj)"
  shows "CurrentManagedUsers (lo_inbound obj') = us \<and> is_managed (lo_inbound obj') \<and> lo_id obj' = lo_id obj"
  using assms inbound_update_current [of lib us "lo_inbound obj"] by (auto simp: obj_update_def)

lemma managed_obj_ok: "managed_obj n reg = Inr obj \<longleftrightarrow> mget (rg_listeners reg) n = Some obj \<and> is_managed (lo_inbound obj)"
  by (auto simp: managed_obj_def split: option.splits)

lemma FailClosed_listener:
  assumes "FailClosedManagedInboundListener lib env n reg = (errs, reg')"
  shows "quiet n reg' \<and> (\<forall>n'. n' \<noteq> n \<longrightarrow> mget (rg_listeners reg') n' = mget (rg_listeners reg) n')"
proof (cases "managed_obj n reg")
  case (Inl e)
  with assms show ?thesis by (auto simp: FailClosedManagedInboundListener_def quiet_def)
next
  case (Inr obj)
  show ?thesis
  proof (cases "obj_update lib [] obj")
    case u: (Inr obj')
    with assms Inr obj_update_current [OF u] show ?thesis
      by (auto simp: FailClosedManagedInboundListener_def quiet_def managed_obj_ok)
  next
    case u: (Inl e)
    obtain ce obj' reg1 where c: "obj_Close env obj reg = (ce, obj', reg1)" by (cases "obj_Close env obj reg") auto
    then have "\<not> serving (lo_inbound obj')" "rg_listeners reg1 = rg_listeners reg"
      using inbound_Close_stops by (auto simp: obj_Close_def split: prod.splits)
    with assms Inr u c show ?thesis
      by (auto simp: FailClosedManagedInboundListener_def quiet_def managed_obj_ok split: option.splits)
  qed
qed

lemma fail_closed_quiet:
  assumes "fail_closed_loop env ns reg = (errs, reg')"
  shows "(\<forall>n \<in> set ns. quiet n reg') \<and> (\<forall>n. n \<notin> set ns \<longrightarrow> mget (rg_listeners reg') n = mget (rg_listeners reg) n)"
  using assms
proof (induction ns arbitrary: reg errs)
  case (Cons n ns)
  obtain e reg1 where f: "FailClosedManagedInboundListener (ae_inbound env) (ae_listen env) n reg = (e, reg1)" by fastforce
  obtain errs1 where l: "fail_closed_loop env ns reg1 = (errs1, reg')" using Cons.prems f by (auto split: prod.splits)
  from FailClosed_listener [OF f] Cons.IH [OF l] quiet_frame [of reg' n reg1] show ?case by (cases "n \<in> set ns") auto
qed simp

definition same_users :: "aster_store \<Rightarrow> aster_store \<Rightarrow> bool" where
  "same_users s s' \<longleftrightarrow> as_Listeners (strip s) = as_Listeners (strip s') \<and> as_Subscriptions s = as_Subscriptions s'"

lemma same_users_refl [simp]: "same_users s s" by (simp add: same_users_def)

lemma same_users_trans: "same_users a b \<Longrightarrow> same_users b c \<Longrightarrow> same_users a c" by (simp add: same_users_def)

lemma same_users_strip: "strip s = strip s' \<Longrightarrow> same_users s s'"
  using strip_simps(3) [of s] strip_simps(3) [of s'] by (simp add: same_users_def del: strip_simps)

lemma same_users_candidate [simp]: "same_users (candidate_of s) s' \<longleftrightarrow> same_users s s'" by (simp add: same_users_def)

definition on_disk :: "aster_env \<Rightarrow> string \<Rightarrow> aster_store \<Rightarrow> aster_sys \<Rightarrow> bool" where
  "on_disk env path s sys \<longleftrightarrow> (\<exists>s' r. loadStore (ae_lib env) (sy_disks sys path) = Inr (s', r) \<and> same_users s' s)"

definition shut_down :: "aster_sys \<Rightarrow> string list \<Rightarrow> bool" where
  "shut_down sys names \<longleftrightarrow> am_config (sy_m sys) = None \<and> am_runtime (sy_m sys) = newRuntimeState \<and> (\<forall>n \<in> set names. quiet n (sy_reg sys))"

lemma inv_on_disk: "aster_inv env sys \<Longrightarrow> am_storePath (sy_m sys) \<noteq> [] \<Longrightarrow> on_disk env (am_storePath (sy_m sys)) (am_store (sy_m sys)) sys"
  by (auto simp: aster_inv_def m_inv_def saved_def on_disk_def intro: same_users_strip)

lemma on_disk_same: "on_disk env path s sys \<Longrightarrow> same_users s s' \<Longrightarrow> on_disk env path s' sys"
  unfolding on_disk_def by (blast intro: same_users_trans)

lemma failClosedStateLocked_closes:
  assumes codec: "codec_ok (ae_lib env)" and inv: "aster_inv env sys" and f: "failClosedStateLocked env names sys = (errs, sys')"
    and path: "am_storePath (sy_m sys) \<noteq> []"
  shows "shut_down sys' (names @ config_names (sy_m sys)) \<and> on_disk env (am_storePath (sy_m sys)) (am_store (sy_m sys)) sys'"
proof -
  obtain cerr reg where loop: "fail_closed_loop env (sortedSetKeys (names @ config_names (sy_m sys))) (sy_reg sys) = (cerr, reg)" by fastforce
  define sys1 where "sys1 = sys\<lparr>sy_reg := reg, sy_m := swap_own newRuntimeState (sy_m sys)\<rparr>"
  have m1: "am_storePath (sy_m sys1) = am_storePath (sy_m sys)" "am_runtime (sy_m sys1) = newRuntimeState" "sy_reg sys1 = reg"
    "strip (am_store (sy_m sys1)) = strip (am_store (sy_m sys))"
    by (simp_all add: sys1_def swap_own_def swapRuntimeLocked_def)
  obtain pe sys2 where pe: "persist_own env sys1 = (pe, sys2)" by fastforce
  have i1: "aster_inv env sys1" using m_inv_swap [of "ae_lib env" "sy_disks sys" "sy_m sys" newRuntimeState] inv
    by (simp add: sys1_def aster_inv_def)
  note po = persist_own_inv [OF codec i1 path [folded m1(1)] pe]
  have m2: "am_storePath (sy_m sys2) = am_storePath (sy_m sys)" "am_runtime (sy_m sys2) = newRuntimeState" "sy_reg sys2 = reg"
    "same_users (am_store (sy_m sys2)) (am_store (sy_m sys))"
    using po(2,4) m1 same_users_strip [OF m1(4)] by (auto split: option.splits)
  have d: "on_disk env (am_storePath (sy_m sys)) (am_store (sy_m sys)) sys2"
    using inv_on_disk [OF po(1)] m2 path by (auto intro: on_disk_same)
  have q: "\<forall>n \<in> set (names @ config_names (sy_m sys)). quiet n reg"
    using fail_closed_quiet [OF loop] by (simp add: sortedSetKeys_def)
  have "am_config (sy_m sys') = None \<and> am_runtime (sy_m sys') = am_runtime (sy_m sys2) \<and> sy_reg sys' = sy_reg sys2 \<and> sy_disks sys' = sy_disks sys2"
    using f loop pe path m1(1) unfolding failClosedStateLocked_def Let_def loop prod.case sys1_def [symmetric]
    by (auto simp: releaseStoreLocked_def stopFlusherLocked_def split: option.splits)
  with m2 d q show ?thesis by (simp add: shut_down_def on_disk_def)
qed

subsection \<open>Mutations are atomic\<close>

definition serves :: "string \<Rightarrow> registry \<Rightarrow> ManagedUser list \<Rightarrow> bool" where
  "serves n reg us \<longleftrightarrow> (\<exists>obj. managed_obj n reg = Inr obj \<and> CurrentManagedUsers (lo_inbound obj) = us)"

definition given :: "inbound_lib \<Rightarrow> string \<Rightarrow> ManagedUser list \<Rightarrow> registry \<Rightarrow> registry \<Rightarrow> bool" where
  "given lib n us reg reg' \<longleftrightarrow> (\<exists>obj obj'. managed_obj n reg = Inr obj \<and> obj_update lib us obj = Inr obj' \<and> managed_obj n reg' = Inr obj')"

lemma given_serves: "given lib n us reg reg' \<Longrightarrow> serves n reg' us"
  using obj_update_current by (auto simp: given_def serves_def managed_obj_ok)

lemma With_given:
  assumes "WithManagedInboundListener n (update_instance lib inst us) reg = Inr reg'"
  shows "given lib n us reg reg'"
  using assms obj_update_current
  by (auto simp: WithManagedInboundListener_def update_instance_def bindR_eq_Inr given_def managed_obj_ok split: if_splits)

lemmas With_serves = With_given [THEN given_serves]

lemma mutation_rollback:
  assumes "rollbackChanges env (mutation_change m n st st') reg = ([], reg')"
  shows "if activeManagedUsers st = activeManagedUsers st' then reg' = reg else serves n reg' (activeManagedUsers st)"
  using assms With_serves
  by (auto simp: mutation_change_def Let_def rollbackChanges_def split: sum.splits if_splits prod.splits)

lemma mutation_apply:
  assumes "applyChanges env (mutation_change m n st st') reg = (err, reg')"
  shows "err = [] \<Longrightarrow> if activeManagedUsers st = activeManagedUsers st' then reg' = reg else given (ae_inbound env) n (activeManagedUsers st') reg reg'"
    "err \<noteq> [] \<Longrightarrow> RollbackFailed \<notin> set err \<Longrightarrow> reg' = reg \<or> serves n reg' (activeManagedUsers st)"
  using assms With_serves With_given
  by (auto simp: mutation_change_def Let_def applyChanges_def rollbackChanges_def split: sum.splits if_splits prod.splits)

definition undone :: "aster_env \<Rightarrow> string \<Rightarrow> ListenerState \<Rightarrow> aster_sys \<Rightarrow> aster_sys \<Rightarrow> bool" where
  "undone env n st sys sys' \<longleftrightarrow> on_disk env (am_storePath (sy_m sys)) (am_store (sy_m sys)) sys'
     \<and> (shut_down sys' (config_names (sy_m sys))
        \<or> same_users (am_store (sy_m sys')) (am_store (sy_m sys)) \<and> am_config (sy_m sys') = am_config (sy_m sys)
          \<and> (sy_reg sys' = sy_reg sys \<or> serves n (sy_reg sys') (activeManagedUsers st)))"

lemma shut_down_undone:
  assumes "codec_ok (ae_lib env)" "aster_inv env sys1" "failClosedStateLocked env [] sys1 = (errs, sys')"
    "sy_m sys1 = sy_m sys" "am_storePath (sy_m sys) \<noteq> []"
  shows "undone env n st sys sys'"
  using failClosedStateLocked_closes [OF assms(1-3)] assms(4,5) by (simp add: undone_def)

lemma commit_fails:
  assumes codec: "codec_ok (ae_lib env)" and inv: "aster_inv env sys"
    and st: "mget (as_Listeners (am_store (sy_m sys))) n = Some st" and keys: "keys_ok s"
    and c: "commit_mutation env n st s st' sys = (Inl err, sys')"
  shows "undone env n st sys sys'"
proof -
  have path: "am_storePath (sy_m sys) \<noteq> []" by (rule inv_path [OF inv st])
  have i: "aster_inv env (sys\<lparr>sy_reg := reg\<rparr>)" for reg using inv by simp
  from c show ?thesis
  proof (cases rule: commit_cases)
    case (refused err' reg)
    with inv_on_disk [OF i [of reg]] path mutation_apply(2) [OF refused(1)] show ?thesis by (auto simp: undone_def)
  next
    case (closed err' reg closeErr)
    show ?thesis by (rule shut_down_undone [OF codec i closed(3)]) (use path in simp_all)
  next
    case (unsaved reg e sys1 errs)
    have i1: "aster_inv env sys1"
      using keys persist_fail_inv [OF codec i [of reg], of s e sys1] path unsaved(2) by (simp add: keys_ok_def)
    have s1: "sy_m sys1 = sy_m sys" "sy_reg sys1 = reg" using persistStore_frame(1,2) [OF unsaved(2)] by simp_all
    obtain rb reg2 where rb: "rollbackChanges env (mutation_change (sy_m sys) n st st') reg = (rb, reg2)" by fastforce
    have i2: "aster_inv env (sys1\<lparr>sy_reg := reg2\<rparr>)" using i1 by simp
    show ?thesis
    proof (cases "rb = []")
      case True
      then have "sys' = sys1\<lparr>sy_reg := reg2\<rparr>" using unsaved(3) rb s1 by (simp add: revert_changes_def)
      with inv_on_disk [OF i2] path s1 mutation_rollback [OF rb [unfolded True]] mutation_apply(1) [OF unsaved(1)]
      show ?thesis by (auto simp: undone_def split: if_splits)
    next
      case False
      then obtain ce where "failClosedStateLocked env [] (sys1\<lparr>sy_reg := reg2\<rparr>) = (ce, sys')"
        using unsaved(3) rb s1 by (auto simp: revert_changes_def split: prod.splits)
      from shut_down_undone [OF codec i2 this] s1 path show ?thesis by simp
    qed
  next
    case (committed reg s1 sys1)
    then show ?thesis by simp
  qed
qed

lemma publish_store [simp]:
  "strip (am_store (publishLocked m)) = strip (am_store m)" "am_config (publishLocked m) = am_config m" "am_storePath (publishLocked m) = am_storePath m"
  by (simp_all add: publishLocked_def swap_own_def swapRuntimeLocked_def)

lemma commit_done:
  assumes codec: "codec_ok (ae_lib env)" and inv: "aster_inv env sys"
    and st: "mget (as_Listeners (am_store (sy_m sys))) n = Some st" and keys: "keys_ok s"
    and c: "commit_mutation env n st s st' sys = (Inr x, sys')"
  shows "x = st'" "same_users (am_store (sy_m sys')) s" "am_config (sy_m sys') = am_config (sy_m sys)" "am_storePath (sy_m sys') = am_storePath (sy_m sys)"
    "if activeManagedUsers st = activeManagedUsers st' then sy_reg sys' = sy_reg sys else given (ae_inbound env) n (activeManagedUsers st') (sy_reg sys) (sy_reg sys')"
proof -
  have path: "am_storePath (sy_m sys) \<noteq> []" by (rule inv_path [OF inv st])
  obtain reg s1 sys1 where committed: "applyChanges env (mutation_change (sy_m sys) n st st') (sy_reg sys) = ([], reg)"
      "persistStore env (am_storePath (sy_m sys)) s (sys\<lparr>sy_reg := reg\<rparr>) = (Inr s1, sys1)" "x = st'"
      "sys' = sys1\<lparr>sy_m := publishLocked (reindexListenerLocked st st' ((sy_m sys1)\<lparr>am_store := s1\<rparr>))\<rparr>"
    using c by (cases rule: commit_cases) simp_all
  obtain st0 r0 where "loadStore (ae_lib env) (sy_disks sys (am_storePath (sy_m sys))) = Inr (st0, r0)"
    by (rule inv_loads [OF inv path])
  then have l0: "loadStore (ae_lib env) (sy_disks (sys\<lparr>sy_reg := reg\<rparr>) (am_storePath (sy_m sys))) = Inr (st0, r0)" by simp
  note pc = persistStore_cases [OF codec l0 keys [unfolded keys_ok_def, THEN conjunct1] keys [unfolded keys_ok_def, THEN conjunct2] committed(2)]
  have "same_users (am_store (sy_m sys')) s1" by (rule same_users_strip) (simp add: committed(4) reindexListenerLocked_def)
  then show "same_users (am_store (sy_m sys')) s" using pc(4) by (auto simp: same_users_def)
  show "x = st'" "am_config (sy_m sys') = am_config (sy_m sys)" "am_storePath (sy_m sys') = am_storePath (sy_m sys)"
    using committed(3,4) pc(1) by (simp_all add: reindexListenerLocked_def)
  show "if activeManagedUsers st = activeManagedUsers st' then sy_reg sys' = sy_reg sys else given (ae_inbound env) n (activeManagedUsers st') (sy_reg sys) (sy_reg sys')"
    using committed(4) pc(2) mutation_apply(1) [OF committed(1) refl] by simp
qed

lemma nextRevision_grows:
  assumes "0 < sint (nextRevision now prev)" "0 < sint prev"
  shows "sint prev < sint (nextRevision now prev)"
proof (cases "sint now \<le> sint prev")
  case True
  show ?thesis
  proof (cases "sint prev = 2 ^ 63 - 1")
    case m: True
    have "sint (prev + 1) = signed_take_bit 63 (sint prev + 1)" by (simp add: sint_word_ariths)
    then have "sint (prev + 1) = - (2 ^ 63)" by (simp add: m)
    with True assms show ?thesis by (simp add: nextRevision_def)
  next
    case False
    have "sint prev < 2 ^ 63" using sint_lt [of prev] by simp
    with False have "sint prev + 1 < 2 ^ 63" by linarith
    then have "sint (prev + 1) = sint prev + 1" using assms(2) by (simp add: sint_word_ariths signed_take_bit_int_eq_self)
    with True show ?thesis by (simp add: nextRevision_def)
  qed
qed (use assms in \<open>simp add: nextRevision_def\<close>)

lemma active_sync [simp]: "activeManagedUsers (st\<lparr>ls_Users := map (sync_user rt n) (ls_Users st)\<rparr>) = activeManagedUsers st"
proof -
  have u: "u_Enabled (sync_user rt n u) = u_Enabled u" "u_ID (sync_user rt n u) = u_ID u" "u_Name (sync_user rt n u) = u_Name u"
    "u_UUID (sync_user rt n u) = u_UUID u" "u_Password (sync_user rt n u) = u_Password u" "u_Flow (sync_user rt n u) = u_Flow u" for u
    by (simp_all add: sync_user_def split: option.split)
  show ?thesis by (simp add: activeManagedUsers_def filter_map comp_def u)
qed

lemma mutation_start_simps [simp]:
  "sy_reg (mutation_start sys) = sy_reg sys" "am_config (sy_m (mutation_start sys)) = am_config (sy_m sys)"
  "am_storePath (sy_m (mutation_start sys)) = am_storePath (sy_m sys)" "strip (am_store (sy_m (mutation_start sys))) = strip (am_store (sy_m sys))"
  "sy_disks (mutation_start sys) = sy_disks sys"
  by (simp_all add: mutation_start_def syncTrafficLocked_def)

lemma mutation_start_lookup:
  "mget (as_Listeners (am_store (sy_m (mutation_start sys)))) n =
     map_option (\<lambda>st. st\<lparr>ls_Users := map (sync_user (am_runtime (sy_m sys)) n) (ls_Users st)\<rparr>) (mget (as_Listeners (am_store (sy_m sys))) n)"
  by (simp add: mutation_start_def syncTrafficLocked_def sync_lookup)

lemma dirty_simps [simp]:
  "sy_reg (undo_dirty d sys) = sy_reg sys" "sy_disks (undo_dirty d sys) = sy_disks sys" "am_config (sy_m (undo_dirty d sys)) = am_config (sy_m sys)"
  "am_store (sy_m (undo_dirty d sys)) = am_store (sy_m sys)" "am_storePath (sy_m (undo_dirty d sys)) = am_storePath (sy_m sys)"
  "am_runtime (sy_m (undo_dirty d sys)) = am_runtime (sy_m sys)" "am_userIndex (sy_m (undo_dirty d sys)) = am_userIndex (sy_m sys)"
  by (simp_all add: undo_dirty_def set_dirty_def)

lemma undone_start:
  assumes "undone env n st (mutation_start sys) sys1" "activeManagedUsers st = activeManagedUsers cur"
  shows "undone env n cur sys (undo_dirty d sys1)"
proof -
  have "same_users (am_store (sy_m (mutation_start sys))) (am_store (sy_m sys))" by (rule same_users_strip) simp
  with assms show ?thesis
    by (auto simp: undone_def on_disk_def shut_down_def config_names_def intro: same_users_trans)
qed

lemma strip_lookup: "same_users s s' \<Longrightarrow> map_option strip_state (mget (as_Listeners s) n) = map_option strip_state (mget (as_Listeners s') n)"
  using mget_strip [of s n] mget_strip [of s' n] by (simp add: same_users_def del: strip_simps)

lemma mutate_done:
  assumes codec: "codec_ok (ae_lib env)" and inv: "aster_inv env sys" and ok: "mutation_ok mutate"
    and m: "mutateListenerLocked env n rv mutate sys = (Inr st', sys')"
  obtains cur s1 st1 where "mget (as_Listeners (am_store (sy_m sys))) n = Some cur" "ls_Revision cur = rv" "sint rv < sint (ls_Revision st')"
    "mutate (am_store (sy_m (mutation_start sys))) (cur\<lparr>ls_Users := map (sync_user (am_runtime (sy_m sys)) n) (ls_Users cur)\<rparr>) = Inr (s1, st1)"
    "ls_Users st' = ls_Users st1" "ls_Name st' = ls_Name st1"
    "same_users (am_store (sy_m sys')) (s1\<lparr>as_Listeners := mset' n st' (as_Listeners s1)\<rparr>)" "as_Listeners s1 = as_Listeners (am_store (sy_m (mutation_start sys)))"
    "am_config (sy_m sys') = am_config (sy_m sys)" "am_storePath (sy_m sys') = am_storePath (sy_m sys)"
    "if activeManagedUsers cur = activeManagedUsers st' then sy_reg sys' = sy_reg sys else given (ae_inbound env) n (activeManagedUsers st') (sy_reg sys) (sy_reg sys')"
  using m
proof (cases rule: mutate_cases)
  case (tried cur st s1 st1 stn s r1 sys1)
  have st: "st = cur\<lparr>ls_Users := map (sync_user (am_runtime (sy_m sys)) n) (ls_Users cur)\<rparr>"
    using tried(1,3) by (simp add: mutation_start_lookup)
  have wf: "store_wf (ae_lib env) (am_store (sy_m (mutation_start sys)))" using inv by (intro inv_wf) simp
  with ok tried(4) have s1: "as_Listeners s1 = as_Listeners (am_store (sy_m (mutation_start sys)))" "mkeys_ok (as_Subscriptions s1)"
    unfolding mutation_ok_def store_wf_def by blast+
  have keys: "keys_ok s" using wf s1 by (simp add: keys_ok_def store_wf_def tried(6) gm.invar_update)
  have c: "commit_mutation env n st s stn (mutation_start sys) = (Inr st', sys')" using tried(8-10) by (cases r1) auto
  note dn = commit_done [OF codec mutation_start_inv [OF inv] tried(3) keys c]
  have pos: "0 < sint (ls_Revision cur)"
    using inv_wf [OF inv] tried(1)
    by (force simp: store_wf_def store_ok_def listener_ok_def listener_shape_ok_def dest: map_of_SomeD)
  have "mget (as_Listeners s) n = Some stn" by (simp add: tried(6))
  then have "0 < sint (ls_Revision stn)"
    using tried(7) by (force simp: store_ok_def listener_ok_def listener_shape_ok_def dest: map_of_SomeD)
  then have grows: "sint rv < sint (ls_Revision st')"
    using nextRevision_grows [of "ae_now env (sy_tick sys)" rv] pos tried(2) dn(1) by (simp add: tried(5))
  show ?thesis
  proof (rule that [of cur s1 st1])
    show "mutate (am_store (sy_m (mutation_start sys))) (cur\<lparr>ls_Users := map (sync_user (am_runtime (sy_m sys)) n) (ls_Users cur)\<rparr>) = Inr (s1, st1)"
      using tried(4) by (simp add: st)
    show "ls_Users st' = ls_Users st1" "ls_Name st' = ls_Name st1" using tried(5) dn(1) by simp_all
    show "same_users (am_store (sy_m sys')) (s1\<lparr>as_Listeners := mset' n st' (as_Listeners s1)\<rparr>)" using dn(1,2) by (simp add: tried(6))
    show "if activeManagedUsers cur = activeManagedUsers st' then sy_reg sys' = sy_reg sys else given (ae_inbound env) n (activeManagedUsers st') (sy_reg sys) (sy_reg sys')"
      using dn(1,5) by (simp add: st split: if_splits)
  qed (use tried(1,2) grows s1(1) dn(3,4) in simp_all)
qed simp_all

lemma mutate_fails:
  assumes codec: "codec_ok (ae_lib env)" and inv: "aster_inv env sys" and ok: "mutation_ok mutate"
    and m: "mutateListenerLocked env n rv mutate sys = (Inl err, sys')"
  shows "sys' = sys \<or> (\<exists>cur. mget (as_Listeners (am_store (sy_m sys))) n = Some cur \<and> undone env n cur sys sys')"
  using m
proof (cases rule: mutate_cases)
  case (refused err')
  then obtain cur where cur: "mget (as_Listeners (am_store (sy_m sys))) n = Some cur" by auto
  have "undone env n cur (mutation_start sys) (mutation_start sys)"
    using inv_on_disk [OF mutation_start_inv [OF inv]] inv_path [OF inv cur] by (simp add: undone_def)
  from undone_start [OF this refl] cur refused(2) show ?thesis by blast
next
  case (tried cur st s1 st1 stn s r1 sys1)
  have st: "activeManagedUsers st = activeManagedUsers cur" using tried(1,3) by (auto simp: mutation_start_lookup)
  have wf: "store_wf (ae_lib env) (am_store (sy_m (mutation_start sys)))" using inv by (intro inv_wf) simp
  with ok tried(4) have s1: "as_Listeners s1 = as_Listeners (am_store (sy_m (mutation_start sys)))" "mkeys_ok (as_Subscriptions s1)"
    unfolding mutation_ok_def store_wf_def by blast+
  have keys: "keys_ok s" using wf s1 by (simp add: keys_ok_def store_wf_def tried(6) gm.invar_update)
  have c: "commit_mutation env n st s stn (mutation_start sys) = (Inl err, sys1)" using tried(8,9) by simp
  from undone_start [OF commit_fails [OF codec mutation_start_inv [OF inv] tried(3) keys c] st, of "am_dirty (sy_m sys)"] tried(1,9,10)
  show ?thesis by auto
qed simp_all

text \<open>
  C6. A change of the users of a listener happens everywhere or nowhere. It is refused unless it
  names the current revision. If it succeeds, the listener of that name, and no other, has
  changed in memory, its revision has grown, the file loads as the store in memory, and unless the active users
  are the same as before the running listener has been given the new ones. If it fails, the
  file still holds the users of before, and either memory does too and the running listener was not touched or
  has been given back the active users of before, or, where even that was impossible, the manager is disabled and no
  configured listener serves anybody. All changes of \<^verbatim>\<open>users.go\<close> are \<open>mutation_ok\<close>: none touches the map of listeners.
\<close>

theorem aster_mutation_atomic:
  assumes "codec_ok (ae_lib env)" "aster_reachable env sys" "mutation_ok mutate"
    and m: "mutateListenerLocked env n rv mutate sys = (r, sys')"
  defines "store \<equiv> am_store (sy_m sys)" and "store' \<equiv> am_store (sy_m sys')" and "path \<equiv> am_storePath (sy_m sys)"
  shows "case r of
      Inr st' \<Rightarrow> (\<exists>cur. mget (as_Listeners store) n = Some cur \<and> ls_Revision cur = rv \<and> sint rv < sint (ls_Revision st')
          \<and> map_option strip_state (mget (as_Listeners store') n) = Some (strip_state st')
          \<and> (\<forall>n'. n' \<noteq> n \<longrightarrow> map_option strip_state (mget (as_Listeners store') n') = map_option strip_state (mget (as_Listeners store) n'))
          \<and> on_disk env path store' sys' \<and> am_config (sy_m sys') = am_config (sy_m sys)
          \<and> (if activeManagedUsers cur = activeManagedUsers st' then sy_reg sys' = sy_reg sys
             else serves n (sy_reg sys') (activeManagedUsers st')))
    | Inl _ \<Rightarrow> sys' = sys
        \<or> on_disk env path store sys'
          \<and> (shut_down sys' (config_names (sy_m sys))
             \<or> same_users store' store \<and> am_config (sy_m sys') = am_config (sy_m sys)
               \<and> (sy_reg sys' = sy_reg sys
                  \<or> (\<exists>cur. mget (as_Listeners store) n = Some cur \<and> serves n (sy_reg sys') (activeManagedUsers cur))))"
proof (cases r)
  case (Inl err)
  from mutate_fails [OF assms(1) reachable_aster_inv [OF assms(1,2)] assms(3) m [unfolded Inl]] show ?thesis
    by (auto simp: Inl undone_def store_def store'_def path_def)
next
  case (Inr st')
  have inv: "aster_inv env sys" by (rule reachable_aster_inv [OF assms(1,2)])
  from m Inr have m': "mutateListenerLocked env n rv mutate sys = (Inr st', sys')" by simp
  obtain cur s1 st1 where d: "mget (as_Listeners store) n = Some cur" "ls_Revision cur = rv" "sint rv < sint (ls_Revision st')"
      "same_users store' (s1\<lparr>as_Listeners := mset' n st' (as_Listeners s1)\<rparr>)" "as_Listeners s1 = as_Listeners (am_store (sy_m (mutation_start sys)))"
      "am_config (sy_m sys') = am_config (sy_m sys)" "am_storePath (sy_m sys') = path"
      "if activeManagedUsers cur = activeManagedUsers st' then sy_reg sys' = sy_reg sys else given (ae_inbound env) n (activeManagedUsers st') (sy_reg sys) (sy_reg sys')"
    unfolding store_def store'_def path_def by (rule mutate_done [OF assms(1) inv assms(3) m'])
  have "on_disk env path store' sys'"
    using inv_on_disk [OF mutateListenerLocked_inv [OF assms(1) inv assms(3) m']] d(7) inv_path [OF inv d(1) [unfolded store_def]]
    by (simp add: path_def store'_def)
  moreover have "map_option strip_state (mget (as_Listeners (am_store (sy_m (mutation_start sys)))) n') = map_option strip_state (mget (as_Listeners store) n')" for n'
    unfolding store_def by (rule strip_lookup [OF same_users_strip]) simp
  ultimately show ?thesis using d strip_lookup [OF d(4)] given_serves by (simp add: Inr split: if_splits)
qed

subsection \<open>Deleting a user\<close>

text \<open>Neither the table of the running service nor any of its connections mentions the user.\<close>

primrec user_gone :: "string \<Rightarrow> inbound \<Rightarrow> bool" where
  "user_gone u (VlessInbound v) = (\<exists>l. vi_l v = Some l \<and> (\<forall>k c. mget (sv_users l) k = Some c \<longrightarrow> cr_user c \<noteq> u)
     \<and> (\<forall>a \<in> set (sv_connections l). cr_user (ac_credential a) \<noteq> u))"
| "user_gone u (AnyTLSInbound v) = (\<exists>l. ai_l v = Some l \<and> (\<forall>k c. mget (al_users l) k = Some c \<longrightarrow> c \<noteq> u)
     \<and> (\<forall>a \<in> set (al_connections l). aa_user a \<noteq> u))"
| "user_gone u (OtherInbound b) = True"

text \<open>Every connection of the running service is authorized, as it always is.\<close>

primrec all_authorized :: "inbound \<Rightarrow> bool" where
  "all_authorized (VlessInbound v) = (\<forall>l. vi_l v = Some l \<longrightarrow> list_all (still_valid (sv_users l)) (sv_connections l))"
| "all_authorized (AnyTLSInbound v) = (\<forall>l. ai_l v = Some l \<longrightarrow> list_all (anytls_valid (al_users l)) (al_connections l))"
| "all_authorized (OtherInbound b) = True"

lemma vless_table_principals:
  assumes "vless_table lib us = Some t" "t k = Some c"
  shows "cr_user c \<in> principal ` set us"
proof -
  from assms(1) obtain m where m: "user_map (il_vless lib) (map (\<lambda>u. (principal u, mu_UUID u, mu_Flow u)) us) = Inr m" "t = mget m"
    by (auto simp: vless_table_Some)
  have "\<forall>k c. mget m k = Some c \<longrightarrow> cr_user c \<in> principal ` set us"
    by (rule foldR_invariant [OF m(1) [unfolded user_map_def]]) (auto simp: add_user_def Let_def split: if_splits)
  with assms(2) m(2) show ?thesis by blast
qed

lemma anytls_table_principals:
  assumes "anytls_table lib us = Some t" "t k = Some c"
  shows "c \<in> principal ` set us"
proof -
  from assms(1) obtain m m' where m: "anyTLSManagedUsers us = Inr m" "buildUserSnapshot (il_sha256 lib) m = Inr m'" "t = mget m'"
    by (auto simp: anytls_table_Some)
  have "dom (mget m) \<subseteq> principal ` set us"
    by (rule foldR_invariant [OF m(1) [unfolded anyTLSManagedUsers_def], where P = "\<lambda>m. dom (mget m) \<subseteq> principal ` set us"])
      (auto simp: add_principal_def dom_def subset_iff split: if_splits)
  then have "fst ` set m \<subseteq> principal ` set us" by (simp only: dom_map_of_conv_image_fst)
  then have keys: "(a, b) \<in> set m \<Longrightarrow> a \<in> principal ` set us" for a b by force
  have "\<forall>k c. mget m' k = Some c \<longrightarrow> c \<in> principal ` set us"
    by (rule foldR_invariant [OF m(2) [unfolded buildUserSnapshot_def]])
      (use keys in \<open>auto simp: add_password_def Let_def split: if_splits option.splits\<close>)
  with assms(2) m(3) show ?thesis by blast
qed

lemma update_user_gone:
  assumes good: "inbound_good lib i" "all_authorized i" and up: "UpdateManagedUsers lib us i = Inr i'" and u: "u \<notin> principal ` set us"
  shows "user_gone u i'"
proof (cases i)
  case (VlessInbound v)
  with up obtain v' where v': "vless_UpdateManagedUsers lib us v = Inr v'" "i' = VlessInbound v'" by auto
  obtain t where t: "vless_table lib (vi_managedUsers v) = Some t" "vless_installed v = Some t"
    using good(1) VlessInbound vm.coherent_running [of lib v] by (auto simp: inbound_good_def)
  then obtain l where l: "vi_l v = Some l" "t = mget (sv_users l)" by (auto simp: vless_installed_def split: option.splits if_splits)
  from v'(1) show ?thesis
  proof (cases rule: vless_update_cases)
    case 1
    with t have "\<forall>k c. mget (sv_users l) k = Some c \<longrightarrow> cr_user c \<noteq> u"
      using vless_table_principals [of lib us t] u l(2) by auto
    with 1 v'(2) l(1) good(2) VlessInbound show ?thesis by (auto simp: list_all_iff still_valid_def)
  next
    case (2 l' m)
    with vless_table_principals [of lib us "mget m"] u v'(2) show ?thesis by (auto simp: still_valid_def)
  qed
next
  case (AnyTLSInbound v)
  with up obtain v' where v': "anytls_UpdateManagedUsers lib us v = Inr v'" "i' = AnyTLSInbound v'" by auto
  obtain t where t: "anytls_table lib (ai_managedUsers v) = Some t" "anytls_installed v = Some t"
    using good(1) AnyTLSInbound am.coherent_running [of lib v] by (auto simp: inbound_good_def)
  then obtain l where l: "ai_l v = Some l" "t = mget (al_users l)" by (auto simp: anytls_installed_def split: option.splits if_splits)
  from v'(1) show ?thesis
  proof (cases rule: anytls_update_cases)
    case 1
    with t have "\<forall>k c. mget (al_users l) k = Some c \<longrightarrow> c \<noteq> u"
      using anytls_table_principals [of lib us t] u l(2) by auto
    with 1 v'(2) l(1) good(2) AnyTLSInbound show ?thesis by (auto simp: list_all_iff anytls_valid_def)
  next
    case (2 l' m)
    with anytls_table_principals [of lib us "mget m"] u v'(2) show ?thesis by (auto simp: anytls_valid_def)
  qed
qed (use up in auto)

lemma remove_first:
  assumes "distinct (map f xs)"
  shows "k \<notin> f ` set (takeWhile (\<lambda>x. f x \<noteq> k) xs @ tl (dropWhile (\<lambda>x. f x \<noteq> k) xs))"
  using assms by (induction xs) auto

lemma remove_first_subset: "set (takeWhile P xs @ tl (dropWhile P xs)) \<subseteq> set xs"
  by (induction xs) auto

lemma wf_distinct: "store_wf lib s \<Longrightarrow> mget (as_Listeners s) n = Some st \<Longrightarrow> distinct (map u_ID (ls_Users st))"
proof -
  assume wf: "store_wf lib s" and "mget (as_Listeners s) n = Some st"
  then have "(n, st) \<in> set (as_Listeners s)" by (blast dest: map_of_SomeD)
  then obtain xs ys where "as_Listeners s = xs @ (n, st) # ys" by (auto simp: in_set_conv_decomp)
  with wf show ?thesis by (simp add: store_wf_def store_ok_def all_users_def)
qed

lemma wf_user_id: "store_wf lib s \<Longrightarrow> mget (as_Listeners s) n = Some st \<Longrightarrow> u \<in> set (ls_Users st) \<Longrightarrow> u_ID u \<noteq> []"
  by (force simp: store_wf_def store_ok_def listener_ok_def user_ok_def user_shape_ok_def dest: map_of_SomeD)

lemma active_principals:
  assumes "\<And>x. x \<in> set (ls_Users st) \<Longrightarrow> u_ID x \<noteq> []"
  shows "principal ` set (activeManagedUsers st) = u_ID ` set (filter u_Enabled (ls_Users st))"
proof -
  have "map principal (activeManagedUsers st) = map u_ID (filter u_Enabled (ls_Users st))"
    using assms by (simp add: activeManagedUsers_def principal_def)
  then show ?thesis by (metis list.set_map)
qed

lemma with_user_found:
  assumes "aster_inv env sys" "with_user u sys = Inr n"
  shows "\<exists>st user. findUser (am_store (sy_m sys)) u = Some (n, st, user)"
proof -
  have "indexedUserLocked (sy_m sys) u = findUser (am_store (sy_m sys)) u"
    using assms(1) by (intro indexedUser_findUser [OF inv_wf [OF assms(1)]]) (simp add: aster_inv_def m_inv_def)
  moreover obtain st user where "indexedUserLocked (sy_m sys) u = Some (n, st, user)"
    using assms(2) by (auto simp: with_user_def split: option.splits if_splits)
  ultimately show ?thesis by metis
qed

lemma findUser_SomeD:
  assumes "store_wf lib s" "findUser s k = Some (n, st, u)"
  shows "mget (as_Listeners s) n = Some st" "u \<in> set (ls_Users st)" "u_ID u = k"
  using assms findUser_from_view(1) [of "as_Listeners s" k n st u] by (auto simp: findUser_def store_wf_def)

lemma findUser_None: "findUser s k = None \<longleftrightarrow> k \<notin> u_ID ` set (all_users s)"
  by (auto simp: findUser_def findUser_from_view(2) all_users_def)

lemma deleted_everywhere:
  assumes wf: "store_wf lib s" and st: "mget (as_Listeners s) n = Some st" and u: "u \<in> u_ID ` set (ls_Users st)"
    and s': "\<And>n'. map_option strip_state (mget (as_Listeners s') n') = map_option strip_state (if n' = n then Some st' else mget (as_Listeners s) n')"
    and gone: "u \<notin> u_ID ` set (ls_Users st')" and keys: "mkeys_ok (as_Listeners s')"
  shows "findUser s' u = None"
proof (rule ccontr)
  assume "findUser s' u \<noteq> None"
  then obtain n1 st1 x where f: "findUser s' u = Some (n1, st1, x)" by auto
  then have "(n1, st1) \<in> set (as_Listeners s')" and x: "x \<in> set (ls_Users st1)" "u_ID x = u"
    using findUser_from_view(1) [of "as_Listeners s'" u n1 st1 x] by (auto simp: findUser_def)
  then have st1: "mget (as_Listeners s') n1 = Some st1" using keys by simp
  obtain i where i: "located s u \<lparr>loc_inbound = n, loc_index = i\<rparr>" using located_here [OF st u] by blast
  have ids: "map u_ID (ls_Users a) = map u_ID (ls_Users b)" if "strip_state a = strip_state b" for a b
    using arg_cong [OF that, of "\<lambda>st. map u_ID (ls_Users st)"] by (simp add: comp_def)
  show False
  proof (cases "n1 = n")
    case True
    with s' [of n] st1 have "strip_state st1 = strip_state st'" by simp
    from ids [OF this] x gone show False by (metis image_eqI image_set)
  next
    case False
    with s' [of n1] st1 obtain st0 where st0: "mget (as_Listeners s) n1 = Some st0" "strip_state st1 = strip_state st0"
      by (cases "mget (as_Listeners s) n1") auto
    from ids [OF this(2)] x have "u \<in> u_ID ` set (ls_Users st0)" by (metis image_eqI image_set)
    from located_here [OF st0(1) this] obtain j where "located s u \<lparr>loc_inbound = n1, loc_index = j\<rparr>" by blast
    from located_unique [OF wf i this] False show False by simp
  qed
qed

lemma delete_done:
  assumes codec: "codec_ok (ae_lib env)" and inv: "aster_inv env sys" and d: "DeleteUser env u rv sys = (Inr rv', sys')"
  obtains n cur st' where "mget (as_Listeners (am_store (sy_m sys))) n = Some cur" "u \<in> u_ID ` set (ls_Users cur)"
    "findUser (am_store (sy_m sys')) u = None" "mget (as_Subscriptions (am_store (sy_m sys'))) u = None" "aster_inv env sys'"
    "u \<notin> principal ` set (activeManagedUsers st')"
    "if activeManagedUsers cur = activeManagedUsers st' then sy_reg sys' = sy_reg sys
     else given (ae_inbound env) n (activeManagedUsers st') (sy_reg sys) (sy_reg sys')"
    "\<exists>user. findUser (am_store (sy_m sys)) u = Some (n, cur, user)"
    "am_storePath (sy_m sys') \<noteq> []" "am_storePath (sy_m sys') = am_storePath (sy_m sys)"
proof -
  obtain n st' where w: "with_user u sys = Inr n" and m: "mutateListenerLocked env n rv (delete_mutation u) sys = (Inr st', sys')"
    using d by (auto simp: DeleteUser_def split: sum.splits prod.splits)
  obtain st0 user where f: "findUser (am_store (sy_m sys)) u = Some (n, st0, user)" using with_user_found [OF inv w] by blast
  note wf = inv_wf [OF inv]
  obtain cur s1 st1 where c: "mget (as_Listeners (am_store (sy_m sys))) n = Some cur"
    "delete_mutation u (am_store (sy_m (mutation_start sys))) (cur\<lparr>ls_Users := map (sync_user (am_runtime (sy_m sys)) n) (ls_Users cur)\<rparr>) = Inr (s1, st1)"
    "ls_Users st' = ls_Users st1"
    "same_users (am_store (sy_m sys')) (s1\<lparr>as_Listeners := mset' n st' (as_Listeners s1)\<rparr>)" "as_Listeners s1 = as_Listeners (am_store (sy_m (mutation_start sys)))"
    "am_storePath (sy_m sys') = am_storePath (sy_m sys)"
    "if activeManagedUsers cur = activeManagedUsers st' then sy_reg sys' = sy_reg sys else given (ae_inbound env) n (activeManagedUsers st') (sy_reg sys) (sy_reg sys')"
    by (rule mutate_done [OF codec inv mutation_oks(2) m])
  have inv': "aster_inv env sys'" by (rule mutateListenerLocked_inv [OF codec inv mutation_oks(2) m])
  have cur: "st0 = cur" "u \<in> u_ID ` set (ls_Users cur)" using findUser_SomeD [OF wf f] c(1) by auto
  let ?us = "map (sync_user (am_runtime (sy_m sys)) n) (ls_Users cur)"
  have ids: "u_ID (sync_user rt n x) = u_ID x" for rt n x by (simp add: sync_user_def split: option.split)
  have users: "ls_Users st' = takeWhile (\<lambda>x. u_ID x \<noteq> u) ?us @ tl (dropWhile (\<lambda>x. u_ID x \<noteq> u) ?us)"
    and subs: "as_Subscriptions s1 = mdel u (as_Subscriptions (am_store (sy_m (mutation_start sys))))"
    using c(2,3) by (auto simp: delete_mutation_def split: if_splits)
  have "distinct (map u_ID ?us)" using wf_distinct [OF wf c(1)] by (simp add: comp_def ids)
  from remove_first [OF this, of u] have gone: "u \<notin> u_ID ` set (ls_Users st')" by (simp add: users)
  have "set (ls_Users st') \<subseteq> set ?us" unfolding users by (rule remove_first_subset)
  then have "u_ID x \<noteq> []" if "x \<in> set (ls_Users st')" for x using that wf_user_id [OF wf c(1)] ids by fastforce
  from active_principals [of st', OF this] gone have p: "u \<notin> principal ` set (activeManagedUsers st')" by auto
  have start: "map_option strip_state (mget (as_Listeners (am_store (sy_m (mutation_start sys)))) k) = map_option strip_state (mget (as_Listeners (am_store (sy_m sys))) k)" for k
    by (rule strip_lookup [OF same_users_strip]) simp
  have none: "findUser (am_store (sy_m sys')) u = None"
    by (rule deleted_everywhere [OF wf c(1) cur(2) _ gone])
      (use strip_lookup [OF c(4)] start inv_wf [OF inv'] in \<open>simp_all add: c(5) store_wf_def\<close>)
  have "mget (as_Subscriptions (am_store (sy_m sys'))) u = None" using c(4) subs by (simp add: same_users_def)
  with c cur f p none inv' inv_path [OF inv c(1)] that show ?thesis by auto
qed

text \<open>
  C14. A user who is deleted is gone everywhere at once. When \<^verbatim>\<open>DeleteUser\<close> succeeds for an enabled
  user, no search of the store finds them, on disk neither, no subscription token leads to them,
  not even one looked up before the deletion, and the listener they belonged to, if it was serving, goes on serving, has no credential of
  theirs and holds no connection of theirs.
\<close>

theorem aster_delete_revokes:
  assumes codec: "codec_ok (ae_lib env)" and reach: "aster_reachable env sys"
    and d: "DeleteUser env userID rv sys = (Inr rv', sys')"
    and f: "findUser (am_store (sy_m sys)) userID = Some (n, st, user)" "u_Enabled user"
    and l: "managed_obj n (sy_reg sys) = Inr obj" "inbound_good (ae_inbound env) (lo_inbound obj)" "all_authorized (lo_inbound obj)"
  shows "findUser (am_store (sy_m sys')) userID = None \<and> isl (SubscriptionToken userID (sy_m sys'))
    \<and> (\<forall>token rt u. SubscriptionUser token rt (sy_m sys') = Inr u \<longrightarrow> u_ID u \<noteq> userID)
    \<and> (\<exists>s r. loadStore (ae_lib env) (sy_disks sys' (am_storePath (sy_m sys))) = Inr (s, r) \<and> findUser s userID = None)
    \<and> (\<exists>obj'. managed_obj n (sy_reg sys') = Inr obj' \<and> inbound_good (ae_inbound env) (lo_inbound obj') \<and> user_gone userID (lo_inbound obj'))"
proof -
  have inv: "aster_inv env sys" by (rule reachable_aster_inv [OF codec reach])
  obtain n1 cur st' where c: "mget (as_Listeners (am_store (sy_m sys))) n1 = Some cur" "userID \<in> u_ID ` set (ls_Users cur)"
    "findUser (am_store (sy_m sys')) userID = None" "mget (as_Subscriptions (am_store (sy_m sys'))) userID = None" "aster_inv env sys'"
    "userID \<notin> principal ` set (activeManagedUsers st')"
    "if activeManagedUsers cur = activeManagedUsers st' then sy_reg sys' = sy_reg sys
     else given (ae_inbound env) n1 (activeManagedUsers st') (sy_reg sys) (sy_reg sys')"
    "\<exists>user. findUser (am_store (sy_m sys)) userID = Some (n1, cur, user)"
    "am_storePath (sy_m sys') \<noteq> []" "am_storePath (sy_m sys') = am_storePath (sy_m sys)"
    by (rule delete_done [OF codec inv d])
  have n1: "n1 = n" "cur = st" using c(8) f(1) by auto
  have idx: "indexedUserLocked (sy_m sys') k = findUser (am_store (sy_m sys')) k" for k
    using c(5) by (intro indexedUser_findUser [OF inv_wf [OF c(5)]]) (simp add: aster_inv_def m_inv_def)
  have id: "u_ID x = k" if "findUser (am_store (sy_m sys')) k = Some (a, b, x)" for a b x k
    by (rule findUser_SomeD(3) [OF inv_wf [OF c(5)] that])
  have token: "u_ID x \<noteq> userID" if "SubscriptionUser token rt (sy_m sys') = Inr x" for token rt x
    using that id c(3) by (auto simp: SubscriptionUser_def idx split: option.splits if_splits)
  obtain s r where s: "loadStore (ae_lib env) (sy_disks sys' (am_storePath (sy_m sys'))) = Inr (s, r)" "strip s = strip (am_store (sy_m sys'))"
    by (rule inv_loads [OF c(5,9)])
  have "map u_ID (all_users s) = map u_ID (all_users (am_store (sy_m sys')))"
    using arg_cong [OF s(2), of "\<lambda>s. map u_ID (all_users s)"] by (simp add: all_users_strip comp_def)
  then have disk: "findUser s userID = None" using c(3) unfolding findUser_None by (metis list.set_map)
  have "userID \<in> principal ` set (activeManagedUsers st)"
    using findUser_SomeD [OF inv_wf [OF inv] f(1)] f(2) wf_user_id [OF inv_wf [OF inv]] by (subst active_principals) auto
  with c(6,7) n1 have "given (ae_inbound env) n (activeManagedUsers st') (sy_reg sys) (sy_reg sys')" by (auto split: if_splits)
  with l(1) obtain obj' where o: "obj_update (ae_inbound env) (activeManagedUsers st') obj = Inr obj'" "managed_obj n (sy_reg sys') = Inr obj'"
    by (auto simp: given_def)
  then have u: "UpdateManagedUsers (ae_inbound env) (activeManagedUsers st') (lo_inbound obj) = Inr (lo_inbound obj')"
    by (auto simp: obj_update_def)
  from update_user_gone [OF l(2,3) u c(6)] inbound_update_good [OF l(2) u] l(1) o(2)
  have "inbound_good (ae_inbound env) (lo_inbound obj') \<and> user_gone userID (lo_inbound obj')" by (simp add: managed_obj_ok)
  then show ?thesis using c(3,10) token s(1) disk o(2) by (auto simp: SubscriptionToken_def idx)
qed

subsection \<open>An example, continued\<close>

text \<open>The same while the user is connected.\<close>

definition demo_id :: string where "demo_id = ''id'' @ put_nat 2"

definition demo_credential :: userCredential where
  "demo_credential = \<lparr>cr_user = demo_id, cr_flow = []\<rparr>"

definition demo_managed :: listener_obj where
  "demo_managed = demo_obj\<lparr>lo_inbound := VlessInbound ((NewVless [demo_vless_user])\<lparr>
     vi_l := Some (NewService\<lparr>sv_users := [(''0123456789abcdef'', demo_credential)],
       sv_connections := [\<lparr>ac_conn = 7, ac_uuid = ''0123456789abcdef'', ac_credential = demo_credential\<rparr>]\<rparr>),
     vi_managedUsers := [\<lparr>mu_PrincipalID = demo_id, mu_Name = ''alice'', mu_UUID = ''0123456789abcdef'', mu_Password = [], mu_Flow = []\<rparr>]\<rparr>)\<rparr>"

definition demo_busy :: aster_sys where
  "demo_busy = demo_on\<lparr>sy_reg := demo_registry\<lparr>rg_listeners := [(''in'', demo_managed)]\<rparr>\<rparr>"

lemma demo_busy_reachable: "aster_reachable demo_env demo_busy"
  unfolding demo_busy_def by (rule aster_reachable.step [OF demo_on_reachable aster_step.listeners])

lemma demo_delete: "case fst (DeleteUser demo_env demo_id 3 demo_busy) of Inl _ \<Rightarrow> False | Inr rv \<Rightarrow> rv = 6"
  by code_simp

lemma demo_found: "case findUser (am_store (sy_m demo_busy)) demo_id of None \<Rightarrow> False | Some (n, st, u) \<Rightarrow> n = ''in'' \<and> u_Enabled u"
  by code_simp

lemma demo_managed_good:
  "managed_obj ''in'' (sy_reg demo_busy) = Inr demo_managed" "all_authorized (lo_inbound demo_managed)"
  "inbound_good (ae_inbound demo_env) (lo_inbound demo_managed)"
  by (simp_all add: managed_obj_def demo_busy_def demo_managed_def still_valid_def inbound_good_def vm.coherent_def vless_installed_def NewVless_def
      NewService_def vless_table_def user_map_def add_user_def demo_env_def demo_inbound_lib_def demo_vless_lib_def demo_uuid_lib_def UUIDMap_def
      principal_def demo_credential_def demo_id_def fun_eq_iff)

theorem aster_delete_revokes_witness:
  "case DeleteUser demo_env demo_id 3 demo_busy of
     (Inl _, _) \<Rightarrow> False
   | (Inr _, sys) \<Rightarrow> findUser (am_store (sy_m sys)) demo_id = None
       \<and> (\<exists>obj. managed_obj ''in'' (sy_reg sys) = Inr obj \<and> user_gone demo_id (lo_inbound obj))"
proof -
  obtain rv sys' where d: "DeleteUser demo_env demo_id 3 demo_busy = (Inr rv, sys')"
    using demo_delete by (cases "DeleteUser demo_env demo_id 3 demo_busy") (auto split: sum.splits)
  obtain st user where f: "findUser (am_store (sy_m demo_busy)) demo_id = Some (''in'', st, user)" "u_Enabled user"
    using demo_found by (auto split: option.splits)
  from aster_delete_revokes [OF demo_codec demo_busy_reachable d f demo_managed_good(1,3,2)] d show ?thesis by auto
qed

theorem aster_mutation_atomic_witness:
  "case mutateListenerLocked demo_env ''in'' 3 (delete_mutation demo_id) demo_busy of
     (Inl _, _) \<Rightarrow> False
   | (Inr st, sys) \<Rightarrow> 3 < sint (ls_Revision st) \<and> on_disk demo_env ''store'' (am_store (sy_m sys)) sys \<and> serves ''in'' (sy_reg sys) []"
proof -
  have c: "case fst (mutateListenerLocked demo_env ''in'' 3 (delete_mutation demo_id) demo_busy) of Inl _ \<Rightarrow> False | Inr st \<Rightarrow> activeManagedUsers st = []"
    by code_simp
  have p: "am_storePath (sy_m demo_busy) = ''store'' \<and> map_option activeManagedUsers (mget (as_Listeners (am_store (sy_m demo_busy))) ''in'') \<noteq> Some []"
    by code_simp
  obtain st sys' where m: "mutateListenerLocked demo_env ''in'' 3 (delete_mutation demo_id) demo_busy = (Inr st, sys')" "activeManagedUsers st = []"
    using c by (cases "mutateListenerLocked demo_env ''in'' 3 (delete_mutation demo_id) demo_busy") (auto split: sum.splits)
  from aster_mutation_atomic [OF demo_codec demo_busy_reachable mutation_oks(2) m(1)] p m show ?thesis by (auto split: if_splits)
qed

end
