(* ===== verification/Common_LRU.thy ===== *)
theory Common_LRU
  imports Prelude
begin

section \<open>The LRU cache\<close>

text \<open>
  \<^verbatim>\<open>common/lru/lrucache.go\<close>: a map from keys to the elements of a doubly linked list, whose front is the
  least recently used entry. An element is its address, a number never used before, with the entry it holds;
  \<^verbatim>\<open>PushBack\<close>, \<^verbatim>\<open>MoveToBack\<close> and \<^verbatim>\<open>Remove\<close> do on the sequence of elements what those of \<^verbatim>\<open>container/list\<close> do,
  of which the list package the source imports is the generic copy. Every operation takes the reading of the clock, in
  seconds; the calls of the eviction callback are collected in \<open>lc_evicted\<close>. \<^verbatim>\<open>CloneTo\<close> copies the entries: that the two
  caches of the source share them afterwards is not represented, the pools that use it drop the old cache.

  The second half is the abstract contract, a list of entries in order of last use, and the proof that the map and
  the list always agree and implement it.
\<close>

subsection \<open>The cache\<close>

record ('k, 'v) entry =
  e_key :: 'k
  e_value :: 'v
  e_expires :: int

record ('k, 'v) LruCache =
  lc_maxAge :: int
  lc_maxSize :: int
  lc_cache :: "('k, nat) gomap"
  lc_lru :: "(nat \<times> ('k, 'v) entry) list"
  lc_next :: nat
  lc_updateAgeOnGet :: bool
  lc_staleReturn :: bool
  lc_onEvict :: bool
  lc_evicted :: "('k \<times> 'v) list"

definition list_Remove :: "nat \<Rightarrow> (nat \<times> 'e) list \<Rightarrow> (nat \<times> 'e) list" where
  "list_Remove i l = filter (\<lambda>x. fst x \<noteq> i) l"

definition list_MoveToBack :: "nat \<Rightarrow> (nat \<times> 'e) list \<Rightarrow> (nat \<times> 'e) list" where
  "list_MoveToBack i l = (case map_of l i of None \<Rightarrow> l | Some e \<Rightarrow> list_Remove i l @ [(i, e)])"

definition list_assign :: "nat \<Rightarrow> ('e \<Rightarrow> 'e) \<Rightarrow> (nat \<times> 'e) list \<Rightarrow> (nat \<times> 'e) list" where
  "list_assign i f l = map (\<lambda>(j, e). (j, if j = i then f e else e)) l"

definition Clear :: "('k, 'v) LruCache \<Rightarrow> ('k, 'v) LruCache" where
  "Clear c = c\<lparr>lc_lru := [], lc_cache := []\<rparr>"

definition WithEvict :: "('k, 'v) LruCache \<Rightarrow> ('k, 'v) LruCache" where
  "WithEvict l = l\<lparr>lc_onEvict := True\<rparr>"

definition WithUpdateAgeOnGet :: "('k, 'v) LruCache \<Rightarrow> ('k, 'v) LruCache" where
  "WithUpdateAgeOnGet l = l\<lparr>lc_updateAgeOnGet := True\<rparr>"

definition WithAge :: "int \<Rightarrow> ('k, 'v) LruCache \<Rightarrow> ('k, 'v) LruCache" where
  "WithAge maxAge l = l\<lparr>lc_maxAge := maxAge\<rparr>"

definition WithSize :: "int \<Rightarrow> ('k, 'v) LruCache \<Rightarrow> ('k, 'v) LruCache" where
  "WithSize maxSize l = l\<lparr>lc_maxSize := maxSize\<rparr>"

definition WithStale :: "bool \<Rightarrow> ('k, 'v) LruCache \<Rightarrow> ('k, 'v) LruCache" where
  "WithStale stale l = l\<lparr>lc_staleReturn := stale\<rparr>"

definition lru_New :: "(('k, 'v) LruCache \<Rightarrow> ('k, 'v) LruCache) list \<Rightarrow> ('k, 'v) LruCache" where
  "lru_New options =
     foldl (\<lambda>lc option. option lc)
       (Clear \<lparr>lc_maxAge = 0, lc_maxSize = 0, lc_cache = [], lc_lru = [], lc_next = 0,
          lc_updateAgeOnGet = False, lc_staleReturn = False, lc_onEvict = False, lc_evicted = []\<rparr>)
       options"

definition PushBack :: "('k, 'v) entry \<Rightarrow> ('k, 'v) LruCache \<Rightarrow> ('k, 'v) LruCache" where
  "PushBack e c = c\<lparr>lc_lru := lc_lru c @ [(lc_next c, e)], lc_cache := mset' (e_key e) (lc_next c) (lc_cache c),
     lc_next := Suc (lc_next c)\<rparr>"

definition deleteElement :: "nat \<times> ('k, 'v) entry \<Rightarrow> ('k, 'v) LruCache \<Rightarrow> ('k, 'v) LruCache" where
  "deleteElement le c =
     (let e = snd le;
          c1 = c\<lparr>lc_lru := list_Remove (fst le) (lc_lru c), lc_cache := mdel (e_key e) (lc_cache c)\<rparr>
      in if lc_onEvict c then c1\<lparr>lc_evicted := lc_evicted c @ [(e_key e, e_value e)]\<rparr> else c1)"

function delete_oldest :: "int \<Rightarrow> ('k, 'v) LruCache \<Rightarrow> ('k, 'v) LruCache" where
  "delete_oldest now c =
     (case lc_lru c of
        [] \<Rightarrow> c
      | le # _ \<Rightarrow> if e_expires (snd le) \<le> now then delete_oldest now (deleteElement le c) else c)"
  by pat_completeness auto
termination
proof (relation "measure (\<lambda>(now, c). length (lc_lru c))", goal_cases)
  case (2 now c le rest)
  then show ?case
    by (simp add: deleteElement_def list_Remove_def Let_def less_Suc_eq_le)
qed simp

declare delete_oldest.simps [simp del]

definition maybeDeleteOldest :: "int \<Rightarrow> ('k, 'v) LruCache \<Rightarrow> ('k, 'v) LruCache" where
  "maybeDeleteOldest now c =
     (if \<not> lc_staleReturn c \<and> lc_maxAge c > 0 then delete_oldest now c else c)"

definition element :: "'k \<Rightarrow> ('k, 'v) LruCache \<Rightarrow> (nat \<times> ('k, 'v) entry) option" where
  "element key c =
     (case mget (lc_cache c) key of None \<Rightarrow> None
      | Some i \<Rightarrow> (case map_of (lc_lru c) i of None \<Rightarrow> None | Some e \<Rightarrow> Some (i, e)))"

definition lru_get :: "int \<Rightarrow> 'k \<Rightarrow> ('k, 'v) LruCache \<Rightarrow> ('k, 'v) entry option \<times> ('k, 'v) LruCache" where
  "lru_get now key c =
     (case element key c of None \<Rightarrow> (None, c)
      | Some le \<Rightarrow>
          if \<not> lc_staleReturn c \<and> lc_maxAge c > 0 \<and> e_expires (snd le) \<le> now
          then (None, maybeDeleteOldest now (deleteElement le c))
          else
            let c1 = c\<lparr>lc_lru := list_MoveToBack (fst le) (lc_lru c)\<rparr>;
                el = (if lc_maxAge c > 0 \<and> lc_updateAgeOnGet c
                      then (snd le)\<lparr>e_expires := now + lc_maxAge c\<rparr> else snd le)
            in (Some el, c1\<lparr>lc_lru := list_assign (fst le) (\<lambda>_. el) (lc_lru c1)\<rparr>))"

definition setWithExpire :: "int \<Rightarrow> 'k \<Rightarrow> 'v \<Rightarrow> int \<Rightarrow> ('k, 'v) LruCache \<Rightarrow> ('k, 'v) LruCache" where
  "setWithExpire now key value expires c =
     maybeDeleteOldest now
       (case element key c of
          Some le \<Rightarrow>
            (let c1 = c\<lparr>lc_lru := list_MoveToBack (fst le) (lc_lru c)\<rparr>
             in c1\<lparr>lc_lru := list_assign (fst le) (\<lambda>e. e\<lparr>e_value := value, e_expires := expires\<rparr>) (lc_lru c1)\<rparr>)
        | None \<Rightarrow>
            (let c1 = PushBack \<lparr>e_key = key, e_value = value, e_expires = expires\<rparr> c in
             if lc_maxSize c1 > 0 \<and> int (length (lc_lru c1)) > lc_maxSize c1
             then deleteElement (hd (lc_lru c1)) c1 else c1))"

definition lru_set :: "int \<Rightarrow> 'k \<Rightarrow> 'v \<Rightarrow> ('k, 'v) LruCache \<Rightarrow> ('k, 'v) LruCache" where
  "lru_set now key value c =
     setWithExpire now key value (if lc_maxAge c > 0 then now + lc_maxAge c else 0) c"

definition lru_delete :: "'k \<Rightarrow> ('k, 'v) LruCache \<Rightarrow> ('k, 'v) LruCache" where
  "lru_delete key c = (case element key c of Some le \<Rightarrow> deleteElement le c | None \<Rightarrow> c)"

subsection \<open>The exported operations\<close>

definition lru_Get :: "int \<Rightarrow> 'k \<Rightarrow> ('k, 'v) LruCache \<Rightarrow> 'v option \<times> ('k, 'v) LruCache" where
  "lru_Get now key c = (case lru_get now key c of (el, c') \<Rightarrow> (map_option e_value el, c'))"

definition GetOrStore :: "int \<Rightarrow> 'k \<Rightarrow> 'v \<Rightarrow> ('k, 'v) LruCache \<Rightarrow> ('v \<times> bool) \<times> ('k, 'v) LruCache" where
  "GetOrStore now key constructed c =
     (case lru_get now key c of
        (None, c') \<Rightarrow> ((constructed, False), lru_set now key constructed c')
      | (Some el, c') \<Rightarrow> ((e_value el, True), c'))"

definition GetWithExpire :: "int \<Rightarrow> 'k \<Rightarrow> ('k, 'v) LruCache \<Rightarrow> ('v \<times> int) option \<times> ('k, 'v) LruCache" where
  "GetWithExpire now key c =
     (case lru_get now key c of (el, c') \<Rightarrow> (map_option (\<lambda>e. (e_value e, e_expires e)) el, c'))"

definition lru_Exist :: "'k \<Rightarrow> ('k, 'v) LruCache \<Rightarrow> bool" where
  "lru_Exist key c = (mget (lc_cache c) key \<noteq> None)"

definition lru_CloneTo :: "('k, 'v) LruCache \<Rightarrow> ('k, 'v) LruCache \<Rightarrow> ('k, 'v) LruCache" where
  "lru_CloneTo c n = foldl (\<lambda>n elm. PushBack elm n) (n\<lparr>lc_lru := [], lc_cache := []\<rparr>) (map snd (lc_lru c))"

definition Compute ::
  "int \<Rightarrow> 'v \<Rightarrow> 'k \<Rightarrow> ('v \<Rightarrow> bool \<Rightarrow> 'v \<times> bool) \<Rightarrow> ('k, 'v) LruCache \<Rightarrow> ('v \<times> bool) \<times> ('k, 'v) LruCache" where
  "Compute now zero key valueFn c =
     (case lru_get now key c of
        (el, c') \<Rightarrow>
          let actual = (case el of Some e \<Rightarrow> e_value e | None \<Rightarrow> zero); ok = (el \<noteq> None) in
          (case valueFn actual ok of
             (newValue, del) \<Rightarrow>
               if del then ((zero, False), if ok then lru_delete key c' else c')
               else ((newValue, True), lru_set now key newValue c')))"

subsection \<open>The specification: a list of entries, least recently used first\<close>

record lru_conf =
  cf_maxAge :: int
  cf_maxSize :: int
  cf_updateAge :: bool
  cf_stale :: bool

definition conf :: "('k, 'v) LruCache \<Rightarrow> lru_conf" where
  "conf c = \<lparr>cf_maxAge = lc_maxAge c, cf_maxSize = lc_maxSize c, cf_updateAge = lc_updateAgeOnGet c,
     cf_stale = lc_staleReturn c\<rparr>"

definition entries :: "('k, 'v) LruCache \<Rightarrow> ('k, 'v) entry list" where
  "entries c = map snd (lc_lru c)"

definition ages :: "lru_conf \<Rightarrow> bool" where
  "ages f \<longleftrightarrow> \<not> cf_stale f \<and> cf_maxAge f > 0"

definition s_lookup :: "'k \<Rightarrow> ('k, 'v) entry list \<Rightarrow> ('k, 'v) entry option" where
  "s_lookup k es = find (\<lambda>e. e_key e = k) es"

definition s_drop :: "'k \<Rightarrow> ('k, 'v) entry list \<Rightarrow> ('k, 'v) entry list" where
  "s_drop k es = filter (\<lambda>e. e_key e \<noteq> k) es"

definition s_purge :: "lru_conf \<Rightarrow> int \<Rightarrow> ('k, 'v) entry list \<Rightarrow> ('k, 'v) entry list" where
  "s_purge f now es = (if ages f then dropWhile (\<lambda>e. e_expires e \<le> now) es else es)"

definition s_get ::
  "lru_conf \<Rightarrow> int \<Rightarrow> 'k \<Rightarrow> ('k, 'v) entry list \<Rightarrow> ('k, 'v) entry option \<times> ('k, 'v) entry list" where
  "s_get f now k es =
     (case s_lookup k es of None \<Rightarrow> (None, es)
      | Some e \<Rightarrow>
          if ages f \<and> e_expires e \<le> now then (None, s_purge f now (s_drop k es))
          else
            let e' = (if cf_maxAge f > 0 \<and> cf_updateAge f then e\<lparr>e_expires := now + cf_maxAge f\<rparr> else e)
            in (Some e', s_drop k es @ [e']))"

definition s_put :: "lru_conf \<Rightarrow> int \<Rightarrow> 'k \<Rightarrow> 'v \<Rightarrow> int \<Rightarrow> ('k, 'v) entry list \<Rightarrow> ('k, 'v) entry list" where
  "s_put f now k v expires es =
     (let es' = s_drop k es @ [\<lparr>e_key = k, e_value = v, e_expires = expires\<rparr>] in
      s_purge f now
        (if s_lookup k es = None \<and> cf_maxSize f > 0 \<and> int (length es') > cf_maxSize f then tl es' else es'))"

definition s_set :: "lru_conf \<Rightarrow> int \<Rightarrow> 'k \<Rightarrow> 'v \<Rightarrow> ('k, 'v) entry list \<Rightarrow> ('k, 'v) entry list" where
  "s_set f now k v es = s_put f now k v (if cf_maxAge f > 0 then now + cf_maxAge f else 0) es"

subsection \<open>The index and the list agree\<close>

definition lru_index :: "(nat \<times> ('k, 'v) entry) list \<Rightarrow> ('k \<times> nat) list" where
  "lru_index l = map (\<lambda>(i, e). (e_key e, i)) l"

definition lru_ok :: "('k, 'v) LruCache \<Rightarrow> bool" where
  "lru_ok c \<longleftrightarrow> distinct (map fst (lc_lru c)) \<and> distinct (map e_key (entries c)) \<and>
     mget (lc_cache c) = map_of (lru_index (lc_lru c)) \<and> (\<forall>i \<in> fst ` set (lc_lru c). i < lc_next c)"

lemma lru_index_keys: "map fst (lru_index l) = map e_key (map snd l)"
  by (simp add: lru_index_def case_prod_beta comp_def)

lemma index_elem:
  assumes "distinct (map fst l)" "map_of (lru_index l) k = Some i"
  shows "\<exists>e. map_of l i = Some e \<and> e_key e = k \<and> s_lookup k (map snd l) = Some e"
  using assms
proof (induction l)
  case (Cons x l)
  obtain j e where x: "x = (j, e)" by (cases x)
  show ?case
  proof (cases "e_key e = k")
    case True
    with Cons.prems show ?thesis by (simp add: x lru_index_def s_lookup_def)
  next
    case False
    with Cons.prems have "map_of (lru_index l) k = Some i" by (simp add: x lru_index_def)
    with Cons obtain e' where e': "map_of l i = Some e'" "e_key e' = k" "s_lookup k (map snd l) = Some e'"
      by auto
    then have "i \<in> fst ` set l" by (metis map_of_eq_None_iff option.distinct(1))
    with Cons.prems(1) have "i \<noteq> j" by (auto simp: x)
    with e' False show ?thesis by (simp add: x s_lookup_def)
  qed
qed (simp add: lru_index_def)

lemma index_none: "map_of (lru_index l) k = None \<longleftrightarrow> s_lookup k (map snd l) = None"
  by (force simp: map_of_eq_None_iff s_lookup_def find_None_iff lru_index_def)

lemma element_Some:
  assumes "lru_ok c" "element k c = Some le"
  shows "le \<in> set (lc_lru c)" "e_key (snd le) = k" "s_lookup k (entries c) = Some (snd le)"
    "map_of (lc_lru c) (fst le) = Some (snd le)"
proof -
  obtain i where i: "map_of (lru_index (lc_lru c)) k = Some i"
    using assms by (auto simp: element_def lru_ok_def split: option.splits)
  from index_elem [OF _ i] assms(1) obtain e where e: "map_of (lc_lru c) i = Some e" "e_key e = k"
      "s_lookup k (entries c) = Some e"
    by (auto simp: lru_ok_def entries_def)
  with i assms have "le = (i, e)" by (auto simp: element_def lru_ok_def)
  with e show "le \<in> set (lc_lru c)" "e_key (snd le) = k" "s_lookup k (entries c) = Some (snd le)"
    "map_of (lc_lru c) (fst le) = Some (snd le)"
    by (auto dest: map_of_SomeD)
qed

lemma element_None:
  assumes "lru_ok c"
  shows "element k c = None \<longleftrightarrow> s_lookup k (entries c) = None"
proof
  assume none: "element k c = None"
  show "s_lookup k (entries c) = None"
  proof (cases "map_of (lru_index (lc_lru c)) k")
    case None
    then show ?thesis by (simp add: index_none entries_def)
  next
    case (Some i)
    with assms obtain e where "map_of (lc_lru c) i = Some e"
      using index_elem [OF _ Some] by (auto simp: lru_ok_def)
    with Some assms none show ?thesis by (simp add: element_def lru_ok_def)
  qed
next
  assume "s_lookup k (entries c) = None"
  with assms show "element k c = None"
    by (simp add: element_def lru_ok_def index_none [symmetric] entries_def)
qed

lemma lru_Exist_spec: "lru_ok c \<Longrightarrow> lru_Exist k c \<longleftrightarrow> s_lookup k (entries c) \<noteq> None"
  by (simp add: lru_Exist_def lru_ok_def index_none [symmetric] entries_def del: not_None_eq)

subsection \<open>Deleting, touching and adding an element\<close>

lemma same_element:
  assumes "distinct (map fst l)" "distinct (map e_key (map snd l))" "(i, e) \<in> set l" "x \<in> set l"
  shows "fst x = i \<longleftrightarrow> e_key (snd x) = e_key e"
proof -
  have "inj_on fst (set l)" "inj_on (\<lambda>x. e_key (snd x)) (set l)"
    using assms by (simp_all add: distinct_map comp_def)
  from inj_on_eq_iff [OF this(1) assms(4,3)] inj_on_eq_iff [OF this(2) assms(4,3)]
  show ?thesis by simp
qed

lemma remove_entries:
  assumes "distinct (map fst l)" "distinct (map e_key (map snd l))" "(i, e) \<in> set l"
  shows "map snd (list_Remove i l) = s_drop (e_key e) (map snd l)"
  using same_element [OF assms]
  by (simp add: list_Remove_def s_drop_def filter_map comp_def cong: filter_cong)

lemma remove_index:
  fixes l :: "(nat \<times> ('b, 'v) entry) list"
  assumes "distinct (map fst l)" "distinct (map e_key (map snd l))" "(i, e) \<in> set l"
  shows "map_of (lru_index (list_Remove i l)) = (map_of (lru_index l))(e_key e := None)"
proof -
  have "lru_index (list_Remove i l) = filter (\<lambda>x. fst x \<noteq> e_key e) (lru_index l)"
    using same_element [OF assms]
    by (simp add: list_Remove_def lru_index_def filter_map comp_def case_prod_beta cong: filter_cong)
  moreover have "map_of (filter (\<lambda>x. fst x \<noteq> k) m) = (map_of m)(k := None)" for k and m :: "('b \<times> nat) list"
    by (induction m) (auto simp: fun_eq_iff)
  ultimately show ?thesis by simp
qed

lemma conf_simps [simp]:
  "cf_maxAge (conf c) = lc_maxAge c" "cf_maxSize (conf c) = lc_maxSize c"
  "cf_updateAge (conf c) = lc_updateAgeOnGet c" "cf_stale (conf c) = lc_staleReturn c"
  "conf (c\<lparr>lc_lru := l\<rparr>) = conf c" "conf (PushBack e c) = conf c" "conf (deleteElement le c) = conf c"
  by (simp_all add: conf_def PushBack_def deleteElement_def Let_def)

lemma deleteElement_ok:
  assumes ok: "lru_ok c" and le: "le \<in> set (lc_lru c)"
  shows "lru_ok (deleteElement le c)" "entries (deleteElement le c) = s_drop (e_key (snd le)) (entries c)"
proof -
  obtain i e where ie: "le = (i, e)" by (cases le)
  have d: "distinct (map fst (lc_lru c))" "distinct (map e_key (map snd (lc_lru c)))" "(i, e) \<in> set (lc_lru c)"
    using ok le by (simp_all add: lru_ok_def entries_def ie)
  have l: "lc_lru (deleteElement le c) = list_Remove i (lc_lru c)"
    "lc_cache (deleteElement le c) = mdel (e_key e) (lc_cache c)" "lc_next (deleteElement le c) = lc_next c"
    by (simp_all add: deleteElement_def Let_def ie)
  show es: "entries (deleteElement le c) = s_drop (e_key (snd le)) (entries c)"
    by (simp only: entries_def l remove_entries [OF d]) (simp add: ie)
  have "distinct (map e_key (s_drop k es))" if "distinct (map e_key es)" for k es
    using that by (simp add: s_drop_def distinct_map_filter)
  moreover have "distinct (map fst (list_Remove i (lc_lru c)))"
    using d(1) by (simp add: list_Remove_def distinct_map_filter)
  ultimately show "lru_ok (deleteElement le c)"
    using ok by (auto simp: lru_ok_def es l remove_index [OF d] delete_conv') (auto simp: list_Remove_def)
qed

lemma s_lookup_Some: "s_lookup k es = Some e \<Longrightarrow> e \<in> set es \<and> e_key e = k"
  by (auto simp: s_lookup_def find_Some_iff)

lemma s_lookup_None: "s_lookup k es = None \<longleftrightarrow> k \<notin> e_key ` set es"
  by (auto simp: s_lookup_def find_None_iff)

lemma s_drop_absent: "s_lookup k es = None \<Longrightarrow> s_drop k es = es"
  by (auto simp: s_lookup_None s_drop_def filter_id_conv)

lemma s_drop_hd: "distinct (map e_key (e # es)) \<Longrightarrow> s_drop (e_key e) (e # es) = es"
  using s_drop_absent [of "e_key e" es] by (simp add: s_drop_def s_lookup_None)

lemma PushBack_ok:
  assumes "lru_ok c" "s_lookup (e_key e) (entries c) = None"
  shows "lru_ok (PushBack e c)" "entries (PushBack e c) = entries c @ [e]"
proof -
  show es: "entries (PushBack e c) = entries c @ [e]" by (simp add: PushBack_def entries_def)
  have new: "e_key e \<notin> fst ` set (lru_index (lc_lru c))"
    using assms(2) by (force simp: s_lookup_None entries_def lru_index_def)
  then have "map_of (lru_index (lc_lru c) @ [(e_key e, lc_next c)]) =
      (map_of (lru_index (lc_lru c)))(e_key e \<mapsto> lc_next c)"
    by (auto simp: fun_eq_iff map_add_def split: option.splits) (metis map_of_eq_None_iff option.distinct(1))
  moreover have "lru_index (lc_lru c @ [(lc_next c, e)]) = lru_index (lc_lru c) @ [(e_key e, lc_next c)]"
    by (simp add: lru_index_def)
  moreover have "lc_next c \<notin> fst ` set (lc_lru c)" using assms(1) by (auto simp: lru_ok_def)
  moreover have "e_key e \<notin> e_key ` set (entries c)" using assms(2) by (simp add: s_lookup_None)
  ultimately show "lru_ok (PushBack e c)"
    using assms(1) unfolding lru_ok_def es by (auto simp: PushBack_def update_conv' less_Suc_eq)
qed

text \<open>Moving an element to the back and changing its value in place.\<close>

definition lru_touch :: "nat \<Rightarrow> (('k, 'v) entry \<Rightarrow> ('k, 'v) entry) \<Rightarrow> ('k, 'v) LruCache \<Rightarrow> ('k, 'v) LruCache" where
  "lru_touch i f c = c\<lparr>lc_lru := list_assign i f (list_MoveToBack i (lc_lru c))\<rparr>"

lemma lru_touch_ok:
  assumes ok: "lru_ok c" and el: "element k c = Some (i, e)" and f: "e_key (f e) = k"
  shows "lru_ok (lru_touch i f c)" "entries (lru_touch i f c) = s_drop k (entries c) @ [f e]"
proof -
  note le = element_Some [OF ok el, simplified]
  have d: "distinct (map fst (lc_lru c))" "distinct (map e_key (map snd (lc_lru c)))" "(i, e) \<in> set (lc_lru c)"
    using ok le by (simp_all add: lru_ok_def entries_def)
  let ?r = "list_Remove i (lc_lru c)"
  have keep: "list_assign i f ?r = ?r"
    by (induction "lc_lru c") (auto simp: list_assign_def list_Remove_def intro!: map_idI)
  have l: "lc_lru (lru_touch i f c) = ?r @ [(i, f e)]"
    using keep le by (simp add: lru_touch_def list_MoveToBack_def) (simp add: list_assign_def)
  show es: "entries (lru_touch i f c) = s_drop k (entries c) @ [f e]"
    by (simp add: entries_def l remove_entries [OF d] le)
  have idx: "map_of (lru_index (?r @ [(i, f e)])) = map_of (lru_index (lc_lru c))"
  proof -
    have "map_of (lru_index (lc_lru c)) k = Some i"
      using ok el by (auto simp: element_def lru_ok_def split: option.splits)
    moreover have "lru_index (?r @ [(i, f e)]) = lru_index ?r @ [(k, i)]" by (simp add: lru_index_def f)
    ultimately show ?thesis
      using remove_index [OF d] by (auto simp: le map_add_def fun_eq_iff split: option.splits)
  qed
  have "distinct (map fst (?r @ [(i, f e)]))"
    using d(1) by (auto simp: list_Remove_def distinct_map_filter)
  moreover have "distinct (map e_key (s_drop k (entries c) @ [f e]))"
    using d(2) by (auto simp: s_drop_def distinct_map_filter entries_def f)
  moreover have "\<forall>j \<in> fst ` set (?r @ [(i, f e)]). j < lc_next c"
    using ok d(3) by (auto simp: lru_ok_def list_Remove_def)
  ultimately show "lru_ok (lru_touch i f c)"
    using ok unfolding lru_ok_def es l idx by (simp add: lru_touch_def)
qed

subsection \<open>The operations refine the specification\<close>

lemma delete_oldest_ok:
  assumes "lru_ok c"
  shows "lru_ok (delete_oldest now c) \<and> conf (delete_oldest now c) = conf c \<and>
    entries (delete_oldest now c) = dropWhile (\<lambda>e. e_expires e \<le> now) (entries c)"
  using assms
proof (induction now c rule: delete_oldest.induct)
  case (1 now c)
  show ?case
  proof (cases "lc_lru c")
    case Nil
    then show ?thesis using 1 by (simp add: delete_oldest.simps [of now c] entries_def)
  next
    case (Cons le l)
    have "distinct (map e_key (entries c))" using 1(2) by (simp add: lru_ok_def)
    then have "s_drop (e_key (snd le)) (entries c) = map snd l"
      using s_drop_hd [of "snd le" "map snd l"] by (simp add: entries_def Cons)
    with deleteElement_ok [OF 1(2), of le] Cons have
      "lru_ok (deleteElement le c)" "entries (deleteElement le c) = map snd l" by auto
    with 1 Cons show ?thesis by (simp add: delete_oldest.simps [of now c] entries_def)
  qed
qed

lemma maybeDeleteOldest_ok:
  assumes "lru_ok c"
  shows "lru_ok (maybeDeleteOldest now c)" "conf (maybeDeleteOldest now c) = conf c"
    "entries (maybeDeleteOldest now c) = s_purge (conf c) now (entries c)"
  using delete_oldest_ok [OF assms, of now] assms
  by (auto simp: maybeDeleteOldest_def s_purge_def ages_def)

lemma lru_get_ok:
  assumes ok: "lru_ok c"
  shows "lru_ok (snd (lru_get now k c))" "conf (snd (lru_get now k c)) = conf c"
    "(fst (lru_get now k c), entries (snd (lru_get now k c))) = s_get (conf c) now k (entries c)"
proof -
  have "lru_ok (snd (lru_get now k c)) \<and> conf (snd (lru_get now k c)) = conf c \<and>
      (fst (lru_get now k c), entries (snd (lru_get now k c))) = s_get (conf c) now k (entries c)"
  proof (cases "element k c")
    case None
    with element_None [OF ok] have "s_lookup k (entries c) = None" by blast
    with None ok show ?thesis by (simp add: lru_get_def s_get_def)
  next
    case (Some le)
    obtain i e where le: "le = (i, e)" by (cases le)
    note el = element_Some [OF ok Some, unfolded le, simplified]
    note del = deleteElement_ok [OF ok el(1), simplified]
    note del' = maybeDeleteOldest_ok [OF del(1), of now]
    have f: "e_key (if lc_maxAge c > 0 \<and> lc_updateAgeOnGet c then e\<lparr>e_expires := now + lc_maxAge c\<rparr> else e) = k"
      by (simp add: el)
    note t = lru_touch_ok [OF ok Some [unfolded le], of "\<lambda>_. _", OF f]
    show ?thesis
      using del' t by (auto simp: lru_get_def s_get_def Some le el ages_def del lru_touch_def Let_def)
  qed
  then show "lru_ok (snd (lru_get now k c))" "conf (snd (lru_get now k c)) = conf c"
    "(fst (lru_get now k c), entries (snd (lru_get now k c))) = s_get (conf c) now k (entries c)"
    by auto
qed

lemma push_ok:
  fixes c :: "('k, 'v) LruCache" and v :: 'v and x :: int
  assumes ok: "lru_ok c" and new: "element k c = None"
  defines "e \<equiv> \<lparr>e_key = k, e_value = v, e_expires = x\<rparr>"
  defines "c1 \<equiv> PushBack e c"
  defines "c2 \<equiv> (if lc_maxSize c1 > 0 \<and> int (length (lc_lru c1)) > lc_maxSize c1
    then deleteElement (hd (lc_lru c1)) c1 else c1)"
  shows "lru_ok c2" "conf c2 = conf c"
    "entries c2 = (let es = entries c @ [e] in
       if lc_maxSize c > 0 \<and> int (length es) > lc_maxSize c then tl es else es)"
proof -
  have absent: "s_lookup (e_key e) (entries c) = None"
    using new element_None [OF ok] by (simp add: e_def)
  note p = PushBack_ok [OF ok absent, folded c1_def]
  have len: "length (lc_lru c1) = length (entries c @ [e])" "lc_maxSize c1 = lc_maxSize c"
    by (simp_all add: c1_def PushBack_def entries_def)
  have ne: "hd (lc_lru c1) \<in> set (lc_lru c1)" using len(1) by (auto intro: hd_in_set)
  have "entries c1 = snd (hd (lc_lru c1)) # tl (entries c1)"
    using len(1) by (cases "lc_lru c1") (auto simp: entries_def)
  moreover have "distinct (map e_key (entries c1))" using p(1) by (simp add: lru_ok_def)
  ultimately have "s_drop (e_key (snd (hd (lc_lru c1)))) (entries c1) = tl (entries c1)"
    using s_drop_hd by metis
  with deleteElement_ok [OF p(1) ne] p len show "lru_ok c2" "conf c2 = conf c"
    "entries c2 = (let es = entries c @ [e] in
       if lc_maxSize c > 0 \<and> int (length es) > lc_maxSize c then tl es else es)"
    by (auto simp: c2_def Let_def c1_def)
qed

lemma setWithExpire_ok:
  assumes ok: "lru_ok c"
  shows "lru_ok (setWithExpire now k v x c)" "conf (setWithExpire now k v x c) = conf c"
    "entries (setWithExpire now k v x c) = s_put (conf c) now k v x (entries c)"
proof -
  have "lru_ok (setWithExpire now k v x c) \<and> conf (setWithExpire now k v x c) = conf c \<and>
    entries (setWithExpire now k v x c) = s_put (conf c) now k v x (entries c)"
  proof (cases "element k c")
    case None
    note p = push_ok [OF ok None, of v x]
    have absent: "s_lookup k (entries c) = None" using None element_None [OF ok] by blast
    show ?thesis
      using maybeDeleteOldest_ok [OF p(1), of now] p(2,3) absent s_drop_absent [OF absent]
      by (simp add: setWithExpire_def None s_put_def Let_def)
  next
    case (Some le)
    obtain i e where le: "le = (i, e)" by (cases le)
    note el = element_Some [OF ok Some, unfolded le, simplified]
    have e': "e\<lparr>e_value := v, e_expires := x\<rparr> = \<lparr>e_key = k, e_value = v, e_expires = x\<rparr>"
      using el(2) by simp
    note t = lru_touch_ok [OF ok Some [unfolded le], of "\<lambda>e. e\<lparr>e_value := v, e_expires := x\<rparr>", simplified e', simplified]
    have "setWithExpire now k v x c = maybeDeleteOldest now (lru_touch i (\<lambda>e. e\<lparr>e_value := v, e_expires := x\<rparr>) c)"
      by (simp add: setWithExpire_def Some le lru_touch_def)
    with maybeDeleteOldest_ok [OF t(1), of now] t el show ?thesis
      by (simp add: s_put_def Let_def) (simp add: lru_touch_def)
  qed
  then show "lru_ok (setWithExpire now k v x c)" "conf (setWithExpire now k v x c) = conf c"
    "entries (setWithExpire now k v x c) = s_put (conf c) now k v x (entries c)" by auto
qed

lemma lru_set_ok:
  assumes "lru_ok c"
  shows "lru_ok (lru_set now k v c)" "conf (lru_set now k v c) = conf c"
    "entries (lru_set now k v c) = s_set (conf c) now k v (entries c)"
  using setWithExpire_ok [OF assms] by (simp_all add: lru_set_def s_set_def)

lemma lru_delete_ok:
  assumes ok: "lru_ok c"
  shows "lru_ok (lru_delete k c)" "conf (lru_delete k c) = conf c"
    "entries (lru_delete k c) = s_drop k (entries c)"
proof -
  have "lru_ok (lru_delete k c) \<and> conf (lru_delete k c) = conf c \<and> entries (lru_delete k c) = s_drop k (entries c)"
  proof (cases "element k c")
    case None
    with element_None [OF ok] have "s_lookup k (entries c) = None" by blast
    with None ok show ?thesis by (simp add: lru_delete_def s_drop_absent)
  next
    case (Some le)
    show ?thesis
      using deleteElement_ok [OF ok element_Some(1) [OF ok Some]] element_Some(2) [OF ok Some]
      by (simp add: lru_delete_def Some)
  qed
  then show "lru_ok (lru_delete k c)" "conf (lru_delete k c) = conf c"
    "entries (lru_delete k c) = s_drop k (entries c)" by auto
qed

lemma push_all_ok:
  assumes "lru_ok n" "distinct (map e_key es)" "e_key ` set es \<inter> e_key ` set (entries n) = {}"
  shows "lru_ok (foldl (\<lambda>n elm. PushBack elm n) n es) \<and> conf (foldl (\<lambda>n elm. PushBack elm n) n es) = conf n \<and>
    entries (foldl (\<lambda>n elm. PushBack elm n) n es) = entries n @ es"
  using assms
proof (induction es arbitrary: n)
  case (Cons e es)
  have "s_lookup (e_key e) (entries n) = None" using Cons.prems(3) by (auto simp: s_lookup_None)
  note p = PushBack_ok [OF Cons.prems(1) this]
  with Cons.IH [OF p(1)] Cons.prems(2,3) show ?case by auto
qed simp

lemma lru_ok_empty: "lru_ok (c\<lparr>lc_lru := [], lc_cache := []\<rparr>)" "entries (c\<lparr>lc_lru := [], lc_cache := []\<rparr>) = []"
  "conf (c\<lparr>lc_lru := [], lc_cache := []\<rparr>) = conf c"
  by (simp_all add: lru_ok_def entries_def lru_index_def conf_def fun_eq_iff)

lemma lru_CloneTo_ok:
  assumes "lru_ok c"
  shows "lru_ok (lru_CloneTo c n)" "conf (lru_CloneTo c n) = conf n" "entries (lru_CloneTo c n) = entries c"
  using push_all_ok [of "n\<lparr>lc_lru := [], lc_cache := []\<rparr>" "map snd (lc_lru c)"] assms
  by (simp_all add: lru_CloneTo_def lru_ok_empty entries_def [symmetric] lru_ok_def [of c])

subsection \<open>Every operation, and the size of the cache\<close>

datatype ('k, 'v) lru_op =
    OpGet 'k
  | OpGetOrStore 'k 'v
  | OpGetWithExpire 'k
  | OpSet 'k 'v
  | OpSetWithExpire 'k 'v int
  | OpDelete 'k
  | OpCompute 'v 'k "'v \<Rightarrow> bool \<Rightarrow> 'v \<times> bool"
  | OpClear

text \<open>The answer of an operation is the value with its expiry, where it reports one.\<close>

fun lru_do :: "int \<Rightarrow> ('k, 'v) lru_op \<Rightarrow> ('k, 'v) LruCache \<Rightarrow> ('v \<times> int) option \<times> ('k, 'v) LruCache" where
  "lru_do now (OpGet k) c = (case lru_Get now k c of (r, c') \<Rightarrow> (map_option (\<lambda>v. (v, 0)) r, c'))"
| "lru_do now (OpGetOrStore k v) c = (case GetOrStore now k v c of ((r, _), c') \<Rightarrow> (Some (r, 0), c'))"
| "lru_do now (OpGetWithExpire k) c = GetWithExpire now k c"
| "lru_do now (OpSet k v) c = (None, lru_set now k v c)"
| "lru_do now (OpSetWithExpire k v x) c = (None, setWithExpire now k v x c)"
| "lru_do now (OpDelete k) c = (None, lru_delete k c)"
| "lru_do now (OpCompute z k f) c =
     (case Compute now z k f c of ((r, ok), c') \<Rightarrow> (if ok then Some (r, 0) else None, c'))"
| "lru_do now OpClear c = (None, Clear c)"

fun s_do :: "lru_conf \<Rightarrow> int \<Rightarrow> ('k, 'v) lru_op \<Rightarrow> ('k, 'v) entry list \<Rightarrow> ('v \<times> int) option \<times> ('k, 'v) entry list" where
  "s_do f now (OpGet k) es = (case s_get f now k es of (r, es') \<Rightarrow> (map_option (\<lambda>e. (e_value e, 0)) r, es'))"
| "s_do f now (OpGetOrStore k v) es =
     (case s_get f now k es of
        (None, es') \<Rightarrow> (Some (v, 0), s_set f now k v es')
      | (Some e, es') \<Rightarrow> (Some (e_value e, 0), es'))"
| "s_do f now (OpGetWithExpire k) es =
     (case s_get f now k es of (r, es') \<Rightarrow> (map_option (\<lambda>e. (e_value e, e_expires e)) r, es'))"
| "s_do f now (OpSet k v) es = (None, s_set f now k v es)"
| "s_do f now (OpSetWithExpire k v x) es = (None, s_put f now k v x es)"
| "s_do f now (OpDelete k) es = (None, s_drop k es)"
| "s_do f now (OpCompute z k g) es =
     (case s_get f now k es of
        (r, es') \<Rightarrow>
          (case g (case r of None \<Rightarrow> z | Some e \<Rightarrow> e_value e) (r \<noteq> None) of
             (v, True) \<Rightarrow> (None, s_drop k es')
           | (v, False) \<Rightarrow> (Some (v, 0), s_set f now k v es')))"
| "s_do f now OpClear es = (None, [])"

lemma Clear_ok: "lru_ok (Clear c)" "conf (Clear c) = conf c" "entries (Clear c) = []"
  by (simp_all add: Clear_def lru_ok_empty)

lemma s_get_None_absent:
  assumes "s_get f now k es = (None, es')"
  shows "s_lookup k es' = None"
proof (cases "s_lookup k es")
  case None
  with assms show ?thesis by (simp add: s_get_def)
next
  case (Some e)
  with assms have "es' = s_purge f now (s_drop k es)" by (auto simp: s_get_def Let_def split: if_splits)
  moreover have "set (s_purge f now xs) \<subseteq> set xs" for xs :: "('a, 'b) entry list"
    by (auto simp: s_purge_def dest: set_dropWhileD)
  ultimately show ?thesis by (fastforce simp: s_lookup_None s_drop_def)
qed

lemma lru_do_ok:
  fixes c :: "('k, 'v) LruCache"
  assumes ok: "lru_ok c"
  shows "lru_ok (snd (lru_do now opn c)) \<and> conf (snd (lru_do now opn c)) = conf c \<and>
    (fst (lru_do now opn c), entries (snd (lru_do now opn c))) = s_do (conf c) now opn (entries c)"
proof -
  have g: "lru_ok c'" "conf c' = conf c" "s_get (conf c) now k (entries c) = (r, entries c')"
    if "lru_get now k c = (r, c')" for k r c'
    using lru_get_ok [OF ok, of now k] by (simp_all add: that)
  show ?thesis
  proof (cases opn)
    case (OpGet k)
    then show ?thesis using g by (auto simp: lru_Get_def option.map_comp comp_def split: prod.splits)
  next
    case (OpGetOrStore k v)
    then show ?thesis
      using g [of k] by (auto simp: GetOrStore_def lru_set_ok split: prod.splits option.splits)
  next
    case (OpGetWithExpire k)
    then show ?thesis using g by (auto simp: GetWithExpire_def split: prod.splits)
  next
    case (OpCompute z k f)
    obtain r c' where r: "lru_get now k c = (r, c')" by force
    obtain v d where v: "f (case r of None \<Rightarrow> z | Some e \<Rightarrow> e_value e) (r \<noteq> None) = (v, d)" by force
    have "s_drop k (entries c') = entries c'" if "r = None"
      using g(3) [OF r] that s_get_None_absent s_drop_absent by metis
    with g [OF r] show ?thesis
      by (cases d; cases r) (use OpCompute r v in \<open>auto simp: Compute_def lru_set_ok lru_delete_ok\<close>)
  qed (use ok in \<open>simp_all add: lru_set_ok setWithExpire_ok lru_delete_ok Clear_ok\<close>)
qed

lemma s_purge_length: "length (s_purge f now es) \<le> length es"
  by (simp add: s_purge_def length_dropWhile_le)

lemma s_drop_length: "length (s_drop k es) \<le> length es"
  by (simp add: s_drop_def)

lemma s_drop_shorter: "s_lookup k es \<noteq> None \<Longrightarrow> length (s_drop k es) < length es"
  by (auto simp: s_lookup_None s_drop_def length_filter_less)

lemma s_get_length: "length (snd (s_get f now k es)) \<le> length es"
proof (cases "s_lookup k es")
  case (Some e)
  with s_drop_shorter [of k es] s_purge_length [of f now "s_drop k es"] show ?thesis
    by (auto simp: s_get_def Let_def)
qed (simp add: s_get_def)

lemma s_put_length:
  assumes "cf_maxSize f > 0" "int (length es) \<le> cf_maxSize f"
  shows "int (length (s_put f now k v x es)) \<le> cf_maxSize f"
proof (cases "s_lookup k es")
  case None
  with assms s_drop_length [of k es] show ?thesis
    by (auto simp: s_put_def Let_def intro!: order.trans [OF iffD2 [OF of_nat_le_iff s_purge_length]])
next
  case (Some e)
  with assms s_drop_shorter [of k es] show ?thesis
    by (auto simp: s_put_def Let_def intro!: order.trans [OF iffD2 [OF of_nat_le_iff s_purge_length]])
qed

lemma s_do_length:
  assumes size: "cf_maxSize f > 0" "int (length es) \<le> cf_maxSize f"
  shows "int (length (snd (s_do f now opn es))) \<le> cf_maxSize f"
proof -
  have g: "int (length es') \<le> cf_maxSize f" if "s_get f now k es = (r, es')" for k r es'
    using s_get_length [of f now k es] size(2) by (simp add: that)
  have d: "int (length (s_drop k xs)) \<le> cf_maxSize f" if "int (length xs) \<le> cf_maxSize f" for k xs
    using s_drop_length [of k xs] that by linarith
  note p = s_put_length [OF size(1)]
  show ?thesis
    by (cases opn) (use g d p size in \<open>auto simp: s_set_def intro!: d p intro: g
        split: prod.splits option.splits bool.splits\<close>)
qed

lemma lru_size_kept:
  assumes "lru_ok c" "lc_maxSize c > 0" "int (length (lc_lru c)) \<le> lc_maxSize c"
  shows "int (length (lc_lru (snd (lru_do now opn c)))) \<le> lc_maxSize c"
proof -
  have "length (lc_lru c') = length (entries c')" for c' :: "('a, 'b) LruCache" by (simp add: entries_def)
  with s_do_length [of "conf c" "entries c" now opn] lru_do_ok [OF assms(1), of now opn] assms(2,3)
  show ?thesis by (metis conf_simps(2) snd_conv)
qed

subsection \<open>Histories of a cache\<close>

fun lru_run :: "(int \<times> ('k, 'v) lru_op) list \<Rightarrow> ('k, 'v) LruCache \<Rightarrow> ('v \<times> int) option list \<times> ('k, 'v) LruCache" where
  "lru_run [] c = ([], c)"
| "lru_run ((now, opn) # h) c =
     (let (r, c') = lru_do now opn c; (rs, c'') = lru_run h c' in (r # rs, c''))"

fun s_run :: "lru_conf \<Rightarrow> (int \<times> ('k, 'v) lru_op) list \<Rightarrow> ('k, 'v) entry list \<Rightarrow>
    ('v \<times> int) option list \<times> ('k, 'v) entry list" where
  "s_run f [] es = ([], es)"
| "s_run f ((now, opn) # h) es =
     (let (r, es') = s_do f now opn es; (rs, es'') = s_run f h es' in (r # rs, es''))"

lemma lru_run_ok:
  assumes "lru_ok c"
  shows "lru_ok (snd (lru_run h c)) \<and> conf (snd (lru_run h c)) = conf c \<and>
    s_run (conf c) h (entries c) = (fst (lru_run h c), entries (snd (lru_run h c)))"
  using assms
proof (induction h arbitrary: c)
  case (Cons x h)
  obtain now opn where x: "x = (now, opn)" by (cases x)
  note one = lru_do_ok [OF Cons.prems, of now opn]
  with Cons.IH [of "snd (lru_do now opn c)"] show ?case
    by (auto simp: x Let_def case_prod_beta) (metis fst_conv snd_conv)+
qed simp

lemma lru_run_size:
  assumes "lru_ok c" "lc_maxSize c > 0" "int (length (lc_lru c)) \<le> lc_maxSize c"
  shows "int (length (lc_lru (snd (lru_run h c)))) \<le> lc_maxSize c"
  using assms
proof (induction h arbitrary: c)
  case (Cons x h)
  obtain now opn where x: "x = (now, opn)" by (cases x)
  let ?c = "snd (lru_do now opn c)"
  have "lru_ok ?c" "lc_maxSize ?c = lc_maxSize c"
    using lru_do_ok [OF Cons.prems(1), of now opn] by (auto simp: conf_def)
  with Cons.IH [of ?c] lru_size_kept [OF Cons.prems, of now opn] Cons.prems(2) show ?case
    by (simp add: x Let_def case_prod_beta)
qed simp

definition new_cache :: "int \<Rightarrow> int \<Rightarrow> bool \<Rightarrow> bool \<Rightarrow> ('k, 'v) LruCache" where
  "new_cache n age stale upd =
     lru_New ([WithSize n, WithAge age, WithStale stale] @ (if upd then [WithUpdateAgeOnGet] else []))"

lemma new_cache_ok: "lru_ok (new_cache n age stale upd)" "entries (new_cache n age stale upd) = []"
  "lc_maxSize (new_cache n age stale upd) = n" "lc_lru (new_cache n age stale upd) = []"
  by (simp_all add: new_cache_def lru_New_def Clear_def WithSize_def WithAge_def WithStale_def
      WithUpdateAgeOnGet_def lru_ok_def entries_def lru_index_def fun_eq_iff)

text \<open>C20. The cache of \<^verbatim>\<open>common/lru\<close>, whatever its options and whatever history of gets, sets, deletes,
  computations and clears it has gone through, answers exactly as a plain list of entries kept in the order
  of their last use, holds those entries in that order, and never holds more than its maximal size. \<close>

theorem lru_refines_recency_list:
  "let c = new_cache n age stale upd in
     s_run (conf c) h [] = (fst (lru_run h c), entries (snd (lru_run h c))) \<and>
     (n \<le> 0 \<or> int (length (entries (snd (lru_run h c)))) \<le> n)"
  using lru_run_ok [OF new_cache_ok(1), of h n age stale upd] lru_run_size [OF new_cache_ok(1), of n age stale upd h]
  by (cases "n \<le> 0") (auto simp: Let_def new_cache_ok entries_def)

subsection \<open>A cache without ages\<close>

text \<open>
  The caches of the fake-IP pool are created with a size only, so no entry expires and the clock does not matter.
  Such a cache is the list of its pairs.
\<close>

definition pairs :: "('k, 'v) LruCache \<Rightarrow> ('k \<times> 'v) list" where
  "pairs c = map (\<lambda>e. (e_key e, e_value e)) (entries c)"

definition plain :: "('k, 'v) LruCache \<Rightarrow> bool" where
  "plain c \<longleftrightarrow> lru_ok c \<and> lc_maxAge c \<le> 0"

lemma plain_distinct: "plain c \<Longrightarrow> distinct (map fst (pairs c))"
  by (simp add: plain_def lru_ok_def pairs_def comp_def)

lemma s_lookup_pairs: "map_option e_value (s_lookup k es) = map_of (map (\<lambda>e. (e_key e, e_value e)) es) k"
  by (induction es) (auto simp: s_lookup_def)

lemma s_drop_pairs:
  "map (\<lambda>e. (e_key e, e_value e)) (s_drop k es) = filter (\<lambda>x. fst x \<noteq> k) (map (\<lambda>e. (e_key e, e_value e)) es)"
  by (simp add: s_drop_def filter_map comp_def)

lemma plain_Get:
  assumes "plain c"
  shows "fst (lru_Get now k c) = map_of (pairs c) k" "plain (snd (lru_Get now k c))"
    "lc_maxSize (snd (lru_Get now k c)) = lc_maxSize c"
    "pairs (snd (lru_Get now k c)) =
       (case map_of (pairs c) k of None \<Rightarrow> pairs c | Some v \<Rightarrow> filter (\<lambda>x. fst x \<noteq> k) (pairs c) @ [(k, v)])"
proof -
  obtain r c' where g: "lru_get now k c = (r, c')" by force
  have ok: "lru_ok c" and age: "lc_maxAge c \<le> 0" using assms by (auto simp: plain_def)
  note s = lru_get_ok [OF ok, of now k, unfolded g, simplified]
  have f: "lc_maxAge c' = lc_maxAge c" "lc_maxSize c' = lc_maxSize c" using s(2) by (auto simp: conf_def)
  have r: "r = s_lookup k (entries c)"
    "entries c' = (case r of None \<Rightarrow> entries c | Some e \<Rightarrow> s_drop k (entries c) @ [e])"
    using s(3) age by (auto simp: s_get_def ages_def Let_def split: option.splits if_splits)
  then have "map_option e_value r = map_of (pairs c) k" by (simp add: pairs_def s_lookup_pairs)
  moreover have "e_key e = k" if "r = Some e" for e using s_lookup_Some r(1) that by metis
  ultimately show "fst (lru_Get now k c) = map_of (pairs c) k" "plain (snd (lru_Get now k c))"
    "lc_maxSize (snd (lru_Get now k c)) = lc_maxSize c"
    "pairs (snd (lru_Get now k c)) =
       (case map_of (pairs c) k of None \<Rightarrow> pairs c | Some v \<Rightarrow> filter (\<lambda>x. fst x \<noteq> k) (pairs c) @ [(k, v)])"
    using s(1) age f r(2) by (auto simp: lru_Get_def g plain_def pairs_def s_drop_pairs split: option.splits)
qed

lemma plain_set:
  assumes "plain c"
  shows "plain (lru_set now k v c)" "lc_maxSize (lru_set now k v c) = lc_maxSize c"
    "pairs (lru_set now k v c) =
       (let ps = filter (\<lambda>x. fst x \<noteq> k) (pairs c) @ [(k, v)] in
        if map_of (pairs c) k = None \<and> lc_maxSize c > 0 \<and> int (length ps) > lc_maxSize c then tl ps else ps)"
proof -
  have ok: "lru_ok c" and age: "\<not> lc_maxAge c > 0" using assms by (auto simp: plain_def)
  note s = lru_set_ok [OF ok, of now k v]
  show "plain (lru_set now k v c)" "lc_maxSize (lru_set now k v c) = lc_maxSize c"
    using s(1,2) age by (auto simp: plain_def conf_def)
  have "length (s_drop k (entries c)) = length (filter (\<lambda>x. fst x \<noteq> k) (pairs c))"
    using arg_cong [OF s_drop_pairs, of length k "entries c"] by (simp add: pairs_def)
  moreover have "s_lookup k (entries c) = None \<longleftrightarrow> map_of (pairs c) k = None"
    using s_lookup_pairs [of k "entries c"] by (simp add: pairs_def) (metis option.map_disc_iff)
  ultimately show "pairs (lru_set now k v c) =
       (let ps = filter (\<lambda>x. fst x \<noteq> k) (pairs c) @ [(k, v)] in
        if map_of (pairs c) k = None \<and> lc_maxSize c > 0 \<and> int (length ps) > lc_maxSize c then tl ps else ps)"
    using age by (simp add: pairs_def s s_set_def s_put_def s_purge_def ages_def Let_def s_drop_pairs map_tl)
qed

lemma plain_delete:
  assumes "plain c"
  shows "plain (lru_delete k c)" "lc_maxSize (lru_delete k c) = lc_maxSize c"
    "pairs (lru_delete k c) = filter (\<lambda>x. fst x \<noteq> k) (pairs c)"
  using lru_delete_ok [of c k] assms by (auto simp: plain_def conf_def pairs_def s_drop_pairs)

lemma plain_Exist: "plain c \<Longrightarrow> lru_Exist k c \<longleftrightarrow> map_of (pairs c) k \<noteq> None"
  using s_lookup_pairs [of k "entries c"]
  by (simp add: plain_def lru_Exist_spec pairs_def del: not_None_eq) (metis option.map_disc_iff)

lemma plain_Clear: "plain c \<Longrightarrow> plain (Clear c)" "pairs (Clear c) = []" "lc_maxSize (Clear c) = lc_maxSize c"
  by (simp_all add: plain_def Clear_ok pairs_def) (simp_all add: Clear_def)

lemma plain_CloneTo:
  assumes "plain c" "plain n"
  shows "plain (lru_CloneTo c n)" "pairs (lru_CloneTo c n) = pairs c" "lc_maxSize (lru_CloneTo c n) = lc_maxSize n"
  using lru_CloneTo_ok [of c n] assms by (auto simp: plain_def pairs_def conf_def)

lemma plain_New: "plain (lru_New [WithSize n])" "pairs (lru_New [WithSize n]) = []"
  "lc_maxSize (lru_New [WithSize n]) = n"
  by (simp_all add: plain_def lru_New_def Clear_def WithSize_def lru_ok_def entries_def pairs_def lru_index_def fun_eq_iff)

end
