(* ===== verification/Fakeip_Store.thy ===== *)
theory Fakeip_Store
  imports TC_Model Go_Bytes Common_LRU
begin

section \<open>Fake IP: the stores\<close>

text \<open>
  The two implementations of the interface \<^verbatim>\<open>store\<close> of \<^verbatim>\<open>component/fakeip\<close>: a pair of LRU caches
  (\<^verbatim>\<open>memory.go\<close>), and a bucket of the cache file (\<^verbatim>\<open>cachefile.go\<close> over
  \<^verbatim>\<open>component/profile/cachefile/fakeip.go\<close>), in which both directions of the binding and the state of the pool
  are kept under their bytes. The interface is the locale \<open>fake_store\<close>, and each store is an instance of it:
  the two caches of the first are one list read in two directions, evictions included, and the bucket of the second
  is a binding as long as no host looks like an address of the range.
\<close>

subsection \<open>What the pool asks of a store\<close>

text \<open>
  \<open>hosts\<close> and \<open>ips\<close> are the two directions of the binding a store holds. The laws are about the hosts and
  addresses a pool works with: \<open>usable\<close> addresses are those of its range, and a host is \<open>valid\<close> when the
  store can tell it from everything else it keeps. An address is given to a host by the two puts
  together, which is why they have one law.
\<close>

locale fake_store =
  fixes hosts :: "'s \<Rightarrow> string \<Rightarrow> addr option"
    and ips :: "'s \<Rightarrow> addr \<Rightarrow> string option"
    and byHost :: "string \<Rightarrow> 's \<Rightarrow> addr option \<times> 's"
    and byIP :: "addr \<Rightarrow> 's \<Rightarrow> string option \<times> 's"
    and putHost :: "string \<Rightarrow> addr \<Rightarrow> 's \<Rightarrow> 's"
    and putIP :: "addr \<Rightarrow> string \<Rightarrow> 's \<Rightarrow> 's"
    and delIP :: "addr \<Rightarrow> 's \<Rightarrow> 's"
    and exist :: "addr \<Rightarrow> 's \<Rightarrow> bool"
    and ok :: "'s \<Rightarrow> bool"
    and valid :: "'s \<Rightarrow> string \<Rightarrow> bool"
    and usable :: "addr \<Rightarrow> bool"
  assumes byHost_finds: "ok s \<Longrightarrow> valid s h \<Longrightarrow> fst (byHost h s) = hosts s h"
    and byHost_keeps: "ok s \<Longrightarrow> ok (snd (byHost h s)) \<and> ips (snd (byHost h s)) = ips s \<and> valid (snd (byHost h s)) = valid s"
    and byIP_finds: "ok s \<Longrightarrow> usable ip \<Longrightarrow> fst (byIP ip s) = ips s ip"
    and byIP_keeps: "ok s \<Longrightarrow> ok (snd (byIP ip s)) \<and> ips (snd (byIP ip s)) = ips s \<and> valid (snd (byIP ip s)) = valid s"
    and exist_iff: "ok s \<Longrightarrow> usable ip \<Longrightarrow> exist ip s \<longleftrightarrow> ips s ip \<noteq> None"
    and inverse: "ok s \<Longrightarrow> valid s h \<Longrightarrow> usable ip \<Longrightarrow> hosts s h = Some ip \<longleftrightarrow> ips s ip = Some h"
    and host_usable: "ok s \<Longrightarrow> valid s h \<Longrightarrow> hosts s h = Some ip \<Longrightarrow> usable ip"
    and ip_valid: "ok s \<Longrightarrow> usable ip \<Longrightarrow> ips s ip = Some h \<Longrightarrow> valid s h"
    and delIP_spec: "ok s \<Longrightarrow> usable ip \<Longrightarrow> ok (delIP ip s) \<and> valid (delIP ip s) = valid s \<and>
      (\<forall>i. usable i \<longrightarrow> ips (delIP ip s) i = (if i = ip then None else ips s i))"
    and put_spec: "ok s \<Longrightarrow> valid s h \<Longrightarrow> usable ip \<Longrightarrow> ips s ip = None \<Longrightarrow> hosts s h = None \<Longrightarrow>
      ok (putHost h ip (putIP ip h s)) \<and> valid (putHost h ip (putIP ip h s)) = valid s \<and>
      ips (putHost h ip (putIP ip h s)) ip = Some h \<and>
      (\<forall>i. usable i \<longrightarrow> i \<noteq> ip \<longrightarrow> ips (putHost h ip (putIP ip h s)) i \<in> {None, ips s i})"
begin

lemma unbound_host:
  assumes "ok s" "valid s h" "\<And>i. usable i \<Longrightarrow> ips s i \<noteq> Some h"
  shows "hosts s h = None"
  using assms inverse host_usable by (metis not_None_eq)

text \<open>Giving an address to a host, after taking it from the one that has it.\<close>

lemma assign_spec:
  assumes s: "ok s" "valid s h" "usable ip" "hosts s h = None"
    and freed: "s1 = delIP ip s \<or> s1 = s \<and> \<not> exist ip s"
  defines "s2 \<equiv> putHost h ip (putIP ip h s1)"
  shows "ok s2" "valid s2 = valid s" "hosts s2 h = Some ip" "ips s2 ip = Some h"
    "usable i \<Longrightarrow> i \<noteq> ip \<Longrightarrow> ips s2 i \<in> {None, ips s i}"
proof -
  have none: "ips s i \<noteq> Some h" if "usable i" for i
    using inverse [OF s(1,2) that] s(4) by simp
  have s1: "ok s1" "valid s1 = valid s" "ips s1 ip = None" "\<And>i. usable i \<Longrightarrow> ips s1 i \<in> {None, ips s i}"
    using freed delIP_spec [OF s(1,3)] exist_iff [OF s(1,3)] s by auto
  have "hosts s1 h = None"
    by (rule unbound_host) (use s1 s(2) none in force)+
  note put = put_spec [OF s1(1) _ s(3) s1(3) this, folded s2_def] 
  show "ok s2" "valid s2 = valid s" "ips s2 ip = Some h" using put s1(2) s(2) by auto
  then show "hosts s2 h = Some ip" using inverse s by metis
  show "usable i \<Longrightarrow> i \<noteq> ip \<Longrightarrow> ips s2 i \<in> {None, ips s i}" using put s1(2,4) s(2) by fastforce
qed

lemma two_hosts_two_ips:
  assumes "ok s" "valid s h" "valid s h'" "hosts s h = Some ip" "hosts s h' = Some ip"
  shows "h = h'"
  using assms inverse host_usable by (metis option.inject)

end

subsection \<open>Addresses and their bytes\<close>

fun addr_Next :: "addr \<Rightarrow> addr" where
  "addr_Next InvalidAddr = InvalidAddr"
| "addr_Next (V4 w) = (if w + 1 = 0 then InvalidAddr else V4 (w + 1))"
| "addr_Next (V6 w zone) = (if w + 1 = 0 then InvalidAddr else V6 (w + 1) zone)"

fun addr_Prev :: "addr \<Rightarrow> addr" where
  "addr_Prev InvalidAddr = InvalidAddr"
| "addr_Prev (V4 w) = (if w = 0 then InvalidAddr else V4 (w - 1))"
| "addr_Prev (V6 w zone) = (if w = 0 then InvalidAddr else V6 (w - 1) zone)"

fun addr_Less :: "addr \<Rightarrow> addr \<Rightarrow> bool" where
  "addr_Less (V4 a) (V4 b) \<longleftrightarrow> a < b"
| "addr_Less (V6 a za) (V6 b zb) \<longleftrightarrow> a < b \<or> a = b \<and> za < zb"
| "addr_Less InvalidAddr b \<longleftrightarrow> b \<noteq> InvalidAddr"
| "addr_Less (V4 a) (V6 b zb) \<longleftrightarrow> True"
| "addr_Less a b \<longleftrightarrow> False"

fun Is6 :: "addr \<Rightarrow> bool" where
  "Is6 (V6 _ _) \<longleftrightarrow> True"
| "Is6 _ \<longleftrightarrow> False"

definition PutUint128 :: "nat \<Rightarrow> string" where
  "PutUint128 n = PutUint32 (n div 79228162514264337593543950336) @ PutUint32 (n div 18446744073709551616) @
     PutUint32 (n div 4294967296) @ PutUint32 n"

fun AsSlice :: "addr \<Rightarrow> string" where
  "AsSlice InvalidAddr = []"
| "AsSlice (V4 w) = PutUint32 (unat w)"
| "AsSlice (V6 w zone) = PutUint128 (unat w)"

definition AddrFromSlice :: "string \<Rightarrow> addr option" where
  "AddrFromSlice s =
     (if length s = 4 then Some (V4 (of_nat (be_value 0 s)))
      else if length s = 16 then Some (V6 (of_nat (be_value 0 s)) []) else None)"

fun zoneless :: "addr \<Rightarrow> bool" where
  "zoneless InvalidAddr \<longleftrightarrow> False"
| "zoneless (V4 w) \<longleftrightarrow> True"
| "zoneless (V6 w zone) \<longleftrightarrow> zone = []"

lemma be_value_PutUint128: "n < 340282366920938463463374607431768211456 \<Longrightarrow> be_value 0 (PutUint128 n) = n"
proof -
  assume n: "n < 340282366920938463463374607431768211456"
  let ?b = "4294967296 :: nat"
  have "n div 79228162514264337593543950336 mod ?b = n div 79228162514264337593543950336"
    using n by (simp add: less_mult_imp_div_less)
  moreover have "n div 79228162514264337593543950336 = n div ?b div ?b div ?b" "n div 18446744073709551616 = n div ?b div ?b"
    by (simp_all add: div_mult2_eq [symmetric])
  moreover have "m div ?b * ?b + m mod ?b = m" for m by simp
  ultimately show ?thesis
    by (simp add: PutUint128_def be_value_append be_value_PutUint32)
qed

lemma AsSlice_roundtrip: "zoneless a \<Longrightarrow> AddrFromSlice (AsSlice a) = Some a"
proof (cases a)
  case (V4 w)
  have "unat w < 4294967296" using unsigned_less [of w, where ?'a = nat] by simp
  then show ?thesis
    by (simp add: V4 AddrFromSlice_def be_value_PutUint32)
next
  case (V6 w zone)
  have "unat w < 340282366920938463463374607431768211456" using unsigned_less [of w, where ?'a = nat] by simp
  moreover assume "zoneless a"
  ultimately show ?thesis
    by (simp add: V6 AddrFromSlice_def be_value_PutUint128) (simp add: PutUint128_def)
qed simp

lemma AsSlice_inj: "zoneless a \<Longrightarrow> zoneless b \<Longrightarrow> AsSlice a = AsSlice b \<longleftrightarrow> a = b"
  by (metis AsSlice_roundtrip option.inject)

lemma AsSlice_length: "zoneless a \<Longrightarrow> length (AsSlice a) \<in> {4, 16}"
  by (cases a) (auto simp: PutUint128_def)

text \<open>The same on integers, for evaluation.\<close>

fun be_int :: "int \<Rightarrow> string \<Rightarrow> int" where
  "be_int acc [] = acc"
| "be_int acc (c # s) = be_int (acc * 256 + of_char c) s"

lemma be_int_value: "be_int (int n) s = int (be_value n s)"
  by (induction n s rule: be_value.induct) (simp_all add: of_nat_of_char)

lemma AddrFromSlice_code [code]:
  "AddrFromSlice s =
     (if length s = 4 then Some (V4 (word_of_int (be_int 0 s)))
      else if length s = 16 then Some (V6 (word_of_int (be_int 0 s)) []) else None)"
  using be_int_value [of 0 s] by (simp add: AddrFromSlice_def)

definition int_bytes :: "int \<Rightarrow> string" where
  "int_bytes i = [char_of (i div 16777216), char_of (i div 65536), char_of (i div 256), char_of i]"

lemma PutUint32_int: "PutUint32 n = int_bytes (int n)"
proof -
  have "char_of (int n div int d) = char_of (n div d)" for d
    using char_of_nat [of "n div d", where ?'a = int] by (simp add: of_nat_div)
  from this [of 16777216] this [of 65536] this [of 256] this [of 1] show ?thesis
    by (simp add: PutUint32_def int_bytes_def byte_def)
qed

lemma AsSlice_code [code]:
  "AsSlice InvalidAddr = []"
  "AsSlice (V4 w) = int_bytes (uint w)"
  "AsSlice (V6 v zone) = (let i = uint v in int_bytes (i div 79228162514264337593543950336) @
     int_bytes (i div 18446744073709551616) @ int_bytes (i div 4294967296) @ int_bytes i)"
  by (simp_all add: PutUint128_def PutUint32_int of_nat_div Let_def)

subsection \<open>The store in memory\<close>

record memoryStore =
  ms_cacheIP :: "(string, addr) LruCache"
  ms_cacheHost :: "(addr, string) LruCache"

definition mem_GetByHost :: "string \<Rightarrow> memoryStore \<Rightarrow> addr option \<times> memoryStore" where
  "mem_GetByHost host m =
     (case lru_Get 0 host (ms_cacheIP m) of
        (Some ip, c) \<Rightarrow> (Some ip, m\<lparr>ms_cacheIP := c, ms_cacheHost := snd (lru_Get 0 ip (ms_cacheHost m))\<rparr>)
      | (None, c) \<Rightarrow> (None, m\<lparr>ms_cacheIP := c\<rparr>))"

definition mem_PutByHost :: "string \<Rightarrow> addr \<Rightarrow> memoryStore \<Rightarrow> memoryStore" where
  "mem_PutByHost host ip m = m\<lparr>ms_cacheIP := lru_set 0 host ip (ms_cacheIP m)\<rparr>"

definition mem_GetByIP :: "addr \<Rightarrow> memoryStore \<Rightarrow> string option \<times> memoryStore" where
  "mem_GetByIP ip m =
     (case lru_Get 0 ip (ms_cacheHost m) of
        (Some host, c) \<Rightarrow> (Some host, m\<lparr>ms_cacheHost := c, ms_cacheIP := snd (lru_Get 0 host (ms_cacheIP m))\<rparr>)
      | (None, c) \<Rightarrow> (None, m\<lparr>ms_cacheHost := c\<rparr>))"

definition mem_PutByIP :: "addr \<Rightarrow> string \<Rightarrow> memoryStore \<Rightarrow> memoryStore" where
  "mem_PutByIP ip host m = m\<lparr>ms_cacheHost := lru_set 0 ip host (ms_cacheHost m)\<rparr>"

definition mem_DelByIP :: "addr \<Rightarrow> memoryStore \<Rightarrow> memoryStore" where
  "mem_DelByIP ip m =
     (let (r, c) = lru_Get 0 ip (ms_cacheHost m);
          m = m\<lparr>ms_cacheHost := c\<rparr>;
          m = (case r of Some host \<Rightarrow> m\<lparr>ms_cacheIP := lru_delete host (ms_cacheIP m)\<rparr> | None \<Rightarrow> m)
      in m\<lparr>ms_cacheHost := lru_delete ip (ms_cacheHost m)\<rparr>)"

definition mem_Exist :: "addr \<Rightarrow> memoryStore \<Rightarrow> bool" where
  "mem_Exist ip m = lru_Exist ip (ms_cacheHost m)"

definition mem_CloneTo :: "memoryStore \<Rightarrow> memoryStore \<Rightarrow> memoryStore" where
  "mem_CloneTo m n = n\<lparr>ms_cacheIP := lru_CloneTo (ms_cacheIP m) (ms_cacheIP n),
     ms_cacheHost := lru_CloneTo (ms_cacheHost m) (ms_cacheHost n)\<rparr>"

definition mem_FlushFakeIP :: "memoryStore \<Rightarrow> memoryStore" where
  "mem_FlushFakeIP m = m\<lparr>ms_cacheIP := Clear (ms_cacheIP m), ms_cacheHost := Clear (ms_cacheHost m)\<rparr>"

definition newMemoryStore :: "int \<Rightarrow> memoryStore" where
  "newMemoryStore n = \<lparr>ms_cacheIP = lru_New [WithSize n], ms_cacheHost = lru_New [WithSize n]\<rparr>"

subsubsection \<open>The two caches are the same list read in the two directions\<close>

definition mem_hosts :: "memoryStore \<Rightarrow> string \<Rightarrow> addr option" where
  "mem_hosts m = map_of (pairs (ms_cacheIP m))"

definition mem_ips :: "memoryStore \<Rightarrow> addr \<Rightarrow> string option" where
  "mem_ips m = map_of (pairs (ms_cacheHost m))"

definition mem_ok :: "(addr \<Rightarrow> bool) \<Rightarrow> memoryStore \<Rightarrow> bool" where
  "mem_ok u m \<longleftrightarrow> plain (ms_cacheIP m) \<and> plain (ms_cacheHost m) \<and> lc_maxSize (ms_cacheIP m) = lc_maxSize (ms_cacheHost m) \<and>
     pairs (ms_cacheHost m) = map prod.swap (pairs (ms_cacheIP m)) \<and> (\<forall>ip \<in> snd ` set (pairs (ms_cacheIP m)). u ip)"

lemma distinct_swap_filter:
  assumes "distinct (map fst ps)" "distinct (map snd ps)" "(a, b) \<in> set ps"
  shows "filter (\<lambda>x. snd x \<noteq> b) ps = filter (\<lambda>x. fst x \<noteq> a) ps"
proof (rule filter_cong [OF refl])
  fix x assume x: "x \<in> set ps"
  have "inj_on fst (set ps)" "inj_on snd (set ps)" using assms by (simp_all add: distinct_map)
  from inj_on_eq_iff [OF this(1) x assms(3)] inj_on_eq_iff [OF this(2) x assms(3)]
  show "(snd x \<noteq> b) = (fst x \<noteq> a)" by simp
qed

lemma filter_swap: "filter (\<lambda>x. fst x \<noteq> b) (map prod.swap ps) = map prod.swap (filter (\<lambda>x. snd x \<noteq> b) ps)"
  by (simp add: filter_map comp_def)

lemma mem_ok_distinct:
  assumes "mem_ok u m"
  shows "distinct (map fst (pairs (ms_cacheIP m)))" "distinct (map snd (pairs (ms_cacheIP m)))"
  using assms plain_distinct [of "ms_cacheIP m"] plain_distinct [of "ms_cacheHost m"]
  by (auto simp: mem_ok_def comp_def)

lemma mem_inverse: "mem_ok u m \<Longrightarrow> mem_hosts m h = Some ip \<longleftrightarrow> mem_ips m ip = Some h"
  using mem_ok_distinct [of u m] plain_distinct [of "ms_cacheHost m"]
  by (auto simp: mem_hosts_def mem_ips_def mem_ok_def)

lemma swap_touch:
  assumes "distinct (map fst ps)" "distinct (map snd ps)" "(h, ip) \<in> set ps"
  shows "filter (\<lambda>x. fst x \<noteq> ip) (map prod.swap ps) @ [(ip, h)] =
    map prod.swap (filter (\<lambda>x. fst x \<noteq> h) ps @ [(h, ip)])"
  by (simp add: filter_swap distinct_swap_filter [OF assms])

lemma map_of_touch:
  assumes "distinct (map fst ps)" "map_of ps k = Some v"
  shows "map_of (filter (\<lambda>x. fst x \<noteq> k) ps @ [(k, v)]) = map_of ps"
proof -
  have f: "map_of (filter (\<lambda>x. fst x \<noteq> k) ps) = (map_of ps)(k := None)"
    by (induction ps) (auto simp: fun_eq_iff)
  show ?thesis using assms(2) by (auto simp: f map_add_def fun_eq_iff split: option.splits)
qed

lemma map_of_drop: "map_of (filter (\<lambda>x. fst x \<noteq> k) ps) = (map_of ps)(k := None)"
  by (induction ps) (auto simp: fun_eq_iff)

text \<open>Both lookups move the binding to the recent end of both caches.\<close>

lemma mem_touch_ok:
  assumes ok: "mem_ok u m" and b: "(h, ip) \<in> set (pairs (ms_cacheIP m))"
  defines "m' \<equiv> m\<lparr>ms_cacheIP := snd (lru_Get 0 h (ms_cacheIP m)), ms_cacheHost := snd (lru_Get 0 ip (ms_cacheHost m))\<rparr>"
  shows "mem_ok u m'" "mem_ips m' = mem_ips m"
proof -
  note d = mem_ok_distinct [OF ok]
  have p: "plain (ms_cacheIP m)" "plain (ms_cacheHost m)"
    and sw: "pairs (ms_cacheHost m) = map prod.swap (pairs (ms_cacheIP m))"
    and sz: "lc_maxSize (ms_cacheIP m) = lc_maxSize (ms_cacheHost m)"
    and u: "\<forall>ip \<in> snd ` set (pairs (ms_cacheIP m)). u ip"
    using ok by (auto simp: mem_ok_def)
  have h: "map_of (pairs (ms_cacheIP m)) h = Some ip" using d(1) b by simp
  then have i: "map_of (pairs (ms_cacheHost m)) ip = Some h"
    using mem_inverse [OF ok] by (simp add: mem_hosts_def mem_ips_def)
  have n: "pairs (ms_cacheIP m') = filter (\<lambda>x. fst x \<noteq> h) (pairs (ms_cacheIP m)) @ [(h, ip)]"
    "pairs (ms_cacheHost m') = filter (\<lambda>x. fst x \<noteq> ip) (pairs (ms_cacheHost m)) @ [(ip, h)]"
    using plain_Get(4) [OF p(1), of 0 h] plain_Get(4) [OF p(2), of 0 ip] by (simp_all add: m'_def h i)
  show "mem_ips m' = mem_ips m"
    unfolding mem_ips_def n by (rule map_of_touch [OF plain_distinct [OF p(2)] i])
  have "pairs (ms_cacheHost m') = map prod.swap (pairs (ms_cacheIP m'))"
    unfolding n sw by (rule swap_touch [OF d b])
  moreover have "\<forall>ip \<in> snd ` set (pairs (ms_cacheIP m')). u ip" using u b unfolding n by force
  ultimately show "mem_ok u m'"
    using p sz by (simp add: mem_ok_def) (simp add: m'_def plain_Get)
qed

lemma plain_Get_missing: "plain c \<Longrightarrow> map_of (pairs c) k = None \<Longrightarrow> lru_Get now k c = (None, c)"
  using element_None [of c k] s_lookup_pairs [of k "entries c"]
  by (auto simp: plain_def lru_Get_def lru_get_def pairs_def)

lemma mem_GetByHost_ok:
  assumes ok: "mem_ok u m"
  shows "fst (mem_GetByHost h m) = mem_hosts m h" "mem_ok u (snd (mem_GetByHost h m))"
    "mem_ips (snd (mem_GetByHost h m)) = mem_ips m"
proof -
  have p: "plain (ms_cacheIP m)" using ok by (simp add: mem_ok_def)
  have g: "mem_GetByHost h m = (case mem_hosts m h of None \<Rightarrow> (None, m)
      | Some ip \<Rightarrow> (Some ip, m\<lparr>ms_cacheIP := snd (lru_Get 0 h (ms_cacheIP m)), ms_cacheHost := snd (lru_Get 0 ip (ms_cacheHost m))\<rparr>))"
    using plain_Get(1) [OF p, of 0 h] plain_Get_missing [OF p, of h 0]
    by (auto simp: mem_GetByHost_def mem_hosts_def split: prod.splits option.splits)
  show "fst (mem_GetByHost h m) = mem_hosts m h" by (simp add: g split: option.splits)
  show "mem_ok u (snd (mem_GetByHost h m))" "mem_ips (snd (mem_GetByHost h m)) = mem_ips m"
    using mem_touch_ok [OF ok] ok by (auto simp: g mem_hosts_def dest: map_of_SomeD split: option.splits)
qed

lemma mem_GetByIP_ok:
  assumes ok: "mem_ok u m"
  shows "fst (mem_GetByIP ip m) = mem_ips m ip" "mem_ok u (snd (mem_GetByIP ip m))"
    "mem_ips (snd (mem_GetByIP ip m)) = mem_ips m"
proof -
  have p: "plain (ms_cacheHost m)" using ok by (simp add: mem_ok_def)
  have g: "mem_GetByIP ip m = (case mem_ips m ip of None \<Rightarrow> (None, m)
      | Some h \<Rightarrow> (Some h, m\<lparr>ms_cacheIP := snd (lru_Get 0 h (ms_cacheIP m)), ms_cacheHost := snd (lru_Get 0 ip (ms_cacheHost m))\<rparr>))"
    using plain_Get(1) [OF p, of 0 ip] plain_Get_missing [OF p, of ip 0]
    by (auto simp: mem_GetByIP_def mem_ips_def split: prod.splits option.splits)
  have b: "(h, ip) \<in> set (pairs (ms_cacheIP m))" if "mem_ips m ip = Some h" for h
    using that mem_inverse [OF ok] by (auto simp: mem_hosts_def dest: map_of_SomeD)
  show "fst (mem_GetByIP ip m) = mem_ips m ip" by (simp add: g split: option.splits)
  show "mem_ok u (snd (mem_GetByIP ip m))" "mem_ips (snd (mem_GetByIP ip m)) = mem_ips m"
    using mem_touch_ok [OF ok b] ok by (auto simp: g split: option.splits)
qed

lemma mem_DelByIP_ok:
  assumes ok: "mem_ok u m"
  shows "mem_ok u (mem_DelByIP ip m)" "mem_ips (mem_DelByIP ip m) = (mem_ips m)(ip := None)"
proof -
  note d = mem_ok_distinct [OF ok]
  have p: "plain (ms_cacheIP m)" "plain (ms_cacheHost m)"
    and sw: "pairs (ms_cacheHost m) = map prod.swap (pairs (ms_cacheIP m))"
    and sz: "lc_maxSize (ms_cacheIP m) = lc_maxSize (ms_cacheHost m)"
    and u: "\<forall>ip \<in> snd ` set (pairs (ms_cacheIP m)). u ip"
    using ok by (auto simp: mem_ok_def)
  let ?m = "mem_DelByIP ip m"
  obtain r c where g: "lru_Get 0 ip (ms_cacheHost m) = (r, c)" by force
  note gc = plain_Get [OF p(2), of 0 ip, unfolded g, simplified]
  have host: "ms_cacheHost ?m = lru_delete ip c"
    and IP: "ms_cacheIP ?m = (case r of None \<Rightarrow> ms_cacheIP m | Some h \<Rightarrow> lru_delete h (ms_cacheIP m))"
    by (auto simp: mem_DelByIP_def g Let_def split: option.splits)
  have ph: "pairs (ms_cacheHost ?m) = filter (\<lambda>x. fst x \<noteq> ip) (pairs (ms_cacheHost m))"
    using plain_delete(3) [OF gc(2), of ip] gc(4) by (auto simp: host split: option.splits)
  then show "mem_ips ?m = (mem_ips m)(ip := None)" by (simp add: mem_ips_def map_of_drop)
  have pi: "pairs (ms_cacheIP ?m) = filter (\<lambda>x. snd x \<noteq> ip) (pairs (ms_cacheIP m))"
  proof (cases r)
    case None
    with gc(1) have "ip \<notin> fst ` set (pairs (ms_cacheHost m))" by (simp add: map_of_eq_None_iff [symmetric])
    with None show ?thesis unfolding sw by (force simp: IP intro!: filter_True [symmetric])
  next
    case (Some h)
    with gc(1) have "(ip, h) \<in> set (pairs (ms_cacheHost m))" by (simp add: map_of_SomeD)
    then have "(h, ip) \<in> set (pairs (ms_cacheIP m))" by (auto simp: sw)
    from distinct_swap_filter [OF d this] plain_delete(3) [OF p(1), of h] Some show ?thesis by (simp add: IP)
  qed
  have "plain (ms_cacheIP ?m)" "plain (ms_cacheHost ?m)" "lc_maxSize (ms_cacheIP ?m) = lc_maxSize (ms_cacheHost ?m)"
    using plain_delete [OF gc(2)] plain_delete [OF p(1)] p(1) sz gc(3) by (auto simp: host IP split: option.splits)
  moreover have "pairs (ms_cacheHost ?m) = map prod.swap (pairs (ms_cacheIP ?m))"
    unfolding ph pi sw by (rule filter_swap)
  ultimately show "mem_ok u ?m" using u by (auto simp: mem_ok_def pi)
qed

lemma map_of_snoc_tl:
  assumes d: "distinct (map fst (qs @ [(k, v)]))" and b: "b \<Longrightarrow> qs \<noteq> []"
  shows "map_of (if b then tl (qs @ [(k, v)]) else qs @ [(k, v)]) k = Some v"
    "i \<noteq> k \<Longrightarrow> map_of (if b then tl (qs @ [(k, v)]) else qs @ [(k, v)]) i \<in> {None, map_of qs i}"
  by (cases qs; use d b in \<open>auto simp: map_add_def map_of_eq_None_iff [symmetric] split: option.splits\<close>)+

lemma mem_put_ok:
  assumes ok: "mem_ok u m" and new: "mem_ips m ip = None" "mem_hosts m h = None" and uip: "u ip"
  defines "m' \<equiv> mem_PutByHost h ip (mem_PutByIP ip h m)"
  shows "mem_ok u m'" "mem_ips m' ip = Some h" "i \<noteq> ip \<Longrightarrow> mem_ips m' i \<in> {None, mem_ips m i}"
proof -
  have p: "plain (ms_cacheIP m)" "plain (ms_cacheHost m)"
    and sw: "pairs (ms_cacheHost m) = map prod.swap (pairs (ms_cacheIP m))"
    and sz: "lc_maxSize (ms_cacheIP m) = lc_maxSize (ms_cacheHost m)"
    and u: "\<forall>ip \<in> snd ` set (pairs (ms_cacheIP m)). u ip"
    using ok by (auto simp: mem_ok_def)
  let ?ps = "pairs (ms_cacheIP m)" and ?qs = "pairs (ms_cacheHost m)"
  define cut where "cut \<longleftrightarrow> lc_maxSize (ms_cacheIP m) > 0 \<and> int (Suc (length ?ps)) > lc_maxSize (ms_cacheIP m)"
  have keep: "filter (\<lambda>x. fst x \<noteq> h) ?ps = ?ps" "filter (\<lambda>x. fst x \<noteq> ip) ?qs = ?qs"
    using new by (force simp: filter_id_conv mem_hosts_def mem_ips_def map_of_eq_None_iff)+
  have len: "length ?qs = length ?ps" by (simp add: sw)
  have n: "pairs (ms_cacheIP m') = (if cut then tl (?ps @ [(h, ip)]) else ?ps @ [(h, ip)])"
    "pairs (ms_cacheHost m') = (if cut then tl (?qs @ [(ip, h)]) else ?qs @ [(ip, h)])"
    using plain_set(3) [OF p(1), of 0 h ip] plain_set(3) [OF p(2), of 0 ip h] new sz len
    by (auto simp: m'_def mem_PutByHost_def mem_PutByIP_def mem_hosts_def mem_ips_def keep Let_def cut_def)
  have d: "distinct (map fst (?qs @ [(ip, h)]))"
    using plain_distinct [OF p(2)] new by (auto simp: mem_ips_def map_of_eq_None_iff)
  have "?qs \<noteq> []" if cut using that sw by (cases ?ps) (auto simp: cut_def)
  from map_of_snoc_tl [OF d this]
  show "mem_ips m' ip = Some h" "i \<noteq> ip \<Longrightarrow> mem_ips m' i \<in> {None, mem_ips m i}"
    by (simp_all only: mem_ips_def n)
  have "pairs (ms_cacheHost m') = map prod.swap (pairs (ms_cacheIP m'))"
    by (simp add: n sw map_tl)
  moreover have "\<forall>ip \<in> snd ` set (pairs (ms_cacheIP m')). u ip"
  proof -
    have "set (pairs (ms_cacheIP m')) \<subseteq> insert (h, ip) (set ?ps)" by (cases ?ps) (auto simp: n)
    with u uip show ?thesis by force
  qed
  ultimately show "mem_ok u m'"
    using p sz by (simp add: mem_ok_def) (simp add: m'_def mem_PutByHost_def mem_PutByIP_def plain_set)
qed

interpretation ms: fake_store mem_hosts mem_ips mem_GetByHost mem_GetByIP mem_PutByHost mem_PutByIP mem_DelByIP mem_Exist
  "mem_ok u" "\<lambda>m h. True" u for u
proof
  show "mem_Exist ip s \<longleftrightarrow> mem_ips s ip \<noteq> None" if "mem_ok u s" for s ip
    using that by (simp add: mem_Exist_def mem_ips_def mem_ok_def plain_Exist)
  show "u ip" if "mem_ok u s" "mem_hosts s h = Some ip" for s h ip
    using that by (force simp: mem_ok_def mem_hosts_def dest: map_of_SomeD)
qed (auto simp: mem_GetByHost_ok mem_GetByIP_ok mem_DelByIP_ok mem_inverse dest: mem_put_ok)

lemma mem_Flush_ok: "mem_ok u m \<Longrightarrow> mem_ok u' (mem_FlushFakeIP m)" "mem_ips (mem_FlushFakeIP m) = (\<lambda>_. None)"
  by (simp_all add: mem_ok_def mem_FlushFakeIP_def mem_ips_def plain_Clear)

lemma mem_CloneTo_ok:
  "mem_ok u m \<Longrightarrow> mem_ok u' n \<Longrightarrow> mem_ok u (mem_CloneTo m n) \<and> mem_ips (mem_CloneTo m n) = mem_ips m"
  by (simp add: mem_ok_def mem_CloneTo_def mem_ips_def plain_CloneTo)

lemma newMemoryStore_ok: "mem_ok u (newMemoryStore n)" "mem_ips (newMemoryStore n) = (\<lambda>_. None)"
  by (simp_all add: mem_ok_def newMemoryStore_def mem_ips_def plain_New)

subsection \<open>The store in the cache file\<close>

text \<open>
  The database has a bucket for each address family, absent until something is stored in it. A transaction gives
  the bucket new contents, or leaves it as it is when the library does not commit; \<^verbatim>\<open>bbolt\<close> refuses an empty key,
  so that is what \<open>bolt_reliable\<close> leaves out. No database is open when the file could not be opened.
\<close>

type_synonym bolt_bucket = "(string, string) gomap"

record CacheFile =
  db_fakeip :: "bolt_bucket option"
  db_fakeip6 :: "bolt_bucket option"

record FakeIpStore =
  fs_DB :: "CacheFile option"
  fs_bucket6 :: bool

type_synonym bolt_commit = "bolt_bucket option \<Rightarrow> bolt_bucket option \<Rightarrow> bool"

definition bolt_reliable :: "bolt_commit \<Rightarrow> bool" where
  "bolt_reliable commit \<longleftrightarrow> (\<forall>old new. (\<forall>b. new = Some b \<longrightarrow> mget b [] = None) \<longrightarrow> commit old new)"

definition fs_Bucket :: "FakeIpStore \<Rightarrow> bolt_bucket option" where
  "fs_Bucket c = (case fs_DB c of None \<Rightarrow> None | Some db \<Rightarrow> if fs_bucket6 c then db_fakeip6 db else db_fakeip db)"

definition fs_Batch :: "bolt_commit \<Rightarrow> (bolt_bucket option \<Rightarrow> bolt_bucket option) \<Rightarrow> FakeIpStore \<Rightarrow> bool \<times> FakeIpStore" where
  "fs_Batch commit f c =
     (case fs_DB c of None \<Rightarrow> (False, c)
      | Some db \<Rightarrow>
          let new = f (fs_Bucket c) in
          if commit (fs_Bucket c) new
          then (True, c\<lparr>fs_DB := Some (if fs_bucket6 c then db\<lparr>db_fakeip6 := new\<rparr> else db\<lparr>db_fakeip := new\<rparr>)\<rparr>)
          else (False, c))"

definition CreateBucketIfNotExists :: "bolt_bucket option \<Rightarrow> bolt_bucket" where
  "CreateBucketIfNotExists b = (case b of None \<Rightarrow> [] | Some b \<Rightarrow> b)"

definition cf_GetByHost :: "string \<Rightarrow> FakeIpStore \<Rightarrow> addr option" where
  "cf_GetByHost host c =
     (case fs_Bucket c of None \<Rightarrow> None
      | Some bucket \<Rightarrow> (case mget bucket host of None \<Rightarrow> None | Some v \<Rightarrow> AddrFromSlice v))"

definition cf_PutByHost :: "bolt_commit \<Rightarrow> string \<Rightarrow> addr \<Rightarrow> FakeIpStore \<Rightarrow> FakeIpStore" where
  "cf_PutByHost commit host ip c =
     snd (fs_Batch commit (\<lambda>b. Some (mset' host (AsSlice ip) (CreateBucketIfNotExists b))) c)"

definition cf_GetByIP :: "addr \<Rightarrow> FakeIpStore \<Rightarrow> string option" where
  "cf_GetByIP ip c = (case fs_Bucket c of None \<Rightarrow> None | Some bucket \<Rightarrow> mget bucket (AsSlice ip))"

definition cf_PutByIP :: "bolt_commit \<Rightarrow> addr \<Rightarrow> string \<Rightarrow> FakeIpStore \<Rightarrow> FakeIpStore" where
  "cf_PutByIP commit ip host c =
     snd (fs_Batch commit (\<lambda>b. Some (mset' (AsSlice ip) host (CreateBucketIfNotExists b))) c)"

definition cf_DelByIP :: "bolt_commit \<Rightarrow> addr \<Rightarrow> FakeIpStore \<Rightarrow> FakeIpStore" where
  "cf_DelByIP commit ip c =
     snd (fs_Batch commit
       (\<lambda>b. let bucket = CreateBucketIfNotExists b; host = mget bucket (AsSlice ip); bucket = mdel (AsSlice ip) bucket
            in Some (case host of None \<Rightarrow> bucket | Some h \<Rightarrow> if length h > 0 then mdel h bucket else bucket)) c)"

definition cf_Exist :: "addr \<Rightarrow> FakeIpStore \<Rightarrow> bool" where
  "cf_Exist ip c = (cf_GetByIP ip c \<noteq> None)"

text \<open>\<^verbatim>\<open>FlushFakeIP\<close> alone does not check that the database is open.\<close>

datatype flush_result = FlushOk | FlushFailed | FlushPanics

definition cf_FlushFakeIP :: "bolt_commit \<Rightarrow> FakeIpStore \<Rightarrow> flush_result \<times> FakeIpStore" where
  "cf_FlushFakeIP commit c =
     (if fs_DB c = None then (FlushPanics, c)
      else (case fs_Batch commit (\<lambda>b. None) c of (committed, c') \<Rightarrow> (if committed then FlushOk else FlushFailed, c')))"

definition newCachefileStore :: "CacheFile option \<Rightarrow> nprefix \<Rightarrow> FakeIpStore" where
  "newCachefileStore cache pfx =
     \<lparr>fs_DB = cache, fs_bucket6 = Is6 (pf_Addr pfx)\<rparr>"

subsubsection \<open>The bucket read as a binding\<close>

definition offsetKey :: string where "offsetKey = ''key-offset-fake-ip''"
definition cycleKey :: string where "cycleKey = ''key-cycle-fake-ip''"

definition valid_host :: "(addr \<Rightarrow> bool) \<Rightarrow> string \<Rightarrow> bool" where
  "valid_host u h \<longleftrightarrow> h \<noteq> [] \<and> h \<noteq> offsetKey \<and> h \<noteq> cycleKey \<and> (\<forall>ip. u ip \<longrightarrow> AsSlice ip \<noteq> h)"

definition bucket_ok :: "(addr \<Rightarrow> bool) \<Rightarrow> bolt_bucket \<Rightarrow> bool" where
  "bucket_ok u b \<longleftrightarrow> mget b [] = None \<and>
     (\<forall>h ip. valid_host u h \<longrightarrow> u ip \<longrightarrow> (mget b h = Some (AsSlice ip) \<longleftrightarrow> mget b (AsSlice ip) = Some h)) \<and>
     (\<forall>h v. valid_host u h \<longrightarrow> mget b h = Some v \<longrightarrow> (\<exists>ip. u ip \<and> v = AsSlice ip)) \<and>
     (\<forall>ip h. u ip \<longrightarrow> mget b (AsSlice ip) = Some h \<longrightarrow> valid_host u h) \<and>
     (\<forall>v. mget b offsetKey = Some v \<longrightarrow> (\<exists>a. v = AsSlice a \<and> zoneless a \<and> (u a \<or> u (addr_Next a))))"

definition contents :: "FakeIpStore \<Rightarrow> bolt_bucket" where
  "contents c = CreateBucketIfNotExists (fs_Bucket c)"

definition cf_ok :: "bolt_commit \<Rightarrow> (addr \<Rightarrow> bool) \<Rightarrow> FakeIpStore \<Rightarrow> bool" where
  "cf_ok commit u c \<longleftrightarrow> bolt_reliable commit \<and> (\<forall>ip. u ip \<longrightarrow> zoneless ip) \<and> fs_DB c \<noteq> None \<and>
     (\<forall>ip. u ip \<longrightarrow> fs_bucket6 c = Is6 ip) \<and> bucket_ok u (contents c)"

definition cf_hosts :: "FakeIpStore \<Rightarrow> string \<Rightarrow> addr option" where
  "cf_hosts c h = cf_GetByHost h c"

definition cf_ips :: "FakeIpStore \<Rightarrow> addr \<Rightarrow> string option" where
  "cf_ips c ip = cf_GetByIP ip c"

lemma cf_contents: "cf_GetByIP ip c = mget (contents c) (AsSlice ip)"
  "cf_GetByHost h c = Option.bind (mget (contents c) h) AddrFromSlice"
  by (auto simp: cf_GetByIP_def cf_GetByHost_def contents_def CreateBucketIfNotExists_def split: option.splits)

lemma Batch_commits:
  assumes "bolt_reliable commit" "fs_DB c \<noteq> None" "\<And>b. f (fs_Bucket c) = Some b \<Longrightarrow> mget b [] = None"
  shows "fst (fs_Batch commit f c)" "fs_DB (snd (fs_Batch commit f c)) \<noteq> None"
    "fs_Bucket (snd (fs_Batch commit f c)) = f (fs_Bucket c)" "fs_bucket6 (snd (fs_Batch commit f c)) = fs_bucket6 c"
  using assms by (auto simp: fs_Batch_def bolt_reliable_def Let_def) (auto simp: fs_Bucket_def)

lemma valid_not_slice: "valid_host u h \<Longrightarrow> u ip \<Longrightarrow> AsSlice ip \<noteq> h" "valid_host u h \<Longrightarrow> h \<noteq> []"
  by (auto simp: valid_host_def)

lemma slice_nonempty: "zoneless ip \<Longrightarrow> AsSlice ip \<noteq> []"
  using AsSlice_length by force

lemma cf_hosts_iff:
  assumes "cf_ok commit u c" "valid_host u h"
  shows "cf_hosts c h = Some ip \<longleftrightarrow> u ip \<and> mget (contents c) h = Some (AsSlice ip)"
proof
  assume l: "cf_hosts c h = Some ip"
  then obtain v where v: "mget (contents c) h = Some v" "AddrFromSlice v = Some ip"
    by (auto simp: cf_hosts_def cf_contents split: bind_splits)
  with assms obtain i where i: "u i" "v = AsSlice i"
    unfolding cf_ok_def bucket_ok_def by blast
  with assms v AsSlice_roundtrip show "u ip \<and> mget (contents c) h = Some (AsSlice ip)" by (auto simp: cf_ok_def)
next
  assume "u ip \<and> mget (contents c) h = Some (AsSlice ip)"
  with assms AsSlice_roundtrip show "cf_hosts c h = Some ip" by (auto simp: cf_hosts_def cf_contents cf_ok_def)
qed

lemma slice_not_key: "zoneless ip \<Longrightarrow> AsSlice ip \<noteq> offsetKey \<and> AsSlice ip \<noteq> cycleKey"
  using AsSlice_length [of ip] by (auto simp: offsetKey_def cycleKey_def)

text \<open>Replacing the contents of the bucket by contents that are again a binding.\<close>

lemma cf_write:
  assumes ok: "cf_ok commit u c" and b: "f (fs_Bucket c) = Some b" "bucket_ok u b"
  shows "cf_ok commit u (snd (fs_Batch commit f c))" "contents (snd (fs_Batch commit f c)) = b"
  using Batch_commits [of commit c f] ok b
  by (auto simp: cf_ok_def bucket_ok_def [of u b] contents_def CreateBucketIfNotExists_def)

lemma bucket_okD:
  assumes "bucket_ok u b"
  shows "mget b [] = None"
    "valid_host u h \<Longrightarrow> u ip \<Longrightarrow> mget b h = Some (AsSlice ip) \<longleftrightarrow> mget b (AsSlice ip) = Some h"
    "valid_host u h \<Longrightarrow> mget b h = Some v \<Longrightarrow> \<exists>ip. u ip \<and> v = AsSlice ip"
    "u ip \<Longrightarrow> mget b (AsSlice ip) = Some h \<Longrightarrow> valid_host u h"
    "mget b offsetKey = Some v \<Longrightarrow> \<exists>a. v = AsSlice a \<and> zoneless a \<and> (u a \<or> u (addr_Next a))"
  using assms unfolding bucket_ok_def by blast+

lemma bucket_ok_bind:
  assumes ok: "bucket_ok u b" and u: "\<forall>ip. u ip \<longrightarrow> zoneless ip" and new: "valid_host u h" "u ip"
    and free: "mget b (AsSlice ip) = None" "mget b h = None"
  shows "bucket_ok u (mset' h (AsSlice ip) (mset' (AsSlice ip) h b))"
proof -
  have g: "mget (mset' h (AsSlice ip) (mset' (AsSlice ip) h b)) = (mget b)(AsSlice ip \<mapsto> h, h \<mapsto> AsSlice ip)"
    by (simp add: update_conv')
  have s: "AsSlice i = AsSlice ip \<longleftrightarrow> i = ip" if "u i" for i using AsSlice_inj u that new(2) by simp
  have both: "mget b h' = Some (AsSlice i) \<longleftrightarrow> mget b (AsSlice i) = Some h'" if "valid_host u h'" "u i" for h' i
    using bucket_okD(2) [OF ok that] .
  note ne = valid_not_slice [of u] slice_nonempty
  show ?thesis
    unfolding bucket_ok_def g
  proof (intro conjI allI impI)
    show "((mget b)(AsSlice ip \<mapsto> h, h \<mapsto> AsSlice ip)) [] = None"
      using bucket_okD(1) [OF ok] ne(2) [OF new(1)] slice_nonempty [of ip] u new(2) by simp
    show "(((mget b)(AsSlice ip \<mapsto> h, h \<mapsto> AsSlice ip)) h' = Some (AsSlice i)) =
        (((mget b)(AsSlice ip \<mapsto> h, h \<mapsto> AsSlice ip)) (AsSlice i) = Some h')" if "valid_host u h'" "u i" for h' i
      using that ne(1) [OF that(1)] ne(1) [OF new(1)] s [OF that(2)] both [OF that] both [OF new(1) that(2)] both [OF that(1) new(2)]
        new(2) free by (auto simp: eq_commute [of _ "AsSlice ip"] eq_commute [of h])
    show "\<exists>i. u i \<and> v = AsSlice i" if "valid_host u h'" "((mget b)(AsSlice ip \<mapsto> h, h \<mapsto> AsSlice ip)) h' = Some v" for h' v
      using that(2) bucket_okD(3) [OF ok that(1), of v] ne(1) [OF that(1) new(2)] new(2) by (auto split: if_splits)
    show "valid_host u h'" if "u i" "((mget b)(AsSlice ip \<mapsto> h, h \<mapsto> AsSlice ip)) (AsSlice i) = Some h'" for i h'
      using that(2) bucket_okD(4) [OF ok that(1), of h'] ne(1) [OF new(1) that(1)] new(1) by (auto split: if_splits)
    show "\<exists>a. v = AsSlice a \<and> zoneless a \<and> (u a \<or> u (addr_Next a))"
      if "((mget b)(AsSlice ip \<mapsto> h, h \<mapsto> AsSlice ip)) offsetKey = Some v" for v
      using that bucket_okD(5) [OF ok, of v] slice_not_key [of ip] u new by (simp add: valid_host_def split: if_splits)
  qed
qed

lemma bucket_ok_unbind:
  assumes ok: "bucket_ok u b" and u: "\<forall>ip. u ip \<longrightarrow> zoneless ip" and ip: "u ip"
  defines "b' \<equiv> (case mget b (AsSlice ip) of None \<Rightarrow> mdel (AsSlice ip) b
    | Some h \<Rightarrow> if length h > 0 then mdel h (mdel (AsSlice ip) b) else mdel (AsSlice ip) b)"
  shows "bucket_ok u b'" "u i \<Longrightarrow> mget b' (AsSlice i) = (if i = ip then None else mget b (AsSlice i))"
proof -
  have s: "AsSlice i = AsSlice ip \<longleftrightarrow> i = ip" if "u i" for i using AsSlice_inj u that ip by simp
  have both: "mget b h' = Some (AsSlice i) \<longleftrightarrow> mget b (AsSlice i) = Some h'" if "valid_host u h'" "u i" for h' i
    using bucket_okD(2) [OF ok that] .
  have val: "valid_host u h" if "mget b (AsSlice i) = Some h" "u i" for h i
    using bucket_okD(4) [OF ok that(2,1)] .
  have b': "mget b' k = (if k = AsSlice ip \<or> mget b (AsSlice ip) = Some k then None else mget b k)" for k
    using val [OF _ ip] valid_not_slice(2) [of u]
    by (auto simp: b'_def delete_conv' split: option.splits)
  have here: "mget b' (AsSlice i) = (if i = ip then None else mget b (AsSlice i))" if "u i" for i
    using val [OF _ ip] valid_not_slice(1) [of u _ i] that s [OF that] by (auto simp: b')
  then show "u i \<Longrightarrow> mget b' (AsSlice i) = (if i = ip then None else mget b (AsSlice i))" .
  have there: "mget b' h = (if mget b (AsSlice ip) = Some h then None else mget b h)" if "valid_host u h" for h
    using valid_not_slice(1) [OF that ip] by (auto simp: b')
  show "bucket_ok u b'"
    unfolding bucket_ok_def
  proof (intro conjI allI impI)
    show "mget b' [] = None" using bucket_okD(1) [OF ok] by (simp add: b')
    show "(mget b' h = Some (AsSlice i)) = (mget b' (AsSlice i) = Some h)" if "valid_host u h" "u i" for h i
      using both [OF that] both [OF that(1) ip] s [OF that(2)] by (auto simp: here that there)
    show "\<exists>i. u i \<and> v = AsSlice i" if "valid_host u h" "mget b' h = Some v" for h v
      using that(2) bucket_okD(3) [OF ok that(1), of v] by (simp add: there [OF that(1)] split: if_splits)
    show "valid_host u h" if "u i" "mget b' (AsSlice i) = Some h" for i h
      using that val by (auto simp: here split: if_splits)
    show "\<exists>a. v = AsSlice a \<and> zoneless a \<and> (u a \<or> u (addr_Next a))" if "mget b' offsetKey = Some v" for v
      using that bucket_okD(5) [OF ok, of v] by (simp add: b' split: if_splits)
  qed
qed

lemma cf_put_ok:
  assumes ok: "cf_ok commit u c" and new: "valid_host u h" "u ip" and free: "cf_ips c ip = None" "cf_hosts c h = None"
  defines "c' \<equiv> cf_PutByHost commit h ip (cf_PutByIP commit ip h c)"
  shows "cf_ok commit u c'" "contents c' = mset' h (AsSlice ip) (mset' (AsSlice ip) h (contents c))"
proof -
  let ?b = "mset' (AsSlice ip) h (contents c)"
  have bk: "bucket_ok u (contents c)" and u: "\<forall>ip. u ip \<longrightarrow> zoneless ip" and r: "bolt_reliable commit" "fs_DB c \<noteq> None"
    using ok by (auto simp: cf_ok_def)
  have "mget (contents c) h = None"
    using cf_hosts_iff [OF ok new(1)] free(2) bucket_okD(3) [OF bk new(1)] by (metis not_None_eq)
  moreover have "mget (contents c) (AsSlice ip) = None" using free(1) by (simp add: cf_ips_def cf_contents)
  ultimately have b: "bucket_ok u (mset' h (AsSlice ip) ?b)" using bucket_ok_bind [OF bk u new] by simp
  have "mget ?b [] = None" using bucket_okD(1) [OF bk] slice_nonempty [of ip] u new(2) by (simp add: update_conv')
  note one = Batch_commits [OF r, of "\<lambda>b. Some (mset' (AsSlice ip) h (CreateBucketIfNotExists b))", folded cf_PutByIP_def contents_def, simplified, OF this]
  have c1: "contents (cf_PutByIP commit ip h c) = ?b"
    using one by (simp add: contents_def CreateBucketIfNotExists_def)
  have "mget (mset' h (AsSlice ip) ?b) [] = None" by (rule bucket_okD(1) [OF b])
  note two = Batch_commits [OF r(1), of "cf_PutByIP commit ip h c" "\<lambda>b. Some (mset' h (AsSlice ip) (CreateBucketIfNotExists b))",
      folded cf_PutByHost_def contents_def, simplified c1, simplified, OF _ this]
  have c2: "contents c' = mset' h (AsSlice ip) ?b" "fs_DB c' \<noteq> None"
    using one two
    by (simp_all add: contents_def [of c'], simp_all add: c'_def CreateBucketIfNotExists_def)
  moreover have "fs_bucket6 c' = fs_bucket6 c" using one two by (simp add: c'_def)
  ultimately show "cf_ok commit u c'" "contents c' = mset' h (AsSlice ip) ?b" using ok b by (auto simp: cf_ok_def)
qed

lemma cf_DelByIP_ok:
  assumes ok: "cf_ok commit u c" and ip: "u ip"
  shows "cf_ok commit u (cf_DelByIP commit ip c)"
    "u i \<Longrightarrow> cf_ips (cf_DelByIP commit ip c) i = (if i = ip then None else cf_ips c i)"
proof -
  have b: "bucket_ok u (contents c)" "\<forall>ip. u ip \<longrightarrow> zoneless ip" using ok by (auto simp: cf_ok_def)
  note ub = bucket_ok_unbind [OF b ip]
  note w = cf_write [OF ok _ ub(1), of "\<lambda>b. let bucket = CreateBucketIfNotExists b; host = mget bucket (AsSlice ip); bucket = mdel (AsSlice ip) bucket
            in Some (case host of None \<Rightarrow> bucket | Some h \<Rightarrow> if length h > 0 then mdel h bucket else bucket)",
      folded cf_DelByIP_def contents_def]
  show "cf_ok commit u (cf_DelByIP commit ip c)"
    by (rule w(1)) (unfold Let_def contents_def, rule refl)
  show "u i \<Longrightarrow> cf_ips (cf_DelByIP commit ip c) i = (if i = ip then None else cf_ips c i)"
    using ub(2) [of i] w(2) [unfolded Let_def contents_def, OF refl, folded contents_def] by (simp add: cf_ips_def cf_contents)
qed

text \<open>Reading does not change the file, so the store comes both as it is.\<close>

interpretation cs: fake_store cf_hosts cf_ips "\<lambda>h c. (cf_GetByHost h c, c)" "\<lambda>ip c. (cf_GetByIP ip c, c)"
  "cf_PutByHost commit" "cf_PutByIP commit" "cf_DelByIP commit" cf_Exist "cf_ok commit u" "\<lambda>c. valid_host u" u for commit u
proof
  fix s h ip assume ok: "cf_ok commit u s"
  then have b: "bucket_ok u (contents s)" by (simp add: cf_ok_def)
  show "cf_Exist ip s \<longleftrightarrow> cf_ips s ip \<noteq> None" by (simp add: cf_Exist_def cf_ips_def)
  show "valid_host u h" if "u ip" "cf_ips s ip = Some h"
    using bucket_okD(4) [OF b that(1)] that(2) by (simp add: cf_ips_def cf_contents)
  show "cf_hosts s h = Some ip \<longleftrightarrow> cf_ips s ip = Some h" if "valid_host u h" "u ip"
    using bucket_okD(2) [OF b that] that(2) cf_hosts_iff [OF ok that(1), of ip] by (simp add: cf_ips_def cf_contents)
  show "u ip" if "valid_host u h" "cf_hosts s h = Some ip"
    using cf_hosts_iff [OF ok that(1), of ip] that(2) by simp
  show "cf_ok commit u (cf_PutByHost commit h ip (cf_PutByIP commit ip h s)) \<and> valid_host u = valid_host u \<and>
      cf_ips (cf_PutByHost commit h ip (cf_PutByIP commit ip h s)) ip = Some h \<and>
      (\<forall>i. u i \<longrightarrow> i \<noteq> ip \<longrightarrow> cf_ips (cf_PutByHost commit h ip (cf_PutByIP commit ip h s)) i \<in> {None, cf_ips s i})"
    if "valid_host u h" "u ip" "cf_ips s ip = None" "cf_hosts s h = None"
    using cf_put_ok [OF ok that] valid_not_slice(1) [OF that(1)] AsSlice_inj that(2) ok
    by (auto simp: cf_ips_def cf_contents update_conv' cf_ok_def)
qed (auto simp: cf_DelByIP_ok, simp_all add: cf_hosts_def cf_ips_def)

lemma bucket_ok_empty: "bucket_ok u []"
  by (simp add: bucket_ok_def)

lemma cf_Flush_ok:
  assumes "cf_ok commit u c"
  shows "fst (cf_FlushFakeIP commit c) = FlushOk" "cf_ok commit u (snd (cf_FlushFakeIP commit c))"
    "contents (snd (cf_FlushFakeIP commit c)) = []"
proof -
  have r: "bolt_reliable commit" "fs_DB c \<noteq> None" using assms by (auto simp: cf_ok_def)
  note b = Batch_commits [OF r, of "\<lambda>b. None", simplified]
  have f: "cf_FlushFakeIP commit c = (FlushOk, snd (fs_Batch commit (\<lambda>b. None) c))"
    using b(1) r(2) by (simp add: cf_FlushFakeIP_def case_prod_beta)
  show "fst (cf_FlushFakeIP commit c) = FlushOk" "contents (snd (cf_FlushFakeIP commit c)) = []"
    using b(3) by (simp_all add: f contents_def CreateBucketIfNotExists_def)
  then show "cf_ok commit u (snd (cf_FlushFakeIP commit c))"
    using assms b(2,4) by (auto simp: cf_ok_def f bucket_ok_empty)
qed

text \<open>The state of the pool is kept under two reserved keys.\<close>

lemma cf_reserve_ok:
  assumes ok: "cf_ok commit u c" and k: "k = offsetKey \<and> (u a \<or> u (addr_Next a)) \<and> zoneless a \<or> k = cycleKey"
  shows "cf_ok commit u (cf_PutByHost commit k a c)"
    "contents (cf_PutByHost commit k a c) = mset' k (AsSlice a) (contents c)"
    "u i \<Longrightarrow> cf_ips (cf_PutByHost commit k a c) i = cf_ips c i"
proof -
  have b: "bucket_ok u (contents c)" and u: "\<forall>ip. u ip \<longrightarrow> zoneless ip" using ok by (auto simp: cf_ok_def)
  have key: "k \<noteq> []" "\<not> valid_host u k" "offsetKey \<noteq> cycleKey" "u i \<Longrightarrow> AsSlice i \<noteq> k" for i
    using k slice_not_key u by (auto simp: offsetKey_def cycleKey_def valid_host_def)
  have g: "mget (mset' k (AsSlice a) (contents c)) j = (if j = k then Some (AsSlice a) else mget (contents c) j)" for j
    by (simp add: update_conv')
  have new: "bucket_ok u (mset' k (AsSlice a) (contents c))"
    unfolding bucket_ok_def
  proof (intro conjI allI impI)
    show "mget (mset' k (AsSlice a) (contents c)) [] = None" using bucket_okD(1) [OF b] key(1) by (simp add: g)
    show "(mget (mset' k (AsSlice a) (contents c)) h = Some (AsSlice ip)) = (mget (mset' k (AsSlice a) (contents c)) (AsSlice ip) = Some h)"
      if "valid_host u h" "u ip" for h ip
      using bucket_okD(2) [OF b that] that key(2,4) by (auto simp: g)
    show "\<exists>ip. u ip \<and> v = AsSlice ip" if "valid_host u h" "mget (mset' k (AsSlice a) (contents c)) h = Some v" for h v
      using that bucket_okD(3) [OF b that(1), of v] key(2) by (auto simp: g split: if_splits)
    show "valid_host u h" if "u ip" "mget (mset' k (AsSlice a) (contents c)) (AsSlice ip) = Some h" for ip h
      using that bucket_okD(4) [OF b that(1), of h] key(4) by (auto simp: g split: if_splits)
    show "\<exists>a. v = AsSlice a \<and> zoneless a \<and> (u a \<or> u (addr_Next a))"
      if "mget (mset' k (AsSlice a) (contents c)) offsetKey = Some v" for v
      using that bucket_okD(5) [OF b, of v] k key(3) by (auto simp: g split: if_splits)
  qed
  note w = cf_write [OF ok _ new, of "\<lambda>b. Some (mset' k (AsSlice a) (CreateBucketIfNotExists b))", folded cf_PutByHost_def contents_def, OF refl]
  show "cf_ok commit u (cf_PutByHost commit k a c)"
    "contents (cf_PutByHost commit k a c) = mset' k (AsSlice a) (contents c)" by (rule w)+
  with key(4) show "u i \<Longrightarrow> cf_ips (cf_PutByHost commit k a c) i = cf_ips c i" by (simp add: cf_ips_def cf_contents g)
qed

end
