(* ===== verification/Fakeip_Pool.thy ===== *)
theory Fakeip_Pool
  imports Fakeip_Store
begin

section \<open>Fake IP: the pool\<close>

text \<open>
  \<^verbatim>\<open>component/fakeip/pool.go\<close>: a pool hands out the addresses of a prefix to host names in turn, starts
  again at the first one when it has come to the end, and keeps the binding in one of the two stores. The lower-case
  conversion, \<^verbatim>\<open>netipx.PrefixLastIP\<close> and the commits of the database are fields of \<open>pool_lib\<close>.

  The operations are followed by the interface of the stores for the value of the interface type, the range
  of a pool, and the invariant that every operation keeps: the allocation state lies in the range, and the store is a
  one-to-one binding between hosts and addresses of the range. Reachable pools are those that starting with an empty file,
  restarting on the file of a pool with the same options, lookups, flushes, reloads and storing the state lead to.
\<close>

subsection \<open>Prefixes\<close>

definition prefix_IsValid :: "nprefix \<Rightarrow> bool" where
  "prefix_IsValid p =
     (case pf_Addr p of InvalidAddr \<Rightarrow> False | V4 _ \<Rightarrow> pf_Bits p \<le> 32 | V6 _ zone \<Rightarrow> zone = [] \<and> pf_Bits p \<le> 128)"

subsection \<open>The store of a pool\<close>

datatype pool_store = Memory memoryStore | Cachefile FakeIpStore

fun st_GetByHost :: "string \<Rightarrow> pool_store \<Rightarrow> addr option \<times> pool_store" where
  "st_GetByHost host (Memory m) = (case mem_GetByHost host m of (r, m') \<Rightarrow> (r, Memory m'))"
| "st_GetByHost host (Cachefile c) = (cf_GetByHost host c, Cachefile c)"

fun st_PutByHost :: "bolt_commit \<Rightarrow> string \<Rightarrow> addr \<Rightarrow> pool_store \<Rightarrow> pool_store" where
  "st_PutByHost commit host ip (Memory m) = Memory (mem_PutByHost host ip m)"
| "st_PutByHost commit host ip (Cachefile c) = Cachefile (cf_PutByHost commit host ip c)"

fun st_GetByIP :: "addr \<Rightarrow> pool_store \<Rightarrow> string option \<times> pool_store" where
  "st_GetByIP ip (Memory m) = (case mem_GetByIP ip m of (r, m') \<Rightarrow> (r, Memory m'))"
| "st_GetByIP ip (Cachefile c) = (cf_GetByIP ip c, Cachefile c)"

fun st_PutByIP :: "bolt_commit \<Rightarrow> addr \<Rightarrow> string \<Rightarrow> pool_store \<Rightarrow> pool_store" where
  "st_PutByIP commit ip host (Memory m) = Memory (mem_PutByIP ip host m)"
| "st_PutByIP commit ip host (Cachefile c) = Cachefile (cf_PutByIP commit ip host c)"

fun st_DelByIP :: "bolt_commit \<Rightarrow> addr \<Rightarrow> pool_store \<Rightarrow> pool_store" where
  "st_DelByIP commit ip (Memory m) = Memory (mem_DelByIP ip m)"
| "st_DelByIP commit ip (Cachefile c) = Cachefile (cf_DelByIP commit ip c)"

fun st_Exist :: "addr \<Rightarrow> pool_store \<Rightarrow> bool" where
  "st_Exist ip (Memory m) = mem_Exist ip m"
| "st_Exist ip (Cachefile c) = cf_Exist ip c"

fun st_CloneTo :: "pool_store \<Rightarrow> pool_store \<Rightarrow> pool_store" where
  "st_CloneTo (Memory m) (Memory n) = Memory (mem_CloneTo m n)"
| "st_CloneTo m n = n"

fun st_FlushFakeIP :: "bolt_commit \<Rightarrow> pool_store \<Rightarrow> flush_result \<times> pool_store" where
  "st_FlushFakeIP commit (Memory m) = (FlushOk, Memory (mem_FlushFakeIP m))"
| "st_FlushFakeIP commit (Cachefile c) = (case cf_FlushFakeIP commit c of (r, c') \<Rightarrow> (r, Cachefile c'))"

subsection \<open>The pool\<close>

record Pool =
  po_gateway :: addr
  po_first :: addr
  po_last :: addr
  po_offset :: addr
  po_cycle :: bool
  po_ipnet :: nprefix
  po_store :: pool_store

record pool_lib =
  pl_commit :: bolt_commit
  pl_PrefixLastIP :: "nprefix \<Rightarrow> addr"
  pl_ToLower :: "string \<Rightarrow> string"

record fakeip_Options =
  op_IPNet :: nprefix
  op_Size :: int
  op_Persistence :: bool

definition pool_get :: "pool_lib \<Rightarrow> string \<Rightarrow> Pool \<Rightarrow> addr \<times> Pool" where
  "pool_get lib host p =
     (let p = p\<lparr>po_offset := addr_Next (po_offset p)\<rparr>;
          p = (if \<not> addr_Less (po_offset p) (po_last p) then p\<lparr>po_cycle := True, po_offset := po_first p\<rparr> else p);
          p = (if po_cycle p \<or> st_Exist (po_offset p) (po_store p)
               then p\<lparr>po_store := st_DelByIP (pl_commit lib) (po_offset p) (po_store p)\<rparr> else p);
          p = p\<lparr>po_store := st_PutByIP (pl_commit lib) (po_offset p) host (po_store p)\<rparr>
      in (po_offset p, p))"

definition Lookup :: "pool_lib \<Rightarrow> string \<Rightarrow> Pool \<Rightarrow> addr \<times> Pool" where
  "Lookup lib host p =
     (let host = pl_ToLower lib host; (r, st) = st_GetByHost host (po_store p); p = p\<lparr>po_store := st\<rparr> in
      case r of Some ip \<Rightarrow> (ip, p)
      | None \<Rightarrow>
          let (ip, p) = pool_get lib host p
          in (ip, p\<lparr>po_store := st_PutByHost (pl_commit lib) host ip (po_store p)\<rparr>))"

definition LookBack :: "addr \<Rightarrow> Pool \<Rightarrow> string option \<times> Pool" where
  "LookBack ip p = (let (r, st) = st_GetByIP ip (po_store p) in (r, p\<lparr>po_store := st\<rparr>))"

definition pool_Exist :: "addr \<Rightarrow> Pool \<Rightarrow> bool" where
  "pool_Exist ip p = st_Exist ip (po_store p)"

definition pool_FlushFakeIP :: "pool_lib \<Rightarrow> Pool \<Rightarrow> flush_result \<times> Pool" where
  "pool_FlushFakeIP lib p =
     (let (err, st) = st_FlushFakeIP (pl_commit lib) (po_store p); p = p\<lparr>po_store := st\<rparr> in
      (err, if err = FlushOk then p\<lparr>po_cycle := False, po_offset := addr_Prev (po_first p)\<rparr> else p))"

text \<open>The result is absent where the flush of the store panics.\<close>

definition CloneFrom :: "pool_lib \<Rightarrow> Pool \<Rightarrow> Pool \<Rightarrow> Pool option" where
  "CloneFrom lib old p =
     (let p = p\<lparr>po_store := st_CloneTo (po_store old) (po_store p)\<rparr> in
      if po_first old = po_first p \<and> po_last old = po_last p
      then Some (p\<lparr>po_offset := po_offset old, po_cycle := po_cycle old\<rparr>)
      else (case st_FlushFakeIP (pl_commit lib) (po_store p) of
              (FlushPanics, _) \<Rightarrow> None
            | (_, st) \<Rightarrow> Some (p\<lparr>po_store := st, po_offset := addr_Prev (po_first p), po_cycle := False\<rparr>)))"

definition StoreState :: "pool_lib \<Rightarrow> Pool \<Rightarrow> Pool" where
  "StoreState lib p =
     (case po_store p of
        Memory _ \<Rightarrow> p
      | Cachefile s \<Rightarrow>
          let s = cf_PutByHost (pl_commit lib) offsetKey (po_offset p) s;
              s = (if po_cycle p then cf_PutByHost (pl_commit lib) cycleKey (po_offset p) s else s)
          in p\<lparr>po_store := Cachefile s\<rparr>)"

definition restoreState :: "pool_lib \<Rightarrow> Pool \<Rightarrow> Pool" where
  "restoreState lib p =
     (case po_store p of
        Memory _ \<Rightarrow> p
      | Cachefile s \<Rightarrow>
          let p = (if cf_GetByHost cycleKey s \<noteq> None then p\<lparr>po_cycle := True\<rparr> else p) in
          (case cf_GetByHost offsetKey s of
             Some offset \<Rightarrow>
               if prefix_contains (po_ipnet p) offset then p\<lparr>po_offset := offset\<rparr> else snd (pool_FlushFakeIP lib p)
           | None \<Rightarrow> if cf_Exist (po_first p) s then snd (pool_FlushFakeIP lib p) else p))"

text \<open>The constructor; the argument \<open>cache\<close> is the database of \<^verbatim>\<open>cachefile.Cache()\<close>.\<close>

definition fakeip_New :: "pool_lib \<Rightarrow> CacheFile option \<Rightarrow> fakeip_Options \<Rightarrow> Pool option" where
  "fakeip_New lib cache options =
     (let hostAddr = pf_Addr (Masked (op_IPNet options));
          gateway = addr_Next hostAddr;
          first = addr_Next (addr_Next (addr_Next gateway));
          last = pl_PrefixLastIP lib (op_IPNet options) in
      if \<not> prefix_IsValid (op_IPNet options) \<or> first = InvalidAddr \<or> \<not> addr_Less first last then None
      else Some (restoreState lib
        \<lparr>po_gateway = gateway, po_first = first, po_last = last, po_offset = addr_Prev first, po_cycle = False,
         po_ipnet = op_IPNet options,
         po_store = (if op_Persistence options then Cachefile (newCachefileStore cache (op_IPNet options))
                     else Memory (newMemoryStore (op_Size options)))\<rparr>))"

subsection \<open>The two stores behind one interface\<close>

fun st_hosts :: "pool_store \<Rightarrow> string \<Rightarrow> addr option" where
  "st_hosts (Memory m) = mem_hosts m"
| "st_hosts (Cachefile c) = cf_hosts c"

fun st_ips :: "pool_store \<Rightarrow> addr \<Rightarrow> string option" where
  "st_ips (Memory m) = mem_ips m"
| "st_ips (Cachefile c) = cf_ips c"

fun st_ok :: "bolt_commit \<Rightarrow> (addr \<Rightarrow> bool) \<Rightarrow> pool_store \<Rightarrow> bool" where
  "st_ok commit u (Memory m) \<longleftrightarrow> mem_ok u m"
| "st_ok commit u (Cachefile c) \<longleftrightarrow> cf_ok commit u c"

fun st_valid :: "(addr \<Rightarrow> bool) \<Rightarrow> pool_store \<Rightarrow> string \<Rightarrow> bool" where
  "st_valid u (Memory m) = (\<lambda>h. True)"
| "st_valid u (Cachefile c) = valid_host u"

interpretation ps: fake_store st_hosts st_ips st_GetByHost st_GetByIP "st_PutByHost commit" "st_PutByIP commit"
  "st_DelByIP commit" st_Exist "st_ok commit u" "st_valid u" u for commit u
proof
  fix s h ip assume ok: "st_ok commit u s"
  show "fst (st_GetByHost h s) = st_hosts s h" if "st_valid u s h"
    using ok that ms.byHost_finds [of u _ h] by (cases s) (auto simp: case_prod_beta cf_hosts_def)
  show "st_ok commit u (snd (st_GetByHost h s)) \<and> st_ips (snd (st_GetByHost h s)) = st_ips s \<and>
      st_valid u (snd (st_GetByHost h s)) = st_valid u s"
    using ok ms.byHost_keeps [of u _ h] by (cases s) (auto simp: case_prod_beta)
  show "fst (st_GetByIP ip s) = st_ips s ip" if "u ip"
    using ok that ms.byIP_finds [of u _ ip] by (cases s) (auto simp: case_prod_beta cf_ips_def)
  show "st_ok commit u (snd (st_GetByIP ip s)) \<and> st_ips (snd (st_GetByIP ip s)) = st_ips s \<and>
      st_valid u (snd (st_GetByIP ip s)) = st_valid u s"
    using ok ms.byIP_keeps [of u _ ip] by (cases s) (auto simp: case_prod_beta)
  show "st_Exist ip s \<longleftrightarrow> st_ips s ip \<noteq> None" if "u ip"
    using ok that by (cases s) (simp_all add: ms.exist_iff cs.exist_iff del: not_None_eq)
  show "st_hosts s h = Some ip \<longleftrightarrow> st_ips s ip = Some h" if "st_valid u s h" "u ip"
    using ok that by (cases s) (simp_all add: mem_inverse cs.inverse)
  show "u ip" if "st_valid u s h" "st_hosts s h = Some ip"
    using ok that ms.host_usable [of u _ h ip] cs.host_usable [of commit u _ h ip] by (cases s) auto
  show "st_valid u s h" if "u ip" "st_ips s ip = Some h"
    using ok that cs.ip_valid [of commit u _ ip h] by (cases s) auto
  show "st_ok commit u (st_DelByIP commit ip s) \<and> st_valid u (st_DelByIP commit ip s) = st_valid u s \<and>
      (\<forall>i. u i \<longrightarrow> st_ips (st_DelByIP commit ip s) i = (if i = ip then None else st_ips s i))" if "u ip"
    using ok that ms.delIP_spec [of u _ ip] cs.delIP_spec [of commit u _ ip] by (cases s) auto
  show "st_ok commit u (st_PutByHost commit h ip (st_PutByIP commit ip h s)) \<and>
      st_valid u (st_PutByHost commit h ip (st_PutByIP commit ip h s)) = st_valid u s \<and>
      st_ips (st_PutByHost commit h ip (st_PutByIP commit ip h s)) ip = Some h \<and>
      (\<forall>i. u i \<longrightarrow> i \<noteq> ip \<longrightarrow> st_ips (st_PutByHost commit h ip (st_PutByIP commit ip h s)) i \<in> {None, st_ips s i})"
    if "st_valid u s h" "u ip" "st_ips s ip = None" "st_hosts s h = None"
    using ok that ms.put_spec [where u = u and h = h and ip = ip] cs.put_spec [where commit = commit and u = u and h = h and ip = ip] by (cases s) auto
qed

lemma st_Flush_ok:
  assumes "st_ok commit u s"
  shows "fst (st_FlushFakeIP commit s) = FlushOk" "st_ok commit u (snd (st_FlushFakeIP commit s))"
  using assms cf_Flush_ok [of commit u] mem_Flush_ok(1) [of u _ u]
  by (cases s; auto simp: case_prod_beta)+

subsection \<open>The range of a pool\<close>

definition in_range :: "addr \<Rightarrow> addr \<Rightarrow> addr \<Rightarrow> bool" where
  "in_range lo hi ip \<longleftrightarrow>
     (case (lo, hi, ip) of
        (V4 a, V4 b, V4 x) \<Rightarrow> a \<le> x \<and> x < b
      | (V6 a za, V6 b zb, V6 x z) \<Rightarrow> za = [] \<and> zb = [] \<and> z = [] \<and> a \<le> x \<and> x < b
      | _ \<Rightarrow> False)"

abbreviation usable :: "Pool \<Rightarrow> addr \<Rightarrow> bool" where
  "usable p \<equiv> in_range (po_first p) (po_last p)"

definition pool_wf :: "Pool \<Rightarrow> bool" where
  "pool_wf p \<longleftrightarrow> usable p (po_first p) \<and> addr_Prev (po_first p) \<noteq> InvalidAddr \<and>
     (po_offset p = addr_Prev (po_first p) \<or> usable p (po_offset p)) \<and>
     prefix_contains (po_ipnet p) (addr_Prev (po_first p)) \<and>
     (\<forall>ip. usable p ip \<longrightarrow> prefix_contains (po_ipnet p) ip \<and> ip \<noteq> po_gateway p)"

definition pool_inv :: "pool_lib \<Rightarrow> Pool \<Rightarrow> bool" where
  "pool_inv lib p \<longleftrightarrow> pool_wf p \<and> st_ok (pl_commit lib) (usable p) (po_store p)"

lemma range_zoneless: "in_range a b ip \<Longrightarrow> zoneless ip"
  by (auto simp: in_range_def split: addr.splits)

lemma word_prev: "a \<noteq> 0 \<Longrightarrow> a < b \<Longrightarrow> a - 1 < b" for a b :: "'a::len word"
  by (metis measure_unat word_less_nat_alt order.strict_trans)

lemma word_next:
  fixes x b :: "'a::len word"
  assumes "x < b"
  shows "x + 1 \<noteq> 0" "a \<le> x \<Longrightarrow> a \<le> x + 1"
proof -
  show ne: "x + 1 \<noteq> 0"
  proof
    assume "x + 1 = 0"
    then have "x = - 1" by (simp add: eq_neg_iff_add_eq_0)
    with assms show False by (simp add: not_less)
  qed
  then have "unat (1 + x) = Suc (unat x)" by (intro unatSuc) (simp add: add.commute)
  then show "a \<le> x \<Longrightarrow> a \<le> x + 1" by (simp add: word_le_nat_alt add.commute)
qed

text \<open>The address a pool tries next: the one after the last, or the first of the range.\<close>

definition next_offset :: "Pool \<Rightarrow> addr" where
  "next_offset p =
     (if addr_Less (addr_Next (po_offset p)) (po_last p) then addr_Next (po_offset p) else po_first p)"

lemma next_offset_usable:
  assumes "pool_wf p"
  shows "usable p (next_offset p)"
proof (cases "po_first p")
  case (V4 a)
  with assms obtain b where b: "po_last p = V4 b" "a < b" "a \<noteq> 0"
    by (auto simp: pool_wf_def in_range_def split: addr.splits if_splits)
  obtain x where x: "po_offset p = V4 x" "x < b" "a \<le> x + 1"
  proof (cases "po_offset p = addr_Prev (po_first p)")
    case True
    with V4 b have "po_offset p = V4 (a - 1)" "a - 1 < b" by (auto intro: word_prev)
    then show thesis using that [of "a - 1"] by simp
  next
    case False
    with assms V4 b obtain x where "po_offset p = V4 x" "a \<le> x" "x < b"
      by (auto simp: pool_wf_def in_range_def split: addr.splits)
    then show thesis using that word_next(2) by blast
  qed
  with V4 b word_next(1) [OF x(2)] show ?thesis by (auto simp: next_offset_def in_range_def)
next
  case (V6 a za)
  with assms obtain b where b: "po_last p = V6 b []" "a < b" "a \<noteq> 0" "za = []"
    by (auto simp: pool_wf_def in_range_def split: addr.splits if_splits)
  obtain x where x: "po_offset p = V6 x []" "x < b" "a \<le> x + 1"
  proof (cases "po_offset p = addr_Prev (po_first p)")
    case True
    with V6 b have "po_offset p = V6 (a - 1) []" "a - 1 < b" by (auto intro: word_prev)
    then show thesis using that [of "a - 1"] by simp
  next
    case False
    with assms V6 b obtain x where "po_offset p = V6 x []" "a \<le> x" "x < b"
      by (auto simp: pool_wf_def in_range_def split: addr.splits)
    then show thesis using that word_next(2) by blast
  qed
  with V6 b word_next(1) [OF x(2)] show ?thesis by (auto simp: next_offset_def in_range_def)
qed (use assms in \<open>simp add: pool_wf_def\<close>)

subsection \<open>The range of a new pool\<close>

text \<open>What the pool relies on of \<^verbatim>\<open>netipx.PrefixLastIP\<close>: the last address of a prefix lies in it.\<close>

definition netipx_ok :: "pool_lib \<Rightarrow> bool" where
  "netipx_ok lib \<longleftrightarrow> (\<forall>p. prefix_IsValid p \<longrightarrow> prefix_contains p (pl_PrefixLastIP lib p))"

lemma mask_between:
  fixes w x b :: "'a::len word"
  assumes "mask_word n bits w \<le> x" "x \<le> b" "mask_word n bits w = mask_word n bits b"
  shows "mask_word n bits w = mask_word n bits x"
proof -
  let ?k = "n - bits"
  have drop: "drop_bit ?k (mask_word n bits v) = drop_bit ?k v" for v :: "'a word"
    by (rule bit_word_eqI) (auto simp: mask_word_def bit_simps dest: bit_imp_le_length)
  have mono: "drop_bit ?k u \<le> drop_bit ?k v" if "u \<le> v" for u v :: "'a word"
  proof -
    have "unat (drop_bit ?k v) = unat v div 2 ^ ?k" for v :: "'a word" by (metis unat_drop_bit_eq drop_bit_eq_div)
    with that show ?thesis by (simp add: word_le_nat_alt div_le_mono)
  qed
  have "drop_bit ?k w = drop_bit ?k b" using assms(3) drop by metis
  with mono [OF assms(1)] mono [OF assms(2)] have "drop_bit ?k x = drop_bit ?k w" by (simp add: drop)
  then show ?thesis by (simp add: mask_word_def)
qed

lemma word_inc: "x + 1 \<noteq> 0 \<Longrightarrow> x < x + 1" for x :: "'a::len word"
  using unatSuc [of x] by (simp add: word_less_nat_alt add.commute)

lemma Next_valid:
  "addr_Next (V4 v) \<noteq> InvalidAddr \<Longrightarrow> \<exists>x. addr_Next (V4 v) = V4 x \<and> v < x \<and> x - 1 = v \<and> x \<noteq> 0"
  "addr_Next (V6 w z) \<noteq> InvalidAddr \<Longrightarrow> \<exists>x. addr_Next (V6 w z) = V6 x z \<and> w < x \<and> x - 1 = w \<and> x \<noteq> 0"
  using word_inc [of v] word_inc [of w] by (auto split: if_splits)

lemma Next_invalid: "addr_Next a \<noteq> InvalidAddr \<Longrightarrow> a \<noteq> InvalidAddr"
  by auto

lemma four_steps:
  assumes "addr_Next (addr_Next (addr_Next (addr_Next a))) \<noteq> InvalidAddr"
  shows "a = V4 h \<Longrightarrow> \<exists>g f. addr_Next a = V4 g \<and> addr_Next (addr_Next (addr_Next (V4 g))) = V4 f \<and>
      h \<le> f - 1 \<and> f - 1 < f \<and> g < f \<and> f \<noteq> 0"
    "a = V6 k [] \<Longrightarrow> \<exists>g f. addr_Next a = V6 g [] \<and> addr_Next (addr_Next (addr_Next (V6 g []))) = V6 f [] \<and>
      k \<le> f - 1 \<and> f - 1 < f \<and> g < f \<and> f \<noteq> 0"
proof -
  note v3 = Next_invalid [OF assms] and v2 = Next_invalid [OF Next_invalid [OF assms]]
    and v1 = Next_invalid [OF Next_invalid [OF Next_invalid [OF assms]]]
  {
    assume a: "a = V4 h"
    obtain g where g: "addr_Next a = V4 g" "h < g" using Next_valid(1) v1 a by blast
    obtain x where x: "addr_Next (V4 g) = V4 x" "g < x" using Next_valid(1) v2 g by metis
    obtain y where y: "addr_Next (V4 x) = V4 y" "x < y" using Next_valid(1) v3 g x by metis
    obtain f where f: "addr_Next (V4 y) = V4 f" "y < f" "f - 1 = y" "f \<noteq> 0" using Next_valid(1) assms g x y by metis
    have "h \<le> f - 1" "f - 1 < f" "g < f" using g(2) x(2) y(2) f(2,3) by auto
    with g x y f show "\<exists>g f. addr_Next a = V4 g \<and> addr_Next (addr_Next (addr_Next (V4 g))) = V4 f \<and>
      h \<le> f - 1 \<and> f - 1 < f \<and> g < f \<and> f \<noteq> 0" by metis
  }
  {
    assume a: "a = V6 k []"
    obtain g where g: "addr_Next a = V6 g []" "k < g" using Next_valid(2) v1 a by blast
    obtain x where x: "addr_Next (V6 g []) = V6 x []" "g < x" using Next_valid(2) v2 g by metis
    obtain y where y: "addr_Next (V6 x []) = V6 y []" "x < y" using Next_valid(2) v3 g x by metis
    obtain f where f: "addr_Next (V6 y []) = V6 f []" "y < f" "f - 1 = y" "f \<noteq> 0" using Next_valid(2) assms g x y by metis
    have "k \<le> f - 1" "f - 1 < f" "g < f" using g(2) x(2) y(2) f(2,3) by auto
    with g x y f show "\<exists>g f. addr_Next a = V6 g [] \<and> addr_Next (addr_Next (addr_Next (V6 g []))) = V6 f [] \<and>
      k \<le> f - 1 \<and> f - 1 < f \<and> g < f \<and> f \<noteq> 0" by metis
  }
qed

lemma new_range_V4:
  assumes inside: "prefix_contains n l" and n: "pf_Addr n = V4 w"
    and g: "g = addr_Next (pf_Addr (Masked n))" and f: "f = addr_Next (addr_Next (addr_Next g))"
    and fl: "f \<noteq> InvalidAddr" "addr_Less f l"
  shows "in_range f l f \<and> addr_Prev f \<noteq> InvalidAddr \<and> prefix_contains n (addr_Prev f) \<and>
    (\<forall>ip. in_range f l ip \<longrightarrow> prefix_contains n ip \<and> ip \<noteq> g)"
proof -
  let ?m = "mask_word 32 (pf_Bits n)"
  obtain b where b: "l = V4 b" "?m w = ?m b"
    using inside by (auto simp: n split: addr.splits)
  have "pf_Addr (Masked n) = V4 (?m w)" by (simp add: Masked_def n)
  from four_steps(1) [OF fl(1) [unfolded f g] this] obtain x y where
    x: "g = V4 x" "f = V4 y" "?m w \<le> y - 1" "y - 1 < y" "x < y" "y \<noteq> 0"
    unfolding f g by metis
  have lt: "y < b" using fl(2) by (simp add: x b)
  have ctn: "?m w = ?m v" if "y - 1 \<le> v" "v < b" for v
    using mask_between [OF order.trans [OF x(3) that(1)] less_imp_le [OF that(2)] b(2)] .
  have rng: "in_range f l ip \<longleftrightarrow> (\<exists>v. ip = V4 v \<and> y \<le> v \<and> v < b)" for ip
    by (cases ip) (simp_all add: x(2) b(1) in_range_def)
  have pv: "addr_Prev f = V4 (y - 1)" using x(6) by (simp add: x(2))
  have "prefix_contains n (V4 (y - 1))" using ctn [of "y - 1"] x(4) lt by (simp add: n)
  moreover have "prefix_contains n ip \<and> ip \<noteq> g" if "in_range f l ip" for ip
  proof -
    from that obtain v where v: "ip = V4 v" "y \<le> v" "v < b" by (auto simp: rng)
    with ctn [of v] x(4,5) show ?thesis by (auto simp: n x(1))
  qed
  moreover have "in_range f l f" unfolding rng using lt by (simp add: x(2))
  ultimately show ?thesis by (simp add: pv)
qed

lemma new_range_V6:
  assumes inside: "prefix_contains n l" and n: "pf_Addr n = V6 w z"
    and g: "g = addr_Next (pf_Addr (Masked n))" and f: "f = addr_Next (addr_Next (addr_Next g))"
    and fl: "f \<noteq> InvalidAddr" "addr_Less f l"
  shows "in_range f l f \<and> addr_Prev f \<noteq> InvalidAddr \<and> prefix_contains n (addr_Prev f) \<and>
    (\<forall>ip. in_range f l ip \<longrightarrow> prefix_contains n ip \<and> ip \<noteq> g)"
proof -
  let ?m = "mask_word 128 (pf_Bits n)"
  obtain b where b: "l = V6 b []" "?m w = ?m b"
    using inside by (auto simp: n split: addr.splits)
  have "pf_Addr (Masked n) = V6 (?m w) []" by (simp add: Masked_def n)
  from four_steps(2) [OF fl(1) [unfolded f g] this] obtain x y where
    x: "g = V6 x []" "f = V6 y []" "?m w \<le> y - 1" "y - 1 < y" "x < y" "y \<noteq> 0"
    unfolding f g by metis
  have lt: "y < b" using fl(2) by (simp add: x b)
  have ctn: "?m w = ?m v" if "y - 1 \<le> v" "v < b" for v
    using mask_between [OF order.trans [OF x(3) that(1)] less_imp_le [OF that(2)] b(2)] .
  have rng: "in_range f l ip \<longleftrightarrow> (\<exists>v. ip = V6 v [] \<and> y \<le> v \<and> v < b)" for ip
    by (cases ip) (simp_all add: x(2) b(1) in_range_def)
  have pv: "addr_Prev f = V6 (y - 1) []" using x(6) by (simp add: x(2))
  have "prefix_contains n (V6 (y - 1) [])" using ctn [of "y - 1"] x(4) lt by (simp add: n)
  moreover have "prefix_contains n ip \<and> ip \<noteq> g" if "in_range f l ip" for ip
  proof -
    from that obtain v where v: "ip = V6 v []" "y \<le> v" "v < b" by (auto simp: rng)
    with ctn [of v] x(4,5) show ?thesis by (auto simp: n x(1))
  qed
  moreover have "in_range f l f" unfolding rng using lt by (simp add: x(2))
  ultimately show ?thesis by (simp add: pv)
qed

lemma new_pool_wf:
  assumes lib: "netipx_ok lib" and n: "prefix_IsValid n"
    and g: "g = addr_Next (pf_Addr (Masked n))" and f: "f = addr_Next (addr_Next (addr_Next g))"
    and fl: "f \<noteq> InvalidAddr" "addr_Less f (pl_PrefixLastIP lib n)"
  shows "pool_wf \<lparr>po_gateway = g, po_first = f, po_last = pl_PrefixLastIP lib n, po_offset = addr_Prev f, po_cycle = cy,
     po_ipnet = n, po_store = st\<rparr>"
proof -
  have inside: "prefix_contains n (pl_PrefixLastIP lib n)" using lib n by (simp only: netipx_ok_def)
  note r4 = new_range_V4 [OF inside _ g f fl] and r6 = new_range_V6 [OF inside _ g f fl]
  from n r4 r6 show ?thesis
    by (cases "pf_Addr n") (simp_all add: pool_wf_def prefix_IsValid_def)
qed

subsection \<open>Every operation keeps the binding\<close>

definition same_range :: "Pool \<Rightarrow> Pool \<Rightarrow> bool" where
  "same_range p q \<longleftrightarrow> po_gateway q = po_gateway p \<and> po_first q = po_first p \<and> po_last q = po_last p \<and> po_ipnet q = po_ipnet p"

lemma pool_wf_move:
  "pool_wf p \<Longrightarrow> same_range p q \<Longrightarrow> po_offset q = addr_Prev (po_first q) \<or> usable q (po_offset q) \<Longrightarrow> pool_wf q"
  by (simp add: pool_wf_def same_range_def)

lemma pool_wf_store [simp]: "pool_wf (p\<lparr>po_store := s\<rparr>) = pool_wf p"
  by (simp add: pool_wf_def)

lemma next_offset_store [simp]: "next_offset (p\<lparr>po_store := s\<rparr>) = next_offset p"
  by (simp add: next_offset_def)

lemma pool_get_eq:
  "pool_get lib h p =
     (let n = next_offset p;
          cy = (po_cycle p \<or> \<not> addr_Less (addr_Next (po_offset p)) (po_last p));
          s1 = (if cy \<or> st_Exist n (po_store p) then st_DelByIP (pl_commit lib) n (po_store p) else po_store p)
      in (n, p\<lparr>po_offset := n, po_cycle := cy, po_store := st_PutByIP (pl_commit lib) n h s1\<rparr>))"
  by (cases p) (simp add: pool_get_def next_offset_def Let_def)

lemma Lookup_ok:
  assumes inv: "pool_inv lib p" and v: "st_valid (usable p) (po_store p) (pl_ToLower lib host)"
    and l: "Lookup lib host p = (ip, q)"
  shows "pool_inv lib q" "same_range p q" "usable p ip" "st_valid (usable p) (po_store q) = st_valid (usable p) (po_store p)"
    "st_ips (po_store q) ip = Some (pl_ToLower lib host)"
    "usable p i \<Longrightarrow> i \<noteq> ip \<Longrightarrow> st_ips (po_store q) i \<in> {None, st_ips (po_store p) i}"
proof -
  let ?h = "pl_ToLower lib host" and ?s = "po_store p"
  have ok: "st_ok (pl_commit lib) (usable p) ?s" and wf: "pool_wf p" using inv by (auto simp: pool_inv_def)
  obtain r s1 where g: "st_GetByHost ?h ?s = (r, s1)" by force
  have r: "r = st_hosts ?s ?h" and s1: "st_ok (pl_commit lib) (usable p) s1" "st_ips s1 = st_ips ?s"
      "st_valid (usable p) s1 = st_valid (usable p) ?s"
    using ps.byHost_finds [OF ok v] ps.byHost_keeps [OF ok, of ?h] by (simp_all add: g)
  have "pool_inv lib q \<and> same_range p q \<and> usable p ip \<and> st_valid (usable p) (po_store q) = st_valid (usable p) ?s \<and>
    st_ips (po_store q) ip = Some ?h \<and> (\<forall>i. usable p i \<longrightarrow> i \<noteq> ip \<longrightarrow> st_ips (po_store q) i \<in> {None, st_ips ?s i})"
  proof (cases r)
    case (Some a)
    with l g have q: "ip = a" "q = p\<lparr>po_store := s1\<rparr>" by (auto simp: Lookup_def)
    have "st_hosts ?s ?h = Some a" using r Some by simp
    then have "usable p a" "st_ips ?s a = Some ?h"
      using ps.host_usable [OF ok v] ps.inverse [OF ok v] by blast+
    with q s1 wf show ?thesis by (auto simp: pool_inv_def same_range_def)
  next
    case None
    have "st_hosts s1 ?h = None"
      using ps.unbound_host [OF s1(1)] ps.inverse [OF ok v] s1(2,3) v r None by (metis option.distinct(1))
    let ?p = "p\<lparr>po_store := s1\<rparr>" and ?n = "next_offset (p\<lparr>po_store := s1\<rparr>)"
    obtain cy s2 where pg: "pool_get lib ?h ?p = (?n, ?p\<lparr>po_offset := ?n, po_cycle := cy,
          po_store := st_PutByIP (pl_commit lib) ?n ?h s2\<rparr>)"
        and s2: "s2 = st_DelByIP (pl_commit lib) ?n s1 \<or> s2 = s1 \<and> \<not> st_Exist ?n s1"
      by (auto simp: pool_get_eq Let_def)
    have n: "usable p ?n" using next_offset_usable [OF wf] by simp
    note a = ps.assign_spec [OF s1(1) _ n \<open>st_hosts s1 ?h = None\<close> s2]
    from l g None pg have q: "ip = ?n" "q = p\<lparr>po_offset := ?n, po_cycle := cy,
        po_store := st_PutByHost (pl_commit lib) ?h ?n (st_PutByIP (pl_commit lib) ?n ?h s2)\<rparr>"
      by (auto simp: Lookup_def Let_def)
    have sr: "same_range p q" by (simp add: q same_range_def)
    moreover have "pool_wf q" using pool_wf_move [OF wf sr] n by (simp add: q)
    ultimately show ?thesis using a v s1(2,3) n by (simp add: pool_inv_def q)
  qed
  then show "pool_inv lib q" "same_range p q" "usable p ip" "st_valid (usable p) (po_store q) = st_valid (usable p) ?s"
    "st_ips (po_store q) ip = Some ?h" "usable p i \<Longrightarrow> i \<noteq> ip \<Longrightarrow> st_ips (po_store q) i \<in> {None, st_ips ?s i}"
    by auto
qed

lemma LookBack_ok:
  assumes inv: "pool_inv lib p"
  shows "pool_inv lib (snd (LookBack ip p))" "same_range p (snd (LookBack ip p))"
    "usable p ip \<Longrightarrow> fst (LookBack ip p) = st_ips (po_store p) ip"
  using ps.byIP_keeps [of "pl_commit lib" "usable p" "po_store p" ip] ps.byIP_finds [of "pl_commit lib" "usable p" "po_store p" ip] inv
  by (auto simp: LookBack_def pool_inv_def same_range_def case_prod_beta Let_def)

lemma pool_wf_reset:
  "pool_wf p \<Longrightarrow> pool_wf (p\<lparr>po_store := s, po_cycle := c, po_offset := addr_Prev (po_first p)\<rparr>)"
  by (simp add: pool_wf_def)

lemma pool_Flush_ok:
  assumes "pool_inv lib p"
  shows "fst (pool_FlushFakeIP lib p) = FlushOk" "pool_inv lib (snd (pool_FlushFakeIP lib p))"
    "same_range p (snd (pool_FlushFakeIP lib p))"
  using st_Flush_ok [of "pl_commit lib" "usable p" "po_store p"] assms pool_wf_reset [of p]
  by (simp_all add: pool_FlushFakeIP_def pool_inv_def same_range_def case_prod_beta Let_def)

lemma CloneFrom_ok:
  assumes old: "pool_inv lib old" and p: "pool_inv lib p"
  shows "\<exists>q. CloneFrom lib old p = Some q \<and> pool_inv lib q \<and> same_range p q"
proof (cases "po_first old = po_first p \<and> po_last old = po_last p")
  case True
  let ?q = "p\<lparr>po_store := st_CloneTo (po_store old) (po_store p), po_offset := po_offset old, po_cycle := po_cycle old\<rparr>"
  have "st_ok (pl_commit lib) (usable p) (st_CloneTo (po_store old) (po_store p))"
    using old p True mem_CloneTo_ok by (cases "po_store old"; cases "po_store p") (auto simp: pool_inv_def)
  moreover have "pool_wf ?q"
    using old p True by (intro pool_wf_move [of p ?q]) (simp_all add: pool_inv_def pool_wf_def [of old] same_range_def)
  ultimately show ?thesis using True by (simp add: CloneFrom_def pool_inv_def same_range_def)
next
  case False
  let ?s = "st_CloneTo (po_store old) (po_store p)"
  have s: "fst (st_FlushFakeIP (pl_commit lib) ?s) = FlushOk \<and>
      st_ok (pl_commit lib) (usable p) (snd (st_FlushFakeIP (pl_commit lib) ?s))"
  proof (cases "\<exists>m n. po_store old = Memory m \<and> po_store p = Memory n")
    case True
    then obtain m n where mn: "po_store old = Memory m" "po_store p = Memory n" by blast
    with old p have "mem_ok (usable old) (mem_CloneTo m n)"
      using mem_CloneTo_ok [of "usable old" m "usable p" n] by (simp add: pool_inv_def)
    with mn show ?thesis using mem_Flush_ok(1) [of "usable old" _ "usable p"] by simp
  next
    case False
    then have "?s = po_store p" by (cases "po_store old"; cases "po_store p") auto
    then show ?thesis using p st_Flush_ok [of "pl_commit lib" "usable p"] by (simp add: pool_inv_def)
  qed
  let ?q = "p\<lparr>po_store := snd (st_FlushFakeIP (pl_commit lib) ?s), po_offset := addr_Prev (po_first p), po_cycle := False\<rparr>"
  have "pool_wf ?q" using p by (intro pool_wf_move [of p ?q]) (simp_all add: pool_inv_def same_range_def)
  with s False show ?thesis
    by (cases "st_FlushFakeIP (pl_commit lib) ?s") (auto simp: CloneFrom_def pool_inv_def same_range_def)
qed

subsection \<open>Storing and restoring the state\<close>

lemma Next_Prev: "addr_Prev a \<noteq> InvalidAddr \<Longrightarrow> addr_Next (addr_Prev a) = a"
  by (cases a) (auto split: if_splits)

lemma word_le_prev: "lo < x \<Longrightarrow> lo \<le> x - 1" for lo x :: "'a::len word"
proof -
  assume lt: "lo < x"
  then have "1 + (x - 1) \<noteq> 0" by auto
  from unatSuc [OF this] lt show ?thesis by (simp add: word_le_nat_alt word_less_nat_alt)
qed

lemma restorable_offset:
  assumes "pool_wf p" "zoneless a" "usable p a \<or> usable p (addr_Next a)"
  shows "a = addr_Prev (po_first p) \<or> usable p a"
proof (cases "usable p a")
  case False
  with assms(3) have n: "usable p (addr_Next a)" by simp
  then have v: "addr_Next a \<noteq> InvalidAddr" by (auto simp: in_range_def split: addr.splits)
  show ?thesis
  proof (cases a)
    case (V4 w)
    from Next_valid(1) [of w] v obtain x where x: "addr_Next a = V4 x" "w < x" "x - 1 = w" "x \<noteq> 0" by (auto simp: V4 simp del: addr_Next.simps)
    with n obtain lo hi where r: "po_first p = V4 lo" "po_last p = V4 hi" "lo \<le> x" "x < hi"
      by (auto simp: in_range_def split: addr.splits)
    with False V4 x(2) have "\<not> lo \<le> w" by (auto simp: in_range_def)
    moreover have "lo \<le> w" if "lo < x" using word_le_prev [OF that] x(3) by simp
    ultimately have "lo = x" using r(3) by (auto simp: order.order_iff_strict)
    then show ?thesis using r x V4 by simp
  next
    case (V6 w z)
    from Next_valid(2) [of w z] v obtain x where x: "addr_Next a = V6 x z" "w < x" "x - 1 = w" "x \<noteq> 0" by (auto simp: V6 simp del: addr_Next.simps)
    with n obtain lo hi where r: "po_first p = V6 lo []" "po_last p = V6 hi []" "lo \<le> x" "x < hi" "z = []"
      by (auto simp: in_range_def split: addr.splits)
    with False V6 x(2) have "\<not> lo \<le> w" by (auto simp: in_range_def)
    moreover have "lo \<le> w" if "lo < x" using word_le_prev [OF that] x(3) by simp
    ultimately have "lo = x" using r(3) by (auto simp: order.order_iff_strict)
    then show ?thesis using r x V6 by simp
  qed (use v in simp)
qed simp

lemma offset_restorable:
  assumes "pool_wf p"
  shows "zoneless (po_offset p)" "usable p (po_offset p) \<or> usable p (addr_Next (po_offset p))"
proof -
  have f: "usable p (po_first p)" "addr_Prev (po_first p) \<noteq> InvalidAddr" using assms by (auto simp: pool_wf_def)
  then have "zoneless (addr_Prev (po_first p))" using range_zoneless [OF f(1)] by (cases "po_first p") auto
  then show "zoneless (po_offset p)" "usable p (po_offset p) \<or> usable p (addr_Next (po_offset p))"
    using assms f Next_Prev [OF f(2)] by (auto simp: pool_wf_def dest: range_zoneless)
qed

lemma StoreState_ok:
  assumes inv: "pool_inv lib p"
  shows "pool_inv lib (StoreState lib p)" "same_range p (StoreState lib p)"
    "usable p ip \<Longrightarrow> st_ips (po_store (StoreState lib p)) ip = st_ips (po_store p) ip"
    "po_store (StoreState lib p) = Cachefile c \<Longrightarrow> cf_GetByHost offsetKey c = Some (po_offset p) \<and>
       (po_cycle p \<longrightarrow> cf_GetByHost cycleKey c \<noteq> None)"
proof -
  have "pool_inv lib (StoreState lib p) \<and> same_range p (StoreState lib p) \<and>
    (\<forall>ip. usable p ip \<longrightarrow> st_ips (po_store (StoreState lib p)) ip = st_ips (po_store p) ip) \<and>
    (\<forall>c. po_store (StoreState lib p) = Cachefile c \<longrightarrow> cf_GetByHost offsetKey c = Some (po_offset p) \<and>
       (po_cycle p \<longrightarrow> cf_GetByHost cycleKey c \<noteq> None))"
  proof (cases "po_store p")
    case (Memory m)
    with inv show ?thesis by (simp add: StoreState_def same_range_def)
  next
    case (Cachefile s)
    have ok: "cf_ok (pl_commit lib) (usable p) s" and wf: "pool_wf p" using inv Cachefile by (auto simp: pool_inv_def)
    note z = offset_restorable [OF wf]
    let ?s1 = "cf_PutByHost (pl_commit lib) offsetKey (po_offset p) s"
    let ?s2 = "cf_PutByHost (pl_commit lib) cycleKey (po_offset p) ?s1"
    note r1 = cf_reserve_ok [OF ok, of offsetKey "po_offset p"]
    have ok1: "cf_ok (pl_commit lib) (usable p) ?s1" using r1(1) z by blast
    note r2 = cf_reserve_ok [OF ok1, of cycleKey "po_offset p"]
    have k: "offsetKey \<noteq> cycleKey" by (simp add: offsetKey_def cycleKey_def)
    have "StoreState lib p = p\<lparr>po_store := Cachefile (if po_cycle p then ?s2 else ?s1)\<rparr>"
      by (simp add: StoreState_def Cachefile Let_def)
    with r1 r2 ok1 z wf k show ?thesis
      by (auto simp: pool_inv_def same_range_def Cachefile cf_contents update_conv' AsSlice_roundtrip)
  qed
  then show "pool_inv lib (StoreState lib p)" "same_range p (StoreState lib p)"
    "usable p ip \<Longrightarrow> st_ips (po_store (StoreState lib p)) ip = st_ips (po_store p) ip"
    "po_store (StoreState lib p) = Cachefile c \<Longrightarrow> cf_GetByHost offsetKey c = Some (po_offset p) \<and>
       (po_cycle p \<longrightarrow> cf_GetByHost cycleKey c \<noteq> None)" by auto
qed

lemma pool_inv_cycle: "pool_inv lib p \<Longrightarrow> pool_inv lib (p\<lparr>po_cycle := c\<rparr>)"
  by (simp add: pool_inv_def pool_wf_def)

lemma restoreState_ok:
  assumes inv: "pool_inv lib p"
  shows "pool_inv lib (restoreState lib p) \<and> same_range p (restoreState lib p)"
proof (cases "po_store p")
  case (Memory m)
  with inv show ?thesis by (simp add: restoreState_def same_range_def)
next
  case (Cachefile s)
  have ok: "cf_ok (pl_commit lib) (usable p) s" using inv Cachefile by (auto simp: pool_inv_def)
  define p1 where "p1 = (if cf_GetByHost cycleKey s \<noteq> None then p\<lparr>po_cycle := True\<rparr> else p)"
  have p1: "pool_inv lib p1" "same_range p p1"
    using inv pool_inv_cycle [of lib p True] by (auto simp: p1_def same_range_def)
  have r: "restoreState lib p =
      (case cf_GetByHost offsetKey s of
         Some offset \<Rightarrow> if prefix_contains (po_ipnet p1) offset then p1\<lparr>po_offset := offset\<rparr> else snd (pool_FlushFakeIP lib p1)
       | None \<Rightarrow> if cf_Exist (po_first p1) s then snd (pool_FlushFakeIP lib p1) else p1)"
    by (simp only: restoreState_def Cachefile pool_store.simps p1_def Let_def)
  have off: "a = addr_Prev (po_first p) \<or> usable p a" if "cf_GetByHost offsetKey s = Some a" for a
  proof -
    from that obtain v where v: "mget (contents s) offsetKey = Some v" "AddrFromSlice v = Some a"
      by (auto simp: cf_contents split: bind_splits)
    with bucket_okD(5) ok obtain b where b: "v = AsSlice b" "zoneless b" "usable p b \<or> usable p (addr_Next b)"
      by (metis cf_ok_def)
    with v AsSlice_roundtrip show ?thesis using restorable_offset inv by (auto simp: pool_inv_def)
  qed
  have "pool_inv lib (p1\<lparr>po_offset := a\<rparr>) \<and> same_range p (p1\<lparr>po_offset := a\<rparr>)" if "cf_GetByHost offsetKey s = Some a" for a
  proof -
    have "pool_wf (p1\<lparr>po_offset := a\<rparr>)"
      using off [OF that] p1 by (intro pool_wf_move [of p1 "p1\<lparr>po_offset := a\<rparr>"]) (simp_all add: pool_inv_def same_range_def)
    with p1 show ?thesis by (simp add: pool_inv_def same_range_def)
  qed
  moreover have "same_range p (snd (pool_FlushFakeIP lib p1))" using pool_Flush_ok(3) [OF p1(1)] p1(2) by (simp add: same_range_def)
  ultimately show ?thesis
    using p1 pool_Flush_ok(2) [OF p1(1)] by (simp add: r split: option.splits)
qed

subsection \<open>Reachable pools\<close>

definition opts_ok :: "pool_lib \<Rightarrow> fakeip_Options \<Rightarrow> bool" where
  "opts_ok lib opts \<longleftrightarrow> prefix_IsValid (op_IPNet opts) \<and>
     (let first = addr_Next (addr_Next (addr_Next (addr_Next (pf_Addr (Masked (op_IPNet opts)))))) in
      first \<noteq> InvalidAddr \<and> addr_Less first (pl_PrefixLastIP lib (op_IPNet opts)))"

definition blank_pool :: "pool_lib \<Rightarrow> fakeip_Options \<Rightarrow> pool_store \<Rightarrow> Pool" where
  "blank_pool lib opts st =
     (let gateway = addr_Next (pf_Addr (Masked (op_IPNet opts))); first = addr_Next (addr_Next (addr_Next gateway)) in
      \<lparr>po_gateway = gateway, po_first = first, po_last = pl_PrefixLastIP lib (op_IPNet opts), po_offset = addr_Prev first,
       po_cycle = False, po_ipnet = op_IPNet opts, po_store = st\<rparr>)"

definition new_store :: "CacheFile option \<Rightarrow> fakeip_Options \<Rightarrow> pool_store" where
  "new_store cache opts = (if op_Persistence opts then Cachefile (newCachefileStore cache (op_IPNet opts))
     else Memory (newMemoryStore (op_Size opts)))"

lemma New_eq: "fakeip_New lib cache opts =
    (if opts_ok lib opts then Some (restoreState lib (blank_pool lib opts (new_store cache opts))) else None)"
  by (simp add: fakeip_New_def opts_ok_def blank_pool_def new_store_def Let_def del: addr_Next.simps)

lemma blank_wf: "netipx_ok lib \<Longrightarrow> opts_ok lib opts \<Longrightarrow> pool_wf (blank_pool lib opts st)"
  using new_pool_wf [OF _ _ refl refl, of lib "op_IPNet opts" False st] by (simp add: opts_ok_def blank_pool_def Let_def)

text \<open>The first start finds no bucket in the file; later starts find what the pool before them left there.\<close>

definition first_run :: "CacheFile option \<Rightarrow> fakeip_Options \<Rightarrow> bool" where
  "first_run cache opts \<longleftrightarrow>
     op_Persistence opts \<longrightarrow> cache \<noteq> None \<and> fs_Bucket (newCachefileStore cache (op_IPNet opts)) = None"

inductive pool_reachable :: "pool_lib \<Rightarrow> fakeip_Options \<Rightarrow> Pool \<Rightarrow> bool" for lib where
  start: "fakeip_New lib cache opts = Some p \<Longrightarrow> first_run cache opts \<Longrightarrow> pool_reachable lib opts p"
| restart: "pool_reachable lib opts p \<Longrightarrow> po_store p = Cachefile c \<Longrightarrow> op_Persistence opts \<Longrightarrow>
    fakeip_New lib (fs_DB c) opts = Some q \<Longrightarrow> pool_reachable lib opts q"
| lookup: "pool_reachable lib opts p \<Longrightarrow> st_valid (usable p) (po_store p) (pl_ToLower lib host) \<Longrightarrow>
    Lookup lib host p = (ip, q) \<Longrightarrow> pool_reachable lib opts q"
| lookback: "pool_reachable lib opts p \<Longrightarrow> pool_reachable lib opts (snd (LookBack ip p))"
| flush: "pool_reachable lib opts p \<Longrightarrow> pool_reachable lib opts (snd (pool_FlushFakeIP lib p))"
| clone: "pool_reachable lib opts' old \<Longrightarrow> pool_reachable lib opts p \<Longrightarrow> CloneFrom lib old p = Some q \<Longrightarrow>
    pool_reachable lib opts q"
| store: "pool_reachable lib opts p \<Longrightarrow> pool_reachable lib opts (StoreState lib p)"

definition pool_for :: "pool_lib \<Rightarrow> fakeip_Options \<Rightarrow> Pool \<Rightarrow> bool" where
  "pool_for lib opts p \<longleftrightarrow> opts_ok lib opts \<and> same_range (blank_pool lib opts (po_store p)) p \<and> pool_inv lib p"

lemma pool_for_step: "pool_for lib opts p \<Longrightarrow> same_range p q \<Longrightarrow> pool_inv lib q \<Longrightarrow> pool_for lib opts q"
  by (simp add: pool_for_def same_range_def blank_pool_def Let_def)

lemma pool_wf_contains: "pool_wf p \<Longrightarrow> usable p ip \<Longrightarrow> prefix_contains (po_ipnet p) ip \<and> ip \<noteq> po_gateway p"
  unfolding pool_wf_def by blast

lemma contains_Is6: "prefix_contains n ip \<Longrightarrow> Is6 ip = Is6 (pf_Addr n)"
  by (auto split: addr.splits)

lemma first_run_ok:
  assumes lib: "netipx_ok lib" "bolt_reliable (pl_commit lib)" and o: "opts_ok lib opts" "first_run cache opts"
  shows "pool_inv lib (blank_pool lib opts (new_store cache opts))"
proof -
  let ?p = "blank_pool lib opts (new_store cache opts)"
  have wf: "pool_wf ?p" by (rule blank_wf [OF lib(1) o(1)])
  have six: "Is6 ip = Is6 (pf_Addr (op_IPNet opts))" if "usable ?p ip" for ip
  proof -
    have "po_ipnet ?p = op_IPNet opts" by (simp add: blank_pool_def Let_def)
    then show ?thesis using contains_Is6 pool_wf_contains [OF wf that] by metis
  qed
  have "st_ok (pl_commit lib) (usable ?p) (new_store cache opts)"
  proof (cases "op_Persistence opts")
    case True
    let ?c = "newCachefileStore cache (op_IPNet opts)"
    have "fs_DB ?c \<noteq> None" "contents ?c = []" "fs_bucket6 ?c = Is6 (pf_Addr (op_IPNet opts))"
      using o(2) True by (auto simp: first_run_def contents_def CreateBucketIfNotExists_def) (auto simp: newCachefileStore_def)
    then have "cf_ok (pl_commit lib) (usable ?p) ?c"
      unfolding cf_ok_def using lib(2) six range_zoneless bucket_ok_empty by metis
    then show ?thesis by (simp add: new_store_def True)
  next
    case False
    then show ?thesis by (simp add: new_store_def newMemoryStore_ok)
  qed
  with wf show ?thesis by (simp add: pool_inv_def) (simp add: blank_pool_def Let_def)
qed

lemma reopen:
  assumes "pool_for lib opts p" "po_store p = Cachefile c"
  shows "newCachefileStore (fs_DB c) (op_IPNet opts) = c"
proof -
  have wf: "pool_wf p" and ok: "cf_ok (pl_commit lib) (usable p) c" and n: "po_ipnet p = op_IPNet opts"
    using assms by (auto simp: pool_for_def pool_inv_def same_range_def blank_pool_def Let_def)
  have f: "usable p (po_first p)" using wf unfolding pool_wf_def by blast
  have "fs_bucket6 c = Is6 (po_first p)" using ok f unfolding cf_ok_def by blast
  also have "\<dots> = Is6 (pf_Addr (op_IPNet opts))" using contains_Is6 pool_wf_contains [OF wf f] n by metis
  finally show ?thesis by (simp add: newCachefileStore_def)
qed

lemma restart_ok:
  assumes lib: "netipx_ok lib" and p: "pool_for lib opts p" "po_store p = Cachefile c" and per: "op_Persistence opts"
  shows "fakeip_New lib (fs_DB c) opts = Some (restoreState lib (blank_pool lib opts (Cachefile c)))"
    "pool_inv lib (blank_pool lib opts (Cachefile c))" "pool_for lib opts (restoreState lib (blank_pool lib opts (Cachefile c)))"
proof -
  let ?b = "blank_pool lib opts (Cachefile c)"
  have o: "opts_ok lib opts" and r: "same_range ?b p" and inv: "pool_inv lib p" using p by (auto simp: pool_for_def)
  show "fakeip_New lib (fs_DB c) opts = Some (restoreState lib ?b)"
    using o per reopen [OF p] by (simp add: New_eq new_store_def)
  have "po_store ?b = Cachefile c" by (simp add: blank_pool_def Let_def)
  with inv r p(2) show b: "pool_inv lib ?b"
    using blank_wf [OF lib o, of "Cachefile c"] by (simp add: pool_inv_def same_range_def)
  have "pool_for lib opts ?b" using o b by (simp add: pool_for_def same_range_def blank_pool_def Let_def)
  then show "pool_for lib opts (restoreState lib ?b)"
    using restoreState_ok [OF b] pool_for_step by blast
qed

lemma reachable_pool:
  assumes lib: "netipx_ok lib" "bolt_reliable (pl_commit lib)"
  shows "pool_reachable lib opts p \<Longrightarrow> pool_for lib opts p"
proof (induction rule: pool_reachable.induct)
  case (start cache opts p)
  let ?b = "blank_pool lib opts (new_store cache opts)"
  have o: "opts_ok lib opts" and p: "p = restoreState lib ?b" using start(1) by (auto simp: New_eq split: if_splits)
  have b: "pool_inv lib ?b" by (rule first_run_ok [OF lib o start(2)])
  have "pool_for lib opts ?b" using o b by (simp add: pool_for_def same_range_def blank_pool_def Let_def)
  then show ?case using restoreState_ok [OF b] pool_for_step p by blast
next
  case (restart opts p c q)
  then show ?case using restart_ok [OF lib(1) restart(5,2,3)] by simp
next
  case (lookup opts p host ip q)
  then have "pool_inv lib p" by (simp add: pool_for_def)
  from Lookup_ok(1,2) [OF this lookup(2,3)] lookup(4) show ?case by (blast intro: pool_for_step)
next
  case (lookback opts p ip)
  then have "pool_inv lib p" by (simp add: pool_for_def)
  from LookBack_ok(1,2) [OF this] lookback(2) show ?case by (blast intro: pool_for_step)
next
  case (flush opts p)
  then have "pool_inv lib p" by (simp add: pool_for_def)
  from pool_Flush_ok(2,3) [OF this] flush(2) show ?case by (blast intro: pool_for_step)
next
  case (clone opts' old opts p q)
  then have "pool_inv lib old" "pool_inv lib p" by (simp_all add: pool_for_def)
  from CloneFrom_ok [OF this] clone(3,5) show ?case by (auto intro: pool_for_step)
next
  case (store opts p)
  then have "pool_inv lib p" by (simp add: pool_for_def)
  from StoreState_ok(1,2) [OF this] store(2) show ?case by (blast intro: pool_for_step)
qed

lemma restoreState_stored:
  assumes "po_store b = Cachefile c" "cf_GetByHost offsetKey c = Some a" "prefix_contains (po_ipnet b) a"
  shows "restoreState lib b = b\<lparr>po_cycle := po_cycle b \<or> cf_GetByHost cycleKey c \<noteq> None, po_offset := a\<rparr>"
  using assms by (cases b) (simp add: restoreState_def Let_def del: prefix_contains.simps)

text \<open>
  C19. A persistent pool survives a restart. Whatever it has been through, once its state is stored a pool
  with the same options can be opened on the file, it goes on allocating where the old one stopped, and every
  address of the range is bound to the host it was bound to.
\<close>

theorem fake_ip_survives_restart:
  assumes lib: "netipx_ok lib" "bolt_reliable (pl_commit lib)"
    and p: "pool_reachable lib opts p" "op_Persistence opts" "po_store (StoreState lib p) = Cachefile c"
  shows "\<exists>q. fakeip_New lib (fs_DB c) opts = Some q \<and> po_offset q = po_offset p \<and> (po_cycle p \<longrightarrow> po_cycle q) \<and>
    (\<forall>ip. usable p ip \<longrightarrow> fst (LookBack ip q) = fst (LookBack ip p))"
proof -
  let ?s = "StoreState lib p" and ?b = "blank_pool lib opts (Cachefile c)"
  have inv: "pool_inv lib p" and sfor: "pool_for lib opts ?s"
    using reachable_pool [OF lib p(1)] reachable_pool [OF lib pool_reachable.store [OF p(1)]] by (simp_all add: pool_for_def)
  note new = restart_ok [OF lib(1) sfor p(3,2)]
  note st = StoreState_ok [OF inv]
  have rng: "usable ?b = usable p" "po_ipnet ?b = po_ipnet p"
    using sfor st(2) p(3) by (auto simp: pool_for_def same_range_def)
  have "prefix_contains (po_ipnet p) (po_offset p)"
    using inv unfolding pool_inv_def pool_wf_def by metis
  then have q: "restoreState lib ?b = ?b\<lparr>po_cycle := po_cycle ?b \<or> cf_GetByHost cycleKey c \<noteq> None, po_offset := po_offset p\<rparr>"
    using st(4) [OF p(3)] rng(2) by (intro restoreState_stored) (simp_all only: blank_pool_def Let_def Pool.simps)
  have "fst (LookBack ip (restoreState lib ?b)) = fst (LookBack ip p)" if ip: "usable p ip" for ip
  proof -
    have "po_store (restoreState lib ?b) = Cachefile c" by (simp add: q) (simp add: blank_pool_def Let_def)
    moreover have "pool_inv lib (restoreState lib ?b)" "usable (restoreState lib ?b) = usable p"
      using restoreState_ok [OF new(2)] rng(1) by (simp_all add: same_range_def)
    ultimately show ?thesis
      using LookBack_ok(3) [of lib "restoreState lib ?b" ip] LookBack_ok(3) [OF inv ip] st(3) [OF ip] p(3) ip by simp
  qed
  moreover have "po_offset (restoreState lib ?b) = po_offset p" by (simp add: q)
  moreover have "po_cycle p \<longrightarrow> po_cycle (restoreState lib ?b)" using st(4) [OF p(3)] by (simp add: q)
  ultimately show ?thesis using new(1) by auto
qed

subsection \<open>A pool at work\<close>

definition prefix_last :: "nprefix \<Rightarrow> addr" where
  "prefix_last p =
     (case pf_Addr p of InvalidAddr \<Rightarrow> InvalidAddr
      | V4 w \<Rightarrow> V4 (or w (mask (32 - pf_Bits p)))
      | V6 w zone \<Rightarrow> V6 (or w (mask (128 - pf_Bits p))) [])"

definition demo_lib :: pool_lib where
  "demo_lib = \<lparr>pl_commit = (\<lambda>old new. True), pl_PrefixLastIP = prefix_last, pl_ToLower = ToLower\<rparr>"

definition demo_net :: nprefix where
  "demo_net = \<lparr>pf_Addr = V4 0xC6120001, pf_Bits = 16\<rparr>"

definition demo_opts :: "bool \<Rightarrow> fakeip_Options" where
  "demo_opts persist = \<lparr>op_IPNet = demo_net, op_Size = 1000, op_Persistence = persist\<rparr>"

definition demo_db :: CacheFile where
  "demo_db = \<lparr>db_fakeip = None, db_fakeip6 = None\<rparr>"

definition demo_pool :: "bool \<Rightarrow> Pool" where
  "demo_pool persist = the (fakeip_New demo_lib (Some demo_db) (demo_opts persist))"

lemma mask_or: "mask_word n bits (or w (mask (n - bits))) = mask_word n bits w" for w :: "'a::len word"
  by (rule bit_word_eqI) (auto simp: mask_word_def bit_simps)

lemma demo_lib_ok: "netipx_ok demo_lib" "bolt_reliable (pl_commit demo_lib)"
  by (auto simp: netipx_ok_def demo_lib_def prefix_last_def prefix_IsValid_def mask_or bolt_reliable_def split: addr.splits)

lemma demo_pool_reachable: "pool_reachable demo_lib (demo_opts persist) (demo_pool persist)"
proof (rule pool_reachable.start)
  have "fakeip_New demo_lib (Some demo_db) (demo_opts True) \<noteq> None" "fakeip_New demo_lib (Some demo_db) (demo_opts False) \<noteq> None"
    by code_simp+
  then show "fakeip_New demo_lib (Some demo_db) (demo_opts persist) = Some (demo_pool persist)"
    by (cases persist) (auto simp: demo_pool_def)
  show "first_run (Some demo_db) (demo_opts persist)"
    by (simp add: first_run_def demo_db_def newCachefileStore_def fs_Bucket_def)
qed

lemma valid_by_length:
  assumes "length h \<notin> {0, 4, 16, 17, 18}"
  shows "valid_host (in_range lo hi) h"
  using assms AsSlice_length range_zoneless by (fastforce simp: valid_host_def offsetKey_def cycleKey_def)

definition demo_stored :: Pool where
  "demo_stored = snd (Lookup demo_lib ''Example.com'' (demo_pool True))"

lemma demo_stored_reachable: "pool_reachable demo_lib (demo_opts True) demo_stored"
proof -
  obtain ip q where l: "Lookup demo_lib ''Example.com'' (demo_pool True) = (ip, q)" by force
  have "case po_store (demo_pool True) of Memory _ \<Rightarrow> False | Cachefile _ \<Rightarrow> True" "length (pl_ToLower demo_lib ''Example.com'') = 11"
    by code_simp+
  then have "st_valid (usable (demo_pool True)) (po_store (demo_pool True)) (pl_ToLower demo_lib ''Example.com'')"
    by (cases "po_store (demo_pool True)") (auto intro: valid_by_length)
  from pool_reachable.lookup [OF demo_pool_reachable this l] show ?thesis by (simp add: demo_stored_def l)
qed

theorem fake_ip_survives_restart_witness:
  "case po_store (StoreState demo_lib demo_stored) of
     Memory _ \<Rightarrow> False
   | Cachefile c \<Rightarrow> \<exists>q. fakeip_New demo_lib (fs_DB c) (demo_opts True) = Some q \<and> po_offset q = V4 0xC6120004 \<and>
       fst (LookBack (V4 0xC6120004) q) = Some ''example.com''"
proof -
  have f: "case po_store (StoreState demo_lib demo_stored) of Memory _ \<Rightarrow> False | Cachefile _ \<Rightarrow> True"
    "po_offset demo_stored = V4 0xC6120004" "usable demo_stored (V4 0xC6120004)"
    "fst (LookBack (V4 0xC6120004) demo_stored) = Some ''example.com''"
    by code_simp+
  then obtain c where c: "po_store (StoreState demo_lib demo_stored) = Cachefile c"
    by (cases "po_store (StoreState demo_lib demo_stored)") auto
  have "op_Persistence (demo_opts True)" by (simp add: demo_opts_def)
  from fake_ip_survives_restart [OF demo_lib_ok demo_stored_reachable this c] f c show ?thesis by auto
qed

subsection \<open>Where the persistent pool falls short\<close>

text \<open>
  The state is only stored at shutdown. Until it has been stored once, opening a second pool on the file, as a reload of the
  configuration does, empties the bucket the running pool uses.
\<close>

lemma reload_drops_bindings:
  assumes lib: "netipx_ok lib" "bolt_reliable (pl_commit lib)"
    and p: "pool_reachable lib opts p" "op_Persistence opts" "po_store p = Cachefile c"
    and never: "cf_GetByHost offsetKey c = None" and bound: "pool_Exist (po_first p) p"
  shows "\<exists>q. fakeip_New lib (fs_DB c) opts = Some q \<and> (\<forall>ip. usable p ip \<longrightarrow> fst (LookBack ip q) = None)"
proof -
  let ?b = "blank_pool lib opts (Cachefile c)"
  define b where "b = (if cf_GetByHost cycleKey c \<noteq> None then ?b\<lparr>po_cycle := True\<rparr> else ?b)"
  note pf = reachable_pool [OF lib p(1)]
  note new = restart_ok [OF lib(1) pf p(3,2)]
  have st: "po_store ?b = Cachefile c" "po_first ?b = po_first p" "usable ?b = usable p"
    using pf p(3) by (auto simp: pool_for_def same_range_def) (simp_all add: blank_pool_def Let_def)
  have b: "pool_inv lib b" "po_store b = Cachefile c" "same_range ?b b" "po_first b = po_first p"
    using new(2) pool_inv_cycle st by (auto simp: b_def same_range_def)
  have ex: "cf_Exist (po_first p) c" using bound p(3) by (simp add: pool_Exist_def)
  have q: "restoreState lib ?b = snd (pool_FlushFakeIP lib b)"
    using never ex b(4) st unfolding restoreState_def b_def by (simp add: Let_def)
  note fl = pool_Flush_ok [OF b(1)]
  have "po_store (snd (pool_FlushFakeIP lib b)) = Cachefile (snd (cf_FlushFakeIP (pl_commit lib) c))"
    using fl(1) b(2) by (auto simp: pool_FlushFakeIP_def Let_def case_prod_beta)
  moreover have "contents (snd (cf_FlushFakeIP (pl_commit lib) c)) = []"
    using cf_Flush_ok(3) [of "pl_commit lib" "usable b" c] b(1,2) by (simp add: pool_inv_def)
  ultimately have "st_ips (po_store (snd (pool_FlushFakeIP lib b))) ip = None" for ip by (simp add: cf_ips_def cf_contents)
  moreover have "usable (snd (pool_FlushFakeIP lib b)) = usable p" using fl(3) b(3) st(3) by (simp add: same_range_def)
  ultimately have "fst (LookBack ip (snd (pool_FlushFakeIP lib b))) = None" if "usable p ip" for ip
    using LookBack_ok(3) [OF fl(2), of ip] that by simp
  with new(1) q show ?thesis by auto
qed

text \<open>
  Opening the file with a smaller range that contains the stored offset keeps the bindings outside of the range, and the
  allocation goes on from the old offset: here a host keeps an address outside, and the next one is given the gateway.
\<close>

definition wide_opts :: fakeip_Options where
  "wide_opts = \<lparr>op_IPNet = \<lparr>pf_Addr = V4 0xC6120000, pf_Bits = 28\<rparr>, op_Size = 1000, op_Persistence = True\<rparr>"

definition narrow_opts :: fakeip_Options where
  "narrow_opts = \<lparr>op_IPNet = \<lparr>pf_Addr = V4 0xC6120008, pf_Bits = 29\<rparr>, op_Size = 1000, op_Persistence = True\<rparr>"

definition wide_pool :: Pool where
  "wide_pool = fold (\<lambda>h p. snd (Lookup demo_lib h p)) [''a.org'', ''b.org'', ''c.org'', ''d.org'', ''e.org'']
     (the (fakeip_New demo_lib (Some demo_db) wide_opts))"

definition narrow_pool :: "Pool option" where
  "narrow_pool = (case po_store (StoreState demo_lib wide_pool) of
     Memory _ \<Rightarrow> None | Cachefile c \<Rightarrow> fakeip_New demo_lib (fs_DB c) narrow_opts)"

lemma narrowing_keeps_foreign_addresses:
  "case narrow_pool of None \<Rightarrow> False
   | Some q \<Rightarrow> fst (Lookup demo_lib ''a.org'' q) = V4 0xC6120004 \<and> \<not> prefix_contains (po_ipnet q) (V4 0xC6120004) \<and>
       fst (Lookup demo_lib ''f.org'' q) = po_gateway q"
  by code_simp

text \<open>The reserved keys share the bucket with the hosts: asking for one of them as a host yields an address of another host.\<close>

lemma reserved_key_answers:
  "fst (Lookup demo_lib ''key-offset-fake-ip'' (StoreState demo_lib demo_stored)) = V4 0xC6120004 \<and>
   fst (LookBack (V4 0xC6120004) (StoreState demo_lib demo_stored)) = Some ''example.com''"
  by code_simp

end
