(* ===== verification/Dns_Enhancer.thy ===== *)
theory Dns_Enhancer
  imports Fakeip_Pool
begin

section \<open>Fake IP: the resolver enhancer\<close>

text \<open>
  \<^verbatim>\<open>dns/enhancer.go\<close>, the filter of \<^verbatim>\<open>component/fakeip/skipper.go\<close> and the middleware \<^verbatim>\<open>withFakeIP\<close> of
  \<^verbatim>\<open>dns/middleware.go\<close>: a query for a name is answered with an address of the pool, and a connection to such an address
  is led back to the name. Rules and domain matchers are functions; of a DNS message only the question and the answer
  that the middleware makes are modelled. The two pools share one database in the source; each uses its own bucket, so each
  carries its own copy here. A flush or a reload that panics has no result.
\<close>

subsection \<open>Which names get a fake address\<close>

datatype FilterMode = FilterBlackList | FilterWhiteList | FilterRule

definition UseFakeIP :: string where "UseFakeIP = ''fake-ip''"
definition UseRealIP :: string where "UseRealIP = ''real-ip''"

text \<open>A rule answers whether it matches a host, and its action; a matcher of domains whether it matches.\<close>

record Skipper =
  sk_Rules :: "(string \<Rightarrow> bool \<times> string) list"
  sk_Host :: "(string \<Rightarrow> bool) list"
  sk_Mode :: FilterMode

fun first_match :: "(string \<Rightarrow> bool \<times> string) list \<Rightarrow> string \<Rightarrow> string option" where
  "first_match [] domain = None"
| "first_match (rule # rules) domain =
     (case rule domain of (True, a) \<Rightarrow> Some a | (False, _) \<Rightarrow> first_match rules domain)"

fun shouldSkipped :: "(string \<Rightarrow> bool) list \<Rightarrow> string \<Rightarrow> bool" where
  "shouldSkipped [] domain = False"
| "shouldSkipped (matcher # ms) domain = (if matcher domain then True else shouldSkipped ms domain)"

definition ShouldSkipped :: "pool_lib \<Rightarrow> Skipper option \<Rightarrow> string \<Rightarrow> bool" where
  "ShouldSkipped lib sk domain =
     (case sk of None \<Rightarrow> False
      | Some p \<Rightarrow>
          let domain = pl_ToLower lib domain in
          if length (sk_Rules p) > 0
          then (case first_match (sk_Rules p) domain of Some action \<Rightarrow> action = UseRealIP | None \<Rightarrow> False)
          else
            let should = shouldSkipped (sk_Host p) domain in
            if sk_Mode p = FilterWhiteList then \<not> should else should)"

subsection \<open>The enhancer\<close>

datatype DNSMode = DNSNormal | DNSFakeIP | DNSMapping | DNSHosts

record ResolverEnhancer =
  re_ipv6 :: bool
  re_mode :: DNSMode
  re_fakeIPPool :: "Pool option"
  re_fakeIPPool6 :: "Pool option"
  re_fakeIPSkipper :: "Skipper option"
  re_fakeIPTTL :: int
  re_mapping :: "(addr, string) LruCache option"
  re_useHosts :: bool

definition FakeIPEnabled :: "ResolverEnhancer \<Rightarrow> bool" where
  "FakeIPEnabled h \<longleftrightarrow> re_mode h = DNSFakeIP"

definition MappingEnabled :: "ResolverEnhancer \<Rightarrow> bool" where
  "MappingEnabled h \<longleftrightarrow> re_mode h = DNSFakeIP \<or> re_mode h = DNSMapping"

definition IsExistFakeIP :: "addr \<Rightarrow> ResolverEnhancer \<Rightarrow> bool" where
  "IsExistFakeIP ip h =
     (if \<not> FakeIPEnabled h then False
      else if (case re_fakeIPPool h of Some pool \<Rightarrow> pool_Exist ip pool | None \<Rightarrow> False) then True
      else (case re_fakeIPPool6 h of Some pool6 \<Rightarrow> pool_Exist ip pool6 | None \<Rightarrow> False))"

definition pool_owns :: "addr \<Rightarrow> Pool \<Rightarrow> bool" where
  "pool_owns ip pool \<longleftrightarrow> prefix_contains (po_ipnet pool) ip \<and> ip \<noteq> po_gateway pool \<and> ip \<noteq> po_last pool"

definition IsFakeIP :: "addr \<Rightarrow> ResolverEnhancer \<Rightarrow> bool" where
  "IsFakeIP ip h =
     (if \<not> FakeIPEnabled h then False
      else if (case re_fakeIPPool h of Some pool \<Rightarrow> pool_owns ip pool | None \<Rightarrow> False) then True
      else (case re_fakeIPPool6 h of Some pool6 \<Rightarrow> pool_owns ip pool6 | None \<Rightarrow> False))"

definition IsFakeBroadcastIP :: "addr \<Rightarrow> ResolverEnhancer \<Rightarrow> bool" where
  "IsFakeBroadcastIP ip h =
     (if \<not> FakeIPEnabled h then False
      else if (case re_fakeIPPool h of Some pool \<Rightarrow> po_last pool = ip | None \<Rightarrow> False) then True
      else (case re_fakeIPPool6 h of Some pool6 \<Rightarrow> po_last pool6 = ip | None \<Rightarrow> False))"

definition look_back :: "addr \<Rightarrow> Pool option \<Rightarrow> string option \<times> Pool option" where
  "look_back ip p = (case p of None \<Rightarrow> (None, None) | Some pool \<Rightarrow> (case LookBack ip pool of (r, pool') \<Rightarrow> (r, Some pool')))"

definition FindHostByIP :: "int \<Rightarrow> addr \<Rightarrow> ResolverEnhancer \<Rightarrow> string option \<times> ResolverEnhancer" where
  "FindHostByIP now ip h =
     (let (r, pool) = look_back ip (re_fakeIPPool h); h = h\<lparr>re_fakeIPPool := pool\<rparr> in
      case r of Some host \<Rightarrow> (Some host, h)
      | None \<Rightarrow>
          let (r, pool6) = look_back ip (re_fakeIPPool6 h); h = h\<lparr>re_fakeIPPool6 := pool6\<rparr> in
          (case r of Some host \<Rightarrow> (Some host, h)
           | None \<Rightarrow>
               (case re_mapping h of None \<Rightarrow> (None, h)
                | Some m \<Rightarrow> (case lru_Get now ip m of (r, m') \<Rightarrow> (r, h\<lparr>re_mapping := Some m'\<rparr>)))))"

definition InsertHostByIP :: "int \<Rightarrow> addr \<Rightarrow> string \<Rightarrow> ResolverEnhancer \<Rightarrow> ResolverEnhancer" where
  "InsertHostByIP now ip host h = h\<lparr>re_mapping := map_option (lru_set now ip host) (re_mapping h)\<rparr>"

definition flush_pool :: "pool_lib \<Rightarrow> Pool option \<Rightarrow> flush_result \<times> Pool option" where
  "flush_pool lib p = (case p of None \<Rightarrow> (FlushOk, None)
     | Some pool \<Rightarrow> (case pool_FlushFakeIP lib pool of (r, pool') \<Rightarrow> (r, Some pool')))"

definition enhancer_FlushFakeIP :: "pool_lib \<Rightarrow> ResolverEnhancer \<Rightarrow> flush_result \<times> ResolverEnhancer" where
  "enhancer_FlushFakeIP lib h =
     (let (e, pool) = flush_pool lib (re_fakeIPPool h); h = h\<lparr>re_fakeIPPool := pool\<rparr> in
      if e = FlushPanics then (FlushPanics, h)
      else
        let (e6, pool6) = flush_pool lib (re_fakeIPPool6 h); h = h\<lparr>re_fakeIPPool6 := pool6\<rparr> in
        (if e6 = FlushPanics then FlushPanics else if e = FlushFailed \<or> e6 = FlushFailed then FlushFailed else FlushOk, h))"

definition clone_pool :: "pool_lib \<Rightarrow> Pool option \<Rightarrow> Pool option \<Rightarrow> Pool option option" where
  "clone_pool lib old p =
     (case (p, old) of (Some pool, Some oldPool) \<Rightarrow> map_option Some (CloneFrom lib oldPool pool) | _ \<Rightarrow> Some p)"

definition PatchFrom :: "pool_lib \<Rightarrow> ResolverEnhancer \<Rightarrow> ResolverEnhancer \<Rightarrow> ResolverEnhancer option" where
  "PatchFrom lib old h =
     (let h = (case (re_mapping h, re_mapping old) of
                 (Some m, Some oldM) \<Rightarrow> h\<lparr>re_mapping := Some (lru_CloneTo oldM m)\<rparr> | _ \<Rightarrow> h) in
      case clone_pool lib (re_fakeIPPool old) (re_fakeIPPool h) of None \<Rightarrow> None
      | Some pool \<Rightarrow>
          (case clone_pool lib (re_fakeIPPool6 old) (re_fakeIPPool6 h) of None \<Rightarrow> None
           | Some pool6 \<Rightarrow> Some (h\<lparr>re_fakeIPPool := pool, re_fakeIPPool6 := pool6\<rparr>)))"

definition StoreFakePoolState :: "pool_lib \<Rightarrow> ResolverEnhancer \<Rightarrow> ResolverEnhancer" where
  "StoreFakePoolState lib h = h\<lparr>re_fakeIPPool := map_option (StoreState lib) (re_fakeIPPool h),
     re_fakeIPPool6 := map_option (StoreState lib) (re_fakeIPPool6 h)\<rparr>"

record EnhancerConfig =
  ec_IPv6 :: bool
  ec_EnhancedMode :: DNSMode
  ec_FakeIPPool :: "Pool option"
  ec_FakeIPPool6 :: "Pool option"
  ec_FakeIPSkipper :: "Skipper option"
  ec_FakeIPTTL :: int
  ec_UseHosts :: bool

definition NewEnhancer :: "EnhancerConfig \<Rightarrow> ResolverEnhancer" where
  "NewEnhancer cfg =
     (let e = \<lparr>re_ipv6 = ec_IPv6 cfg, re_mode = ec_EnhancedMode cfg, re_fakeIPPool = None, re_fakeIPPool6 = None,
                re_fakeIPSkipper = None, re_fakeIPTTL = 0, re_mapping = None, re_useHosts = ec_UseHosts cfg\<rparr> in
      if ec_EnhancedMode cfg \<noteq> DNSNormal
      then e\<lparr>re_fakeIPPool := ec_FakeIPPool cfg,
             re_fakeIPPool6 := (if ec_IPv6 cfg then ec_FakeIPPool6 cfg else None),
             re_fakeIPSkipper := ec_FakeIPSkipper cfg,
             re_fakeIPTTL := (if ec_FakeIPTTL cfg < 1 then 1 else ec_FakeIPTTL cfg),
             re_mapping := Some (lru_New [WithSize 4096])\<rparr>
      else e)"

subsection \<open>Answering a query\<close>

fun trim_dots_rev :: "string \<Rightarrow> string" where
  "trim_dots_rev [] = []"
| "trim_dots_rev (c # s) = (if c = CHR ''.'' then trim_dots_rev s else c # s)"

definition trimDots :: "string \<Rightarrow> string" where
  "trimDots s = rev (trim_dots_rev (rev s))"

datatype qtype = TypeA | TypeAAAA | TypeSVCB | TypeHTTPS | TypeOther nat

text \<open>What the middleware does with a query: pass it on, answer without a record, or answer with one address and a TTL.\<close>

datatype fake_reply = PassOn | EmptyAnswer | FakeAnswer addr int

definition withFakeIP :: "pool_lib \<Rightarrow> qtype \<Rightarrow> string \<Rightarrow> ResolverEnhancer \<Rightarrow> fake_reply \<times> ResolverEnhancer" where
  "withFakeIP lib qt qname h =
     (let host = trimDots qname in
      if ShouldSkipped lib (re_fakeIPSkipper h) host then (PassOn, h)
      else (case qt of
          TypeA \<Rightarrow>
            (case re_fakeIPPool h of None \<Rightarrow> (EmptyAnswer, h)
             | Some fakePool \<Rightarrow>
                 let (ip, pool) = Lookup lib host fakePool
                 in (FakeAnswer ip (re_fakeIPTTL h), h\<lparr>re_fakeIPPool := Some pool\<rparr>))
        | TypeAAAA \<Rightarrow>
            (case re_fakeIPPool6 h of None \<Rightarrow> (EmptyAnswer, h)
             | Some fakePool6 \<Rightarrow>
                 let (ip, pool6) = Lookup lib host fakePool6
                 in (FakeAnswer ip (re_fakeIPTTL h), h\<lparr>re_fakeIPPool6 := Some pool6\<rparr>))
        | TypeSVCB \<Rightarrow> (EmptyAnswer, h)
        | TypeHTTPS \<Rightarrow> (EmptyAnswer, h)
        | TypeOther _ \<Rightarrow> (PassOn, h)))"

subsection \<open>From the query to the connection\<close>

lemma usable_owned:
  assumes wf: "pool_wf p" and ip: "usable p ip"
  shows "pool_owns ip p"
proof -
  have "ip \<noteq> po_last p" using ip by (auto simp: in_range_def split: addr.splits)
  with pool_wf_contains [OF wf ip] show ?thesis by (simp only: pool_owns_def simp_thms)
qed

lemma Lookup_again:
  assumes inv: "pool_inv lib p" and v: "st_valid (usable p) (po_store p) (pl_ToLower lib host)"
    and b: "usable p ip" "st_ips (po_store p) ip = Some (pl_ToLower lib host)"
  shows "fst (Lookup lib host p) = ip"
proof -
  have ok: "st_ok (pl_commit lib) (usable p) (po_store p)" using inv by (simp add: pool_inv_def)
  from ps.byHost_finds [OF ok v] ps.inverse [OF ok v b(1)] b(2) show ?thesis
    by (simp add: Lookup_def Let_def case_prod_beta)
qed


definition demo_enhancer :: ResolverEnhancer where
  "demo_enhancer = NewEnhancer \<lparr>ec_IPv6 = False, ec_EnhancedMode = DNSFakeIP, ec_FakeIPPool = Some (demo_pool False),
     ec_FakeIPPool6 = None, ec_FakeIPSkipper = None, ec_FakeIPTTL = 0, ec_UseHosts = False\<rparr>"


end
