(* ===== verification/Spec2Isabelle.thy ===== *)
theory Spec2Isabelle
  imports TC_Lifecycle Aster_Atomic Dns_Enhancer
begin

text \<open>
  A verification library of aster-core, a proxy kernel written in Go: the parts of it that keep accounts and
  users, that decide who may use a listener, and that give fake addresses to names. The paths below are relative
  to \<^verbatim>\<open>src/\<close>.

  \<^bold>\<open>The program.\<close> Two managers and a pool of addresses run beside the data path.
  \<^item> Traffic control (\<^verbatim>\<open>component/trafficcontrol\<close>) parses a policy document (\<^verbatim>\<open>model.go\<close>), binds every session
    to the policies it matches, counts its bytes against quotas over sliding windows and into
    reports (\<^verbatim>\<open>manager.go\<close>), saves all that in a store with checksums (\<^verbatim>\<open>store.go\<close>), and gives users
    that are over their quota a signed link to a page about it (\<^verbatim>\<open>portal.go\<close>).
  \<^item> Aster (\<^verbatim>\<open>component/aster\<close>) manages the users of VLESS and AnyTLS listeners at run time. It keeps them in a
    file with a backup (\<^verbatim>\<open>store.go\<close>), counts their traffic without locks (\<^verbatim>\<open>traffic.go\<close>), and changes
    them in the file, in memory and in the running listener together (\<^verbatim>\<open>manager.go\<close>, \<^verbatim>\<open>users.go\<close>). It reaches the
    listeners through the registry (\<^verbatim>\<open>listener/listener.go\<close>); these (\<^verbatim>\<open>listener/inbound/vless.go\<close>,
    \<^verbatim>\<open>anytls.go\<close>) hand the users to a service (\<^verbatim>\<open>listener/sing_vless\<close>, \<^verbatim>\<open>listener/anytls\<close>) that
    authenticates connections and cuts off those that lost their credential. The VLESS client
    (\<^verbatim>\<open>transport/vless\<close>) speaks the same wire format from the other side.
  \<^item> The resolver enhancer (\<^verbatim>\<open>dns/enhancer.go\<close>) answers queries with fake addresses and leads connections to them
    back to the name. The addresses come from a pool (\<^verbatim>\<open>component/fakeip/pool.go\<close>), which keeps the binding in two
    LRU caches (\<^verbatim>\<open>common/lru\<close>) or in the cache file (\<^verbatim>\<open>component/profile/cachefile/fakeip.go\<close>).

  \<^bold>\<open>Foundations.\<close> \<^verbatim>\<open>Prelude\<close> has the conventions: Go strings are lists of 8-bit characters, \<^verbatim>\<open>int64\<close> is a
  64-bit word read with \<^const>\<open>sint\<close>, maps are association lists with the interface \<open>go_map\<close>, a result with an
  error is a sum with the error on the left. \<^verbatim>\<open>Go_Strings\<close> and \<^verbatim>\<open>Go_Bytes\<close> model what the code uses
  of the standard library. Other libraries and the outside world are parameters: records of functions
  (\<open>tc_lib\<close>, \<open>store_lib\<close>, \<open>portal_lib\<close>, \<open>vless_lib\<close>, \<open>inbound_lib\<close>, \<open>aster_lib\<close>, \<open>pool_lib\<close>) and environments that decide by number what the
  clock, the random source, a system call or a write does. What is assumed of them is a named hypothesis
  of the theorems, and each is met by a concrete instance in a witness.

  \<^bold>\<open>Traffic control.\<close>
  \<^item> \<^verbatim>\<open>TC_Duration\<close>, \<^verbatim>\<open>TC_Model\<close>: durations, the raw document, \<^verbatim>\<open>ParseConfig\<close> and \<^verbatim>\<open>Raw\<close>. \<^verbatim>\<open>TC_Config\<close>: a
    parsed configuration is well-formed, and printing and parsing it again gives it back.
  \<^item> \<^verbatim>\<open>TC_Quota\<close>: one policy. After any events the window counter is the sum of the events in
    the window, and the number of buckets is bounded. \<^verbatim>\<open>TC_Reports\<close>: the report series; roll-up into
    days and months changes no sum, and recording counts each key once.
  \<^item> \<^verbatim>\<open>TC_Store\<close>: blobs with CRC-32C, \<^verbatim>\<open>Save\<close> and \<^verbatim>\<open>Load\<close>, over the interface \<open>blob_codec\<close>.
  \<^item> \<^verbatim>\<open>TC_Manager\<close>, \<^verbatim>\<open>TC_Configure\<close>: the operations of the manager on a heap of policy
    states, because runtimes and bindings share them. \<^verbatim>\<open>TC_Sessions\<close>: the operations as a step relation with the
    invariant that a session counter counts the sessions bound to it. \<^verbatim>\<open>TC_Lifecycle\<close>: bytes are charged
    exactly once, configuring is all or nothing and keeps usage, flushing is durable.
  \<^item> \<^verbatim>\<open>TC_Portal\<close>: signed links validate, nothing else does, and the page shows only what was signed.

  \<^bold>\<open>Listeners.\<close>
  \<^item> \<^verbatim>\<open>Users_Service\<close>: the contract \<open>user_service\<close> of a service with a replaceable table of credentials; no
    connection outlives its credential. \<^verbatim>\<open>Vless_Service\<close> and \<^verbatim>\<open>Anytls_Service\<close> satisfy it.
    \<^verbatim>\<open>Vless_Wire\<close>: requests, streams, packets and addons of the client read back as what was written.
  \<^item> \<^verbatim>\<open>Inbound_Managed\<close>: the contract \<open>managed_listener\<close> of a listener with managed users, satisfied by both
    kinds: it serves the users it has on record, can be put back to them, cleared, and restarted.
    \<^verbatim>\<open>Inbound_Registry\<close>: replacing the running listeners is a transaction.

  \<^bold>\<open>Aster.\<close>
  \<^item> \<^verbatim>\<open>Aster_Store\<close>: validation against a declarative predicate, and saving at the granularity of system
    calls, each of which may fail or be the last. \<^verbatim>\<open>Aster_Traffic\<close>: recording, retiring and flushing at
    the granularity of atomic operations; every byte is counted, and nothing waits forever.
  \<^item> \<^verbatim>\<open>Aster_Runtime\<close>, \<^verbatim>\<open>Aster_Manager\<close>, \<^verbatim>\<open>Aster_Users\<close>: the state of the manager together with the
    registry and the disks, and its operations.
  \<^item> \<^verbatim>\<open>Aster_Invariant\<close>, \<^verbatim>\<open>Aster_Reachable\<close>: every operation keeps store, index, lock and file in agreement,
    whatever fails. \<^verbatim>\<open>Aster_Atomic\<close>: a change of users happens everywhere or nowhere, or the manager
    shuts down; a deleted user is cut off at once. These rest on the theorems' lemmas about the store, the
    registry and the services.

  \<^bold>\<open>Fake addresses.\<close>
  \<^item> \<^verbatim>\<open>Common_LRU\<close>: the cache as a map and a linked list, refining a list of entries in order of last use,
    which never exceeds its size.
  \<^item> \<^verbatim>\<open>Fakeip_Store\<close>: the contract \<open>fake_store\<close> of a store of bindings, satisfied by the pair of caches and by the
    bucket of the file. \<^verbatim>\<open>Fakeip_Pool\<close>: every operation keeps the allocation in the range and the binding
    one-to-one, a stored pool survives a restart, and what goes wrong when it was not stored or its range changed.
    \<^verbatim>\<open>Dns_Enhancer\<close>: the address that answers a query is recognised as fake and leads back to the name.

  \<^bold>\<open>Atomicity.\<close> An operation that holds the lock of a manager, a pool or a cache is one step. Where the code is lock-free the model is finer:
  authentication in two steps, and \<^verbatim>\<open>Aster_Traffic\<close> at the level of single atomic operations.

  \<^bold>\<open>Bounds.\<close> Loops are structural recursion or have a termination proof; the trimming of reports ends because every round
  drops a series. Fuel is used once: \<open>seed_name\<close> tries one name more than are taken, which is enough when lower
  case tells the tried names apart (\<open>seed_name_finds\<close>). Counters, generations and revisions are 64-bit words; instants and
  durations are integers of nanoseconds, with the overflow checks of the parser written out.

  \<^bold>\<open>Not modelled.\<close> The data path and all socket I/O, transports and cryptography, DNS resolution, rules and providers, TUN and the kernel
  fast path, the HTTP API and the reading of YAML: they are I/O, third-party protocols, or independent of the parts above.
  Of the parts above: opening, compacting and backing up the bbolt file; the HTTP server and the template of the portal;
  the construction of subscription links; the server's packet connections; permissions and locks of files, which
  appear as outcomes. Cloning is the identity on values.
\<close>

end
